(* ===== verification/HandPrelude.thy ===== *)
theory HandPrelude imports Main "HOL-Library.Word" "HOL-Library.Sublist" begin

text \<open>
  What every theory of the development shares: the reading of a C string as a HOL string, the
  numeric code of a byte, the collections that carry the component proofs, and a few generic
  facts on lists.

  A C string (\<open>char *\<close> to a NUL-terminated array) is modelled by the list of bytes from the
  pointer on; the end of the list stands for a terminating NUL, and a NUL character inside the
  list ends the string as well. \<open>cstr\<close> is the string as C sees it.
\<close>

named_theorems cstr_simps \<open>C string operations in terms of their abstract strings\<close>
named_theorems buf_simps \<open>heap and buffer rewriting\<close>
named_theorems run_simps \<open>running effectful programs\<close>
named_theorems emits_intros \<open>which events a program can emit\<close>

abbreviation NUL :: char where "NUL \<equiv> CHR 0x00"

abbreviation code :: "char \<Rightarrow> nat" where "code c \<equiv> of_char c"

fun deref :: "string \<Rightarrow> char" where
  "deref [] = NUL"
| "deref (c # cs) = c"

definition cstr :: "string \<Rightarrow> string" where
  "cstr s = takeWhile (\<lambda>c. c \<noteq> NUL) s"

lemma cstr_Nil [simp]: "cstr [] = []"
  by (simp add: cstr_def)

lemma cstr_Cons [simp]: "cstr (c # s) = (if c = NUL then [] else c # cstr s)"
  by (simp add: cstr_def)

lemma cstr_idem [simp]: "cstr (cstr s) = cstr s"
  by (induction s) auto

lemma cstr_no_NUL: "NUL \<notin> set (cstr s)"
  by (induction s) auto

lemma cstr_id: "NUL \<notin> set s \<Longrightarrow> cstr s = s"
  by (induction s) auto

lemma deref_NUL_iff: "deref s = NUL \<longleftrightarrow> cstr s = []"
  by (cases s) auto

lemma cstr_unfold: "deref s \<noteq> NUL \<Longrightarrow> cstr s = deref s # cstr (tl s)"
  by (cases s) auto

lemma cstr_append: "NUL \<notin> set s \<Longrightarrow> cstr (s @ t) = s @ cstr t"
  by (induction s) auto

lemma length_cstr_le: "length (cstr s) \<le> length s"
  by (simp add: cstr_def length_takeWhile_le)

lemma map_upt_eq_nth: "map (\<lambda>i. xs ! i) [0..<length xs] = xs"
  by (rule map_nth)

text \<open>
  The C type \<open>int\<close>: \<open>c_int\<close> is arithmetic whose overflow is undefined (\<open>None\<close>), \<open>to_int32\<close> the
  conversion to \<open>int\<close>, which keeps the low 32 bits.
\<close>

definition c_int :: "int \<Rightarrow> int option" where
  "c_int x = (if - (2 ^ 31) \<le> x \<and> x < 2 ^ 31 then Some x else None)"

definition to_int32 :: "int \<Rightarrow> int" where
  "to_int32 x = (x + 2 ^ 31) mod 2 ^ 32 - 2 ^ 31"

lemma to_int32_id: "- (2 ^ 31) \<le> x \<Longrightarrow> x < 2 ^ 31 \<Longrightarrow> to_int32 x = x"
  by (simp add: to_int32_def)

end
