(* ===== verification/CStrings.thy ===== *)
theory CStrings imports HandPrelude begin

text \<open>
  The string and integer helpers of \<open>code/hand_common.h\<close>, over C strings as \<open>HandPrelude\<close>
  reads them: lengths, the three comparisons, the digit tests, the conjunction of an array of
  flags, and the rounding of a size to the next power of two on 64-bit words. Each comparison is
  characterised by an equation on the abstract strings, collected in \<open>cstr_simps\<close>.
\<close>

unbundle bit_operations_syntax

subsection \<open>Rounding a size to a power of two\<close>

definition next_pow_of_two :: "64 word \<Rightarrow> 64 word" where
  "next_pow_of_two value =
     (let v0 = value - 1;
          v1 = v0 OR drop_bit 1 v0;
          v2 = v1 OR drop_bit 2 v1;
          v3 = v2 OR drop_bit 4 v2;
          v4 = v3 OR drop_bit 8 v3;
          v5 = v4 OR drop_bit 16 v4;
          v6 = v5 OR drop_bit 32 v5
      in v6 + 1)"

text \<open>
  Each of the six steps doubles the distance over which a set bit is copied downwards, which is
  the invariant \<open>smeared k\<close>: a bit is set when one of the \<open>k\<close> bits from it upwards was set.
\<close>

definition smeared :: "nat \<Rightarrow> 64 word \<Rightarrow> 64 word \<Rightarrow> bool" where
  "smeared k w v \<longleftrightarrow> (\<forall>n. bit w n \<longleftrightarrow> (\<exists>m. n \<le> m \<and> m < n + k \<and> bit v m))"

lemma smeared_start: "smeared 1 v v"
  by (auto simp: smeared_def) (metis Suc_leI le_antisym less_Suc_eq_le)

lemma smeared_step:
  assumes "smeared k w v"
  shows "smeared (k + k) (w OR drop_bit k w) v"
proof -
  have "(\<exists>m. n \<le> m \<and> m < n + k \<and> bit v m) \<or> (\<exists>m. k + n \<le> m \<and> m < k + n + k \<and> bit v m)
      \<longleftrightarrow> (\<exists>m. n \<le> m \<and> m < n + (k + k) \<and> bit v m)" for n
    by (auto; metis add.commute add.assoc add_leD2 leI trans_less_add1)
  then show ?thesis
    using assms by (simp add: smeared_def bit_or_iff bit_drop_bit_eq)
qed

lemma next_pow_of_two_bits:
  "bit (next_pow_of_two value - 1) n \<longleftrightarrow> (\<exists>m \<ge> n. bit (value - 1) m)"
proof -
  define v0 where "v0 = value - 1"
  define v1 where "v1 = v0 OR drop_bit 1 v0"
  define v2 where "v2 = v1 OR drop_bit 2 v1"
  define v3 where "v3 = v2 OR drop_bit 4 v2"
  define v4 where "v4 = v3 OR drop_bit 8 v3"
  define v5 where "v5 = v4 OR drop_bit 16 v4"
  define v6 where "v6 = v5 OR drop_bit 32 v5"
  have shift: "next_pow_of_two value - 1 = v6"
    unfolding next_pow_of_two_def Let_def v6_def v5_def v4_def v3_def v2_def v1_def v0_def
    by (rule add_diff_cancel_right')
  have "smeared 2 v1 v0" using smeared_step [OF smeared_start [of v0]]
    by (simp add: v1_def flip: one_add_one)
  then have "smeared 4 v2 v0" unfolding v2_def by (auto dest: smeared_step)
  then have "smeared 8 v3 v0" unfolding v3_def by (auto dest: smeared_step)
  then have "smeared 16 v4 v0" unfolding v4_def by (auto dest: smeared_step)
  then have "smeared 32 v5 v0" unfolding v5_def by (auto dest: smeared_step)
  then have "smeared 64 v6 v0" unfolding v6_def by (auto dest: smeared_step)
  then have "bit v6 n \<longleftrightarrow> (\<exists>m. n \<le> m \<and> m < n + 64 \<and> bit v0 m)"
    unfolding smeared_def by blast
  moreover have "m < n + 64" if "bit v0 m" for m
    using bit_imp_le_length [OF that] by simp
  ultimately have "bit v6 n \<longleftrightarrow> (\<exists>m \<ge> n. bit v0 m)"
    by blast
  then show ?thesis
    by (subst shift) (simp add: v0_def)
qed

lemma unat_less_power_iff_bits: "unat (w :: 64 word) < 2 ^ k \<longleftrightarrow> (\<forall>m \<ge> k. \<not> bit w m)"
proof -
  have "unat w < 2 ^ k \<longleftrightarrow> take_bit k (unat w) = unat w"
    by (simp add: take_bit_nat_eq_self_iff)
  also have "\<dots> \<longleftrightarrow> (\<forall>m \<ge> k. \<not> bit (unat w) m)"
    unfolding bit_eq_iff bit_take_bit_iff by simp (meson not_le)
  finally show ?thesis
    by (simp add: bit_unsigned_iff)
qed

lemma next_pow_of_two_mask:
  assumes "unat (value - 1) < 2 ^ k" and "\<And>j. j < k \<Longrightarrow> \<not> unat (value - 1) < 2 ^ j"
  shows "next_pow_of_two value = mask k + 1"
proof -
  have "bit (next_pow_of_two value - 1) n \<longleftrightarrow> n < k" for n
  proof (cases "n < k")
    case True
    with assms(2) [of "k - 1"] obtain m where "k - 1 \<le> m" "bit (value - 1) m"
      by (auto simp: unat_less_power_iff_bits)
    then show ?thesis
      using True by (auto simp: next_pow_of_two_bits intro: exI [of _ m])
  next
    case False
    then show ?thesis
      using assms(1) by (auto simp: next_pow_of_two_bits unat_less_power_iff_bits)
  qed
  moreover have "k \<le> 64"
    using assms(2) [of 64] unsigned_less [of "value - 1", where ?'a = nat] by force
  ultimately have "next_pow_of_two value - 1 = mask k"
    by (intro bit_word_eqI) (auto simp: bit_mask_iff)
  then show ?thesis by (simp add: diff_eq_eq)
qed

lemma next_pow_of_two_least:
  assumes "1 \<le> unat value" and "unat value \<le> 2 ^ 63"
  shows "\<exists>k \<le> 63. unat (next_pow_of_two value) = 2 ^ k \<and> unat value \<le> 2 ^ k
           \<and> (\<forall>j < k. 2 ^ j < unat value)"
proof -
  have pred: "unat (value - 1) = unat value - 1"
    using assms(1) by (simp add: unat_sub word_le_nat_alt)
  define k where "k = (LEAST k. unat (value - 1) < 2 ^ k)"
  have small: "unat (value - 1) < 2 ^ 63"
    using assms pred by linarith
  have k: "unat (value - 1) < 2 ^ k" and least: "\<And>j. j < k \<Longrightarrow> \<not> unat (value - 1) < 2 ^ j"
    unfolding k_def using LeastI [of "\<lambda>k. unat (value - 1) < 2 ^ k", OF small]
    by (auto dest: not_less_Least)
  have le: "k \<le> 63"
    unfolding k_def using small by (rule Least_le)
  have "(2 :: 64 word) ^ k = of_nat (2 ^ k)"
    by simp
  moreover have "(2 :: nat) ^ k < 2 ^ 64"
    using le by (intro power_strict_increasing) simp_all
  ultimately have "unat (mask k + 1 :: 64 word) = 2 ^ k"
    by (simp only: mask_eq_exp_minus_1 diff_add_cancel unat_of_nat) simp
  with next_pow_of_two_mask [OF k least] have "unat (next_pow_of_two value) = 2 ^ k"
    by simp
  moreover have "unat value \<le> 2 ^ k"
    using k pred by linarith
  moreover have "2 ^ j < unat value" if "j < k" for j
    using least [OF that] pred assms(1) by linarith
  ultimately show ?thesis
    using le by blast
qed

subsection \<open>Flags, lengths and comparisons\<close>

fun true_for_all :: "bool list \<Rightarrow> nat \<Rightarrow> bool" where
  "true_for_all bs 0 = True"
| "true_for_all [] (Suc n) = True"
| "true_for_all (b # bs) (Suc n) = (if \<not> b then False else true_for_all bs n)"

lemma true_for_all_iff [simp]: "true_for_all bs (length bs) \<longleftrightarrow> (\<forall>b \<in> set bs. b)"
  by (induction bs) auto

fun string_len :: "string \<Rightarrow> nat" where
  "string_len [] = 0"
| "string_len (c # s) = (if c = NUL then 0 else Suc (string_len s))"

lemma string_len_eq [cstr_simps]: "string_len s = length (cstr s)"
  by (induction s) auto

fun compare_substring :: "string \<Rightarrow> string \<Rightarrow> nat \<Rightarrow> bool" where
  "compare_substring a b 0 = True"
| "compare_substring a b (Suc n) =
     (if deref a \<noteq> deref b \<or> deref a = NUL \<or> deref b = NUL then False
      else compare_substring (tl a) (tl b) n)"

lemma compare_substring_eq:
  "compare_substring a b n \<longleftrightarrow>
     n \<le> length (cstr a) \<and> n \<le> length (cstr b) \<and> take n (cstr a) = take n (cstr b)"
proof (induction a b n rule: compare_substring.induct)
  case (2 a b n)
  then show ?case
    by (cases a; cases b) auto
qed simp

lemma compare_substring_prefix [cstr_simps]:
  "compare_substring s p (string_len p) \<longleftrightarrow> prefix (cstr p) (cstr s)"
  by (auto simp: compare_substring_eq string_len_eq prefix_def)
    (metis append_take_drop_id)

lemma length_tl_less: "deref s \<noteq> NUL \<Longrightarrow> length (tl s) < length s"
  by (cases s) auto

function compare_string :: "string \<Rightarrow> string \<Rightarrow> bool" where
  "compare_string a b =
     (if deref a \<noteq> deref b then False
      else if deref a = NUL then True
      else compare_string (tl a) (tl b))"
  by pat_completeness auto
termination
  by (relation "measure (\<lambda>(a, b). length a)") (simp_all add: length_tl_less del: length_tl)

declare compare_string.simps [simp del]

lemma compare_string_eq [cstr_simps]: "compare_string a b \<longleftrightarrow> cstr a = cstr b"
proof (induction a b rule: compare_string.induct)
  case (1 a b)
  then show ?case
    by (subst compare_string.simps) (cases a; cases b; auto)
qed

definition fold_case :: "char \<Rightarrow> char" where
  "fold_case c = (if 65 \<le> code c \<and> code c \<le> 90 then char_of (code c - 65 + 97) else c)"

lemma of_char_NUL: "code NUL = 0"
  by simp

lemma code_fold_case:
  "code (fold_case c) = (if 65 \<le> code c \<and> code c \<le> 90 then code c + 32 else code c)"
  by (simp add: fold_case_def)

lemma fold_case_NUL [simp]: "fold_case NUL = NUL"
  by (simp add: fold_case_def)

lemma fold_case_NUL_iff [simp]: "fold_case c = NUL \<longleftrightarrow> c = NUL"
proof
  assume "fold_case c = NUL"
  then have "code (fold_case c) = 0" by simp
  then have "\<not> (65 \<le> code c \<and> code c \<le> 90)"
    by (simp add: code_fold_case split: if_splits)
  then have "fold_case c = c"
    by (simp only: fold_case_def if_False)
  then show "c = NUL"
    using \<open>fold_case c = NUL\<close> by simp
qed simp

lemma fold_case_NUL_iff' [simp]: "NUL = fold_case c \<longleftrightarrow> c = NUL"
  by (metis fold_case_NUL_iff)

function compare_case_insensitive :: "string \<Rightarrow> string \<Rightarrow> bool" where
  "compare_case_insensitive a b =
     (let c_a = fold_case (deref a); c_b = fold_case (deref b) in
      if c_a \<noteq> c_b then False
      else if c_a = NUL then True
      else compare_case_insensitive (tl a) (tl b))"
  by pat_completeness auto
termination
  by (relation "measure (\<lambda>(a, b). length a)")
    (auto simp: length_tl_less simp del: length_tl, metis fold_case_NUL_iff length_tl_less)

declare compare_case_insensitive.simps [simp del]

lemma compare_case_insensitive_eq [cstr_simps]:
  "compare_case_insensitive a b \<longleftrightarrow> map fold_case (cstr a) = map fold_case (cstr b)"
proof (induction a b rule: compare_case_insensitive.induct)
  case (1 a b)
  then show ?case
    by (subst compare_case_insensitive.simps) (cases a; cases b; auto simp: Let_def)
qed

definition is_digit :: "char \<Rightarrow> bool" where
  "is_digit c = (48 \<le> code c \<and> code c \<le> 57)"

fun is_number :: "string \<Rightarrow> bool" where
  "is_number [] = True"
| "is_number (c # s) =
     (if c = NUL then True
      else if code c < 48 \<or> 57 < code c then False
      else is_number s)"

lemma is_number_eq [cstr_simps]: "is_number s \<longleftrightarrow> (\<forall>c \<in> set (cstr s). is_digit c)"
  by (induction s) (auto simp: is_digit_def)

end
