(* ===== verification/Calendar.thy ===== *)
theory Calendar imports CStrings begin

text \<open>
  Time: \<open>calendar_time\<close> (\<open>code/hand_common.h\<close>), \<open>parse_time\<close> (\<open>code/hand.h\<close>) and the Linux
  provider of \<open>platform.calender_time_to_time\<close> (\<open>code/linux_main.c\<close>), on top of the two libc
  functions they call, \<open>gmtime\<close> and \<open>timegm\<close>, over the proleptic Gregorian calendar.
  \<open>time_t\<close> is an \<open>int\<close>; the only overflow libc can meet here, a year outside a C \<open>int\<close>, is
  the \<open>None\<close> of \<open>gmtime\<close>.

  The locale \<open>calendar_clock\<close> is the contract between \<open>parse_time\<close> and the platform's clock;
  it is interpreted on the Linux code, and gives the round trip: a deadline written in the format
  the tool accepts is read back as the instant it was printed from.
\<close>

record tm =
  tm_sec :: int
  tm_min :: int
  tm_hour :: int
  tm_mday :: int
  tm_mon :: int
  tm_year :: int
  tm_wday :: int

definition zero_tm :: tm where
  "zero_tm = \<lparr>tm_sec = 0, tm_min = 0, tm_hour = 0, tm_mday = 0, tm_mon = 0, tm_year = 0,
              tm_wday = 0\<rparr>"

subsection \<open>The calendar of libc\<close>

definition is_leap :: "int \<Rightarrow> bool" where
  "is_leap y \<longleftrightarrow> y mod 4 = 0 \<and> (y mod 100 \<noteq> 0 \<or> y mod 400 = 0)"

definition days_before_year :: "int \<Rightarrow> int" where
  "days_before_year y =
     365 * (y - 1970) + (y - 1969) div 4 - (y - 1901) div 100 + (y - 1601) div 400"

definition month_starts :: "int list" where
  "month_starts = [0, 31, 59, 90, 120, 151, 181, 212, 243, 273, 304, 334]"

definition days_before_month :: "bool \<Rightarrow> int \<Rightarrow> int" where
  "days_before_month leap m =
     month_starts ! nat m + (if leap \<and> 2 \<le> m then 1 else 0)"

definition year_of_day :: "int \<Rightarrow> int" where
  "year_of_day d =
     (let y = 1970 + (400 * d) div 146097 in
      if d < days_before_year y then y - 1
      else if days_before_year (y + 1) \<le> d then y + 1
      else y)"

fun month_scan :: "bool \<Rightarrow> int \<Rightarrow> int \<Rightarrow> int list \<Rightarrow> int" where
  "month_scan leap yd m [] = m"
| "month_scan leap yd m (n # ns) =
     (if yd < days_before_month leap n then m else month_scan leap yd n ns)"

definition month_of_yday :: "bool \<Rightarrow> int \<Rightarrow> int" where
  "month_of_yday leap yd = month_scan leap yd 0 [1..11]"

definition timegm :: "tm \<Rightarrow> int" where
  "timegm t =
     (let y = 1900 + tm_year t + tm_mon t div 12;
          m = tm_mon t mod 12
      in 86400 * (days_before_year y + days_before_month (is_leap y) m + tm_mday t - 1)
         + 3600 * tm_hour t + 60 * tm_min t + tm_sec t)"

definition gmtime :: "int \<Rightarrow> tm option" where
  "gmtime t =
     (let d = t div 86400; r = t mod 86400;
          y = year_of_day d;
          yd = d - days_before_year y;
          m = month_of_yday (is_leap y) yd
      in if y - 1900 < - (2 ^ 31) \<or> 2 ^ 31 \<le> y - 1900 then None
         else Some \<lparr>tm_sec = r mod 60, tm_min = r div 60 mod 60, tm_hour = r div 3600,
                    tm_mday = yd - days_before_month (is_leap y) m + 1, tm_mon = m,
                    tm_year = y - 1900, tm_wday = (d + 4) mod 7\<rparr>)"

subsection \<open>The functions of the program\<close>

definition calendar_time :: "int \<Rightarrow> tm" where
  "calendar_time time =
     (let local_time = time + 8 * 3600 in
      case gmtime local_time of Some local_tm \<Rightarrow> local_tm | None \<Rightarrow> zero_tm)"

definition linux_calender_time_to_time :: "tm \<Rightarrow> int \<Rightarrow> int" where
  "linux_calender_time_to_time calender_time time_zone =
     (let time_plus_time_zone = timegm calender_time in
      if time_plus_time_zone \<noteq> -1 then time_plus_time_zone - time_zone * 3600 else 0)"

text \<open>\<open>_mkgmtime\<close> converts the times from 1970 to the end of the year 3000, and is -1 otherwise.\<close>

definition mkgmtime :: "tm \<Rightarrow> int" where
  "mkgmtime t = (if 0 \<le> timegm t \<and> timegm t < 32535216000 then timegm t else -1)"

definition win32_calender_time_to_time :: "tm \<Rightarrow> int \<Rightarrow> int" where
  "win32_calender_time_to_time calender_time time_zone =
     (let time_plus_time_zone = mkgmtime calender_time in
      if time_plus_time_zone \<noteq> -1 then time_plus_time_zone - time_zone * 3600 else 0)"

definition char_at :: "string \<Rightarrow> nat \<Rightarrow> char" where
  "char_at s i = deref (drop i s)"

definition digit_at :: "string \<Rightarrow> nat \<Rightarrow> int" where
  "digit_at s i = int (code (char_at s i)) - 48"

definition parse_time :: "(tm \<Rightarrow> int \<Rightarrow> int) \<Rightarrow> string \<Rightarrow> int \<Rightarrow> int" where
  "parse_time calender_time_to_time s time_zone =
     (let len = string_len s;
          d = digit_at s;
          digits = list_all (\<lambda>i. is_digit (char_at s i));
          others = list_all (\<lambda>i. \<not> is_digit (char_at s i))
      in if len = 10 \<and> digits [0, 1, 2, 3, 5, 6, 8, 9] \<and> others [4, 7]
         then let t = zero_tm\<lparr>tm_mday := d 8 * 10 + d 9,
                              tm_mon := d 5 * 10 + d 6 - 1,
                              tm_year := d 0 * 1000 + d 1 * 100 + d 2 * 10 + d 3 - 1900\<rparr>
              in if 0 \<le> tm_mon t \<and> tm_mon t \<le> 11 \<and> 1 \<le> tm_mday t \<and> tm_mday t \<le> 31
                 then calender_time_to_time t time_zone else 0
         else if (len = 19 \<or> len = 20) \<and>
                 digits [0, 1, 2, 3, 5, 6, 8, 9, 11, 12, 14, 15, 17, 18] \<and>
                 others [4, 7, 10, 13, 16, 19]
         then let t = zero_tm\<lparr>tm_sec := d 17 * 10 + d 18,
                              tm_min := d 14 * 10 + d 15,
                              tm_hour := d 11 * 10 + d 12,
                              tm_mday := d 8 * 10 + d 9,
                              tm_mon := d 5 * 10 + d 6 - 1,
                              tm_year := d 0 * 1000 + d 1 * 100 + d 2 * 10 + d 3 - 1900\<rparr>
              in if 0 \<le> tm_mon t \<and> tm_mon t \<le> 11 \<and> 1 \<le> tm_mday t \<and> tm_mday t \<le> 31 \<and>
                    0 \<le> tm_hour t \<and> tm_hour t \<le> 23 \<and> 0 \<le> tm_min t \<and> tm_min t \<le> 59 \<and>
                    0 \<le> tm_sec t \<and> tm_sec t \<le> 59
                 then calender_time_to_time t time_zone else 0
         else 0)"

subsection \<open>Years, months and days\<close>

lemma div_succ:
  fixes a b :: int
  assumes "0 < b"
  shows "(a + 1) div b = a div b + (if (a + 1) mod b = 0 then 1 else 0)"
proof (cases "a mod b = b - 1")
  case True
  with mult_div_mod_eq [of b a] have "b * (a div b) + (b - 1) = a"
    by simp
  then have "a + 1 = (a div b + 1) * b"
    by (simp add: distrib_right mult.commute [of "a div b"])
  then show ?thesis using assms by (metis mod_mult_self2_is_0 nonzero_mult_div_cancel_right less_irrefl)
next
  case False
  define r where "r = a mod b + 1"
  have r: "0 < r" "r < b"
    using False pos_mod_bound [OF assms, of a] pos_mod_sign [OF assms, of a] by (simp_all add: r_def)
  have eq: "a + 1 = r + (a div b) * b"
    using mult_div_mod_eq [of b a] by (simp add: r_def algebra_simps)
  show ?thesis
    unfolding eq using assms r by (simp add: div_pos_pos_trivial mod_pos_pos_trivial)
qed

lemma mod_0_of_mult: "y mod (a * b) = 0 \<Longrightarrow> y mod a = (0 :: int)"
  by (metis mod_mod_cancel dvd_triv_left mod_0)

lemma div_succ_mod:
  fixes a b y z :: int
  assumes "0 < b" and "z = a + 1" and "z = y + k * b"
  shows "z div b = a div b + (if y mod b = 0 then 1 else 0)"
  using div_succ [OF assms(1), of a] assms(2,3) by (metis mod_mult_self1)

lemma leap_count:
  fixes a b c a' b' c' x :: int
  assumes "a' = a + (if p4 then 1 else 0)" "b' = b + (if p100 then 1 else 0)"
    "c' = c + (if p400 then 1 else 0)" "p400 \<Longrightarrow> p100" "p100 \<Longrightarrow> p4"
  shows "365 * (x + 1) + a' - b' + c'
    = 365 * x + a - b + c + (if p4 \<and> (\<not> p100 \<or> p400) then 366 else 365)"
  using assms by (cases p4; cases p100; cases p400) auto

lemma days_before_year_Suc:
  "days_before_year (y + 1) = days_before_year y + (if is_leap y then 366 else 365)"
proof -
  have shift: "y + 1 - 1970 = (y - 1970) + 1" "y + 1 - 1969 = y - 1968" "y + 1 - 1901 = y - 1900"
    "y + 1 - 1601 = y - 1600"
    by simp_all
  show ?thesis
    unfolding days_before_year_def is_leap_def shift
  proof (rule leap_count)
    show "(y - 1968) div 4 = (y - 1969) div 4 + (if y mod 4 = 0 then 1 else 0)"
      by (rule div_succ_mod [where k = "-492"]) simp_all
    show "(y - 1900) div 100 = (y - 1901) div 100 + (if y mod 100 = 0 then 1 else 0)"
      by (rule div_succ_mod [where k = "-19"]) simp_all
    show "(y - 1600) div 400 = (y - 1601) div 400 + (if y mod 400 = 0 then 1 else 0)"
      by (rule div_succ_mod [where k = "-4"]) simp_all
    show "y mod 100 = 0" if "y mod 400 = 0"
      by (rule mod_0_of_mult [of y 100 4]) (use that in simp)
    show "y mod 4 = 0" if "y mod 100 = 0"
      by (rule mod_0_of_mult [of y 4 25]) (use that in simp)
  qed
qed

lemma div_bounds:
  fixes a b :: int
  assumes "0 < b"
  shows "b * (a div b) \<le> a" and "a \<le> b * (a div b) + (b - 1)"
  using mult_div_mod_eq [of b a] pos_mod_bound [OF assms, of a] pos_mod_sign [OF assms, of a]
  by linarith+

lemma days_before_year_lower:
  "146097 * y - 287811596 \<le> 400 * days_before_year y"
proof -
  define a b c where "a = (y - 1969) div 4" and "b = (y - 1901) div 100" and "c = (y - 1601) div 400"
  have "y - 1969 \<le> 4 * a + 3" "100 * b \<le> y - 1901" "y - 1601 \<le> 400 * c + 399"
    unfolding a_def b_def c_def
    using div_bounds [of 4 "y - 1969"] div_bounds [of 100 "y - 1901"] div_bounds [of 400 "y - 1601"]
    by simp_all
  moreover have "days_before_year y = 365 * y - 719050 + a - b + c"
    by (simp add: days_before_year_def a_def b_def c_def)
  ultimately show ?thesis by linarith
qed

lemma days_before_year_upper:
  "400 * days_before_year y \<le> 146097 * y - 287810490"
proof -
  define a b c where "a = (y - 1969) div 4" and "b = (y - 1901) div 100" and "c = (y - 1601) div 400"
  have "4 * a \<le> y - 1969" "y - 1901 \<le> 100 * b + 99" "400 * c \<le> y - 1601"
    unfolding a_def b_def c_def
    using div_bounds [of 4 "y - 1969"] div_bounds [of 100 "y - 1901"] div_bounds [of 400 "y - 1601"]
    by simp_all
  moreover have "days_before_year y = 365 * y - 719050 + a - b + c"
    by (simp add: days_before_year_def a_def b_def c_def)
  ultimately show ?thesis by linarith
qed

lemma days_before_year_estimate:
  fixes d :: int
  defines "k \<equiv> (400 * d) div 146097"
  shows "days_before_year (1970 + k - 1) \<le> d" and "d < days_before_year (1970 + k + 2)"
proof -
  have k: "146097 * k \<le> 400 * d" "400 * d \<le> 146097 * k + 146096"
    unfolding k_def using div_bounds [of 146097 "400 * d"] by simp_all
  have "1970 + k - 1 = 1969 + k" "1970 + k + 2 = 1972 + k" by simp_all
  then show "days_before_year (1970 + k - 1) \<le> d"
    using k days_before_year_upper [of "1969 + k", unfolded distrib_left] by simp
  show "d < days_before_year (1970 + k + 2)"
    using k days_before_year_lower [of "1972 + k", unfolded distrib_left]
      \<open>1970 + k + 2 = 1972 + k\<close> by simp
qed

lemma year_of_day_bounds:
  "days_before_year (year_of_day d) \<le> d \<and> d < days_before_year (year_of_day d + 1)"
  using days_before_year_estimate [of d]
  by (auto simp: year_of_day_def Let_def algebra_simps)

lemma days_before_year_mono_add: "days_before_year y \<le> days_before_year (y + int n)"
proof (induction n)
  case (Suc n)
  then show ?case
    using days_before_year_Suc [of "y + int n"] by (simp add: ac_simps split: if_splits)
qed simp

lemma days_before_year_mono: "y \<le> z \<Longrightarrow> days_before_year y \<le> days_before_year z"
  using days_before_year_mono_add [of y "nat (z - y)"] by simp

lemma year_of_day_unique:
  assumes "days_before_year y \<le> d" and "d < days_before_year (y + 1)"
  shows "year_of_day d = y"
proof (rule ccontr)
  assume "year_of_day d \<noteq> y"
  then consider "year_of_day d + 1 \<le> y" | "y + 1 \<le> year_of_day d" by linarith
  then show False
    using days_before_year_mono year_of_day_bounds [of d] assms by cases fastforce+
qed

definition days_in_month :: "bool \<Rightarrow> int \<Rightarrow> int" where
  "days_in_month leap m =
     (if m = 11 then (if leap then 366 else 365) - days_before_month leap 11
      else days_before_month leap (m + 1) - days_before_month leap m)"

lemma month_cases:
  assumes "0 \<le> m" and "m \<le> (11 :: int)"
  obtains "m = 0" | "m = 1" | "m = 2" | "m = 3" | "m = 4" | "m = 5" | "m = 6" | "m = 7" | "m = 8"
    | "m = 9" | "m = 10" | "m = 11"
proof -
  have "m = 0 \<or> m = 1 \<or> m = 2 \<or> m = 3 \<or> m = 4 \<or> m = 5 \<or> m = 6 \<or> m = 7 \<or> m = 8 \<or> m = 9
      \<or> m = 10 \<or> m = 11"
    using assms by presburger
  then show thesis using that by blast
qed

lemmas month_simps = month_of_yday_def days_before_month_def days_in_month_def month_starts_def

lemma month_of_yday_unique:
  assumes "0 \<le> m" "m \<le> 11" "1 \<le> d" "d \<le> days_in_month leap m"
  shows "month_of_yday leap (days_before_month leap m + d - 1) = m"
  using assms(1,2)
  by (cases rule: month_cases)
    (use assms(3,4) in \<open>simp_all add: month_simps upto.simps split: if_splits\<close>)

lemma days_before_month_in_year:
  assumes "0 \<le> m" "m \<le> 11" "1 \<le> d" "d \<le> days_in_month leap m"
  shows "0 \<le> days_before_month leap m + d - 1"
    and "days_before_month leap m + d - 1 < (if leap then 366 else 365)"
proof -
  show "0 \<le> days_before_month leap m + d - 1"
    using assms(1,2) by (cases rule: month_cases) (use assms(3,4) in \<open>simp_all add: month_simps split: if_splits\<close>)
  show "days_before_month leap m + d - 1 < (if leap then 366 else 365)"
    using assms(1,2) by (cases rule: month_cases) (use assms(3,4) in \<open>simp_all add: month_simps split: if_splits\<close>)
qed


lemma days_before_month_0: "days_before_month leap 0 = 0"
  by (simp add: month_simps)

lemma month_scan_bounds:
  assumes "0 \<le> m" "m \<le> 11" "days_before_month leap m \<le> yd"
  defines "r \<equiv> month_scan leap yd m [m + 1..11]"
  shows "m \<le> r \<and> r \<le> 11 \<and> days_before_month leap r \<le> yd
    \<and> (r < 11 \<longrightarrow> yd < days_before_month leap (r + 1))"
  using assms(1-3) unfolding r_def
proof (induction "nat (11 - m)" arbitrary: m)
  case 0
  then show ?case by simp
next
  case (Suc k)
  then have "m < 11" by simp
  then have up: "[m + 1..11] = (m + 1) # [m + 1 + 1..11]"
    by (intro upto_rec1) simp
  show ?case
  proof (cases "yd < days_before_month leap (m + 1)")
    case True
    with \<open>m < 11\<close> Suc.prems show ?thesis by (simp add: up)
  next
    case False
    let ?r = "month_scan leap yd (m + 1) [m + 1 + 1..11]"
    have "m + 1 \<le> ?r \<and> ?r \<le> 11 \<and> days_before_month leap ?r \<le> yd
        \<and> (?r < 11 \<longrightarrow> yd < days_before_month leap (?r + 1))"
      using False Suc.prems Suc.hyps(2) \<open>m < 11\<close> by (intro Suc.hyps(1)) auto
    with False show ?thesis by (simp add: up)
  qed
qed

lemma month_of_yday_bounds:
  assumes "0 \<le> yd" and "yd < (if leap then 366 else 365)"
  defines "m \<equiv> month_of_yday leap yd"
  shows "0 \<le> m \<and> m \<le> 11"
    and "days_before_month leap m \<le> yd \<and> yd - days_before_month leap m + 1 \<le> days_in_month leap m"
proof -
  have "0 \<le> m \<and> m \<le> 11 \<and> days_before_month leap m \<le> yd
      \<and> (m < 11 \<longrightarrow> yd < days_before_month leap (m + 1))"
    unfolding m_def month_of_yday_def
    using month_scan_bounds [of 0 leap yd] assms(1) days_before_month_0 by simp
  then show "0 \<le> m \<and> m \<le> 11"
    and "days_before_month leap m \<le> yd \<and> yd - days_before_month leap m + 1 \<le> days_in_month leap m"
    using assms(2) by (auto simp: days_in_month_def)
qed

subsection \<open>\<open>timegm\<close> and \<open>gmtime\<close> are inverse\<close>

definition valid_tm :: "tm \<Rightarrow> bool" where
  "valid_tm t \<longleftrightarrow>
     0 \<le> tm_sec t \<and> tm_sec t \<le> 59 \<and> 0 \<le> tm_min t \<and> tm_min t \<le> 59 \<and>
     0 \<le> tm_hour t \<and> tm_hour t \<le> 23 \<and> 0 \<le> tm_mon t \<and> tm_mon t \<le> 11 \<and>
     1 \<le> tm_mday t \<and> tm_mday t \<le> days_in_month (is_leap (1900 + tm_year t)) (tm_mon t)"

definition day_of_tm :: "tm \<Rightarrow> int" where
  "day_of_tm t =
     days_before_year (1900 + tm_year t)
       + days_before_month (is_leap (1900 + tm_year t)) (tm_mon t) + tm_mday t - 1"

lemma timegm_valid:
  assumes "valid_tm t"
  shows "timegm t = 86400 * day_of_tm t + (3600 * tm_hour t + 60 * tm_min t + tm_sec t)"
proof -
  have "tm_mon t div 12 = 0" "tm_mon t mod 12 = tm_mon t"
    using assms by (simp_all add: valid_tm_def)
  then show ?thesis by (simp add: timegm_def day_of_tm_def Let_def)
qed

lemma clock_split:
  fixes h m s :: int
  assumes "0 \<le> s" "s \<le> 59" "0 \<le> m" "m \<le> 59" "0 \<le> h" "h \<le> 23"
  shows "(86400 * d + (3600 * h + 60 * m + s)) div 86400 = d"
    and "(86400 * d + (3600 * h + 60 * m + s)) mod 86400 = 3600 * h + 60 * m + s"
  using assms by (simp_all add: div_pos_pos_trivial mod_pos_pos_trivial)

lemma clock_fields:
  fixes h m s :: int
  assumes "0 \<le> s" "s \<le> 59" "0 \<le> m" "m \<le> 59" "0 \<le> h" "h \<le> 23"
  shows "(3600 * h + 60 * m + s) mod 60 = s"
    and "(3600 * h + 60 * m + s) div 60 mod 60 = m"
    and "(3600 * h + 60 * m + s) div 3600 = h"
proof -
  have r: "3600 * h + 60 * m + s = s + (60 * h + m) * 60" by simp
  show "(3600 * h + 60 * m + s) mod 60 = s"
    unfolding r mod_mult_self1 using assms by simp
  have "(3600 * h + 60 * m + s) div 60 = m + h * 60"
    unfolding r using assms by simp
  then show "(3600 * h + 60 * m + s) div 60 mod 60 = m"
    using assms by simp
  have "3600 * h + 60 * m + s = (60 * m + s) + h * 3600" by simp
  then show "(3600 * h + 60 * m + s) div 3600 = h"
    using assms by simp
qed

theorem gmtime_timegm:
  assumes "valid_tm t" and "- (2 ^ 31) \<le> tm_year t" and "tm_year t < 2 ^ 31"
  shows "gmtime (timegm t) = Some (t\<lparr>tm_wday := (day_of_tm t + 4) mod 7\<rparr>)"
proof -
  let ?l = "is_leap (1900 + tm_year t)" and ?y = "1900 + tm_year t"
  have v: "0 \<le> tm_mon t" "tm_mon t \<le> 11" "1 \<le> tm_mday t" "tm_mday t \<le> days_in_month ?l (tm_mon t)"
    using assms(1) by (simp_all add: valid_tm_def)
  note yd = days_before_month_in_year [OF v]
  have year: "year_of_day (day_of_tm t) = ?y"
    using yd days_before_year_Suc [of ?y] unfolding day_of_tm_def
    by (intro year_of_day_unique) linarith+
  have yday: "day_of_tm t - days_before_year ?y = days_before_month ?l (tm_mon t) + tm_mday t - 1"
    by (simp add: day_of_tm_def)
  have clock: "0 \<le> tm_sec t" "tm_sec t \<le> 59" "0 \<le> tm_min t" "tm_min t \<le> 59" "0 \<le> tm_hour t"
    "tm_hour t \<le> 23"
    using assms(1) by (simp_all add: valid_tm_def)
  show ?thesis
    unfolding gmtime_def timegm_valid [OF assms(1)] Let_def clock_split [OF clock]
      clock_fields [OF clock] year yday month_of_yday_unique [OF v]
    using assms(2,3) by simp
qed

theorem timegm_gmtime:
  assumes "gmtime s = Some t"
  shows "valid_tm t" and "timegm t = s"
proof -
  define d where "d = s div 86400"
  define r where "r = s mod 86400"
  define y where "y = year_of_day d"
  define yd where "yd = d - days_before_year y"
  define m where "m = month_of_yday (is_leap y) yd"
  have t: "t = \<lparr>tm_sec = r mod 60, tm_min = r div 60 mod 60, tm_hour = r div 3600,
                 tm_mday = yd - days_before_month (is_leap y) m + 1, tm_mon = m,
                 tm_year = y - 1900, tm_wday = (d + 4) mod 7\<rparr>"
    using assms by (simp add: gmtime_def Let_def d_def r_def y_def yd_def m_def split: if_splits)
  have yd: "0 \<le> yd" "yd < (if is_leap y then 366 else 365)"
    using year_of_day_bounds [of d] days_before_year_Suc [of y]
    by (simp_all add: yd_def y_def split: if_splits)
  note m = month_of_yday_bounds [OF yd, folded m_def]
  have r: "0 \<le> r" "r < 86400" by (simp_all add: r_def)
  have clock: "3600 * (r div 3600) + 60 * (r div 60 mod 60) + r mod 60 = r"
  proof -
    have "r div 3600 = r div 60 div 60"
      using zdiv_zmult2_eq [of 60 r 60] by simp
    then show ?thesis
      using mult_div_mod_eq [of 60 "r div 60"] mult_div_mod_eq [of 60 r] by linarith
  qed
  have hour: "0 \<le> r div 3600" "r div 3600 \<le> 23"
    using r div_bounds [of 3600 r] by (simp_all add: pos_imp_zdiv_nonneg_iff)
  show valid: "valid_tm t"
    using m hour by (auto simp: valid_tm_def t)
  have "s = 86400 * d + r"
    by (simp add: d_def r_def)
  moreover have "day_of_tm t = d"
    by (simp add: day_of_tm_def t yd_def)
  ultimately show "timegm t = s"
    unfolding timegm_valid [OF valid] using clock by (simp add: t)
qed

subsection \<open>Reading back a written time\<close>

text \<open>
  \<open>deadline_text\<close> writes a calendar time in the format \<open>YYYY-MM-DD-hh-mm-ss\<close> the tool asks for.
\<close>

definition digit :: "int \<Rightarrow> char" where
  "digit k = char_of (nat (48 + k))"

definition two_digits :: "int \<Rightarrow> string" where
  "two_digits n = [digit (n div 10), digit (n mod 10)]"

definition deadline_text :: "tm \<Rightarrow> string" where
  "deadline_text t =
     two_digits ((1900 + tm_year t) div 100) @ two_digits ((1900 + tm_year t) mod 100) @ ''-'' @
     two_digits (tm_mon t + 1) @ ''-'' @ two_digits (tm_mday t) @ ''-'' @
     two_digits (tm_hour t) @ ''-'' @ two_digits (tm_min t) @ ''-'' @ two_digits (tm_sec t)"

lemma code_digit: "0 \<le> k \<Longrightarrow> k \<le> 9 \<Longrightarrow> code (digit k) = nat (48 + k)"
  by (simp add: digit_def)

lemma is_digit_digit: "0 \<le> k \<Longrightarrow> k \<le> 9 \<Longrightarrow> is_digit (digit k)"
  by (simp add: is_digit_def code_digit) linarith

lemma digit_not_NUL: "0 \<le> k \<Longrightarrow> k \<le> 9 \<Longrightarrow> digit k \<noteq> NUL"
  using code_digit [of k] by (metis is_digit_def is_digit_digit of_char_NUL not_numeral_le_zero)

lemma char_at_simps [simp]:
  "char_at (c # s) 0 = c"
  "char_at (c # s) (numeral n) = char_at s (numeral n - 1)"
  "char_at [] i = NUL"
  "char_at (c # s) (Suc m) = char_at s m"
  by (simp_all add: char_at_def numeral_eq_Suc)

lemma two_digits_value:
  fixes n :: int
  assumes "0 \<le> n" and "n \<le> 99"
  shows "0 \<le> n div 10" "n div 10 \<le> 9" "0 \<le> n mod 10" "n mod 10 \<le> 9"
    "n div 10 * 10 + n mod 10 = n"
  using assms by (simp_all add: pos_imp_zdiv_nonneg_iff)

lemma mday_le_31:
  assumes "0 \<le> m" "m \<le> 11" "d \<le> days_in_month l m"
  shows "d \<le> 31"
  using assms(1,2) by (cases rule: month_cases) (use assms(3) in \<open>simp_all add: month_simps split: if_splits\<close>)

text \<open>The parser on nineteen characters: fourteen digits and five dashes.\<close>

lemma parse_time_digits:
  fixes y1 y2 y3 y4 m1 m2 d1 d2 h1 h2 n1 n2 s1 s2 :: int
  defines "s \<equiv> [digit y1, digit y2, digit y3, digit y4, CHR ''-'', digit m1, digit m2, CHR ''-'',
    digit d1, digit d2, CHR ''-'', digit h1, digit h2, CHR ''-'', digit n1, digit n2, CHR ''-'',
    digit s1, digit s2]"
  assumes dig: "\<forall>k \<in> {y1, y2, y3, y4, m1, m2, d1, d2, h1, h2, n1, n2, s1, s2}. 0 \<le> k \<and> k \<le> 9"
    and range: "1 \<le> m1 * 10 + m2" "m1 * 10 + m2 \<le> 12" "1 \<le> d1 * 10 + d2" "d1 * 10 + d2 \<le> 31"
      "h1 * 10 + h2 \<le> 23" "n1 * 10 + n2 \<le> 59" "s1 * 10 + s2 \<le> 59"
  shows "parse_time f s tz =
    f \<lparr>tm_sec = s1 * 10 + s2, tm_min = n1 * 10 + n2, tm_hour = h1 * 10 + h2,
       tm_mday = d1 * 10 + d2, tm_mon = m1 * 10 + m2 - 1,
       tm_year = y1 * 1000 + y2 * 100 + y3 * 10 + y4 - 1900, tm_wday = 0\<rparr> tz"
proof -
  have val: "int (code (digit k)) - 48 = k" "is_digit (digit k)" "digit k \<noteq> NUL"
    if "0 \<le> k \<and> k \<le> 9" for k
    using that by (simp_all add: code_digit is_digit_digit digit_not_NUL)
  have dash: "\<not> is_digit CHR ''-''" "\<not> is_digit NUL" by (simp_all add: is_digit_def)
  have len: "string_len s = 19"
    using dig by (simp add: s_def val(3))
  have digits: "list_all (\<lambda>i. is_digit (char_at s i)) [0, 1, 2, 3, 5, 6, 8, 9, 11, 12, 14, 15, 17, 18]"
    using dig by (simp add: s_def val(2))
  have others: "list_all (\<lambda>i. \<not> is_digit (char_at s i)) [4, 7, 10, 13, 16, 19]"
    by (simp add: s_def dash)
  have vals: "digit_at s 17 = s1" "digit_at s 18 = s2" "digit_at s 14 = n1" "digit_at s 15 = n2"
    "digit_at s 11 = h1" "digit_at s 12 = h2" "digit_at s 8 = d1" "digit_at s 9 = d2"
    "digit_at s 5 = m1" "digit_at s 6 = m2" "digit_at s 0 = y1" "digit_at s 1 = y2"
    "digit_at s 2 = y3" "digit_at s 3 = y4"
    using dig by (simp_all add: s_def digit_at_def val(1))
  have low: "0 \<le> h1 * 10 + h2" "0 \<le> n1 * 10 + n2" "0 \<le> s1 * 10 + s2"
    using dig by simp_all
  show ?thesis
    unfolding parse_time_def Let_def len vals using digits others range low by (simp add: zero_tm_def)
qed

lemma parse_time_two_digits:
  assumes "0 \<le> y1" "y1 \<le> 99" "0 \<le> y0" "y0 \<le> 99" "1 \<le> mo" "mo \<le> 12" "1 \<le> da" "da \<le> 31"
    "0 \<le> ho" "ho \<le> 23" "0 \<le> mi" "mi \<le> 59" "0 \<le> se" "se \<le> 59"
  shows "parse_time h (two_digits y1 @ two_digits y0 @ ''-'' @ two_digits mo @ ''-'' @ two_digits da
      @ ''-'' @ two_digits ho @ ''-'' @ two_digits mi @ ''-'' @ two_digits se) tz =
    h \<lparr>tm_sec = se, tm_min = mi, tm_hour = ho, tm_mday = da, tm_mon = mo - 1,
       tm_year = y1 * 100 + y0 - 1900, tm_wday = 0\<rparr> tz"
proof -
  have split: "\<exists>p q. two_digits n = [digit p, digit q] \<and> 0 \<le> p \<and> p \<le> 9 \<and> 0 \<le> q \<and> q \<le> 9
      \<and> n = p * 10 + q" if "0 \<le> n" "n \<le> 99" for n
    using two_digits_value [OF that] unfolding two_digits_def by metis
  obtain a1 a2 where a: "two_digits y1 = [digit a1, digit a2]" "0 \<le> a1" "a1 \<le> 9" "0 \<le> a2"
    "a2 \<le> 9" "y1 = a1 * 10 + a2"
    using split [of y1] assms by auto
  obtain b1 b2 where b: "two_digits y0 = [digit b1, digit b2]" "0 \<le> b1" "b1 \<le> 9" "0 \<le> b2"
    "b2 \<le> 9" "y0 = b1 * 10 + b2"
    using split [of y0] assms by auto
  obtain c1 c2 where c: "two_digits mo = [digit c1, digit c2]" "0 \<le> c1" "c1 \<le> 9" "0 \<le> c2"
    "c2 \<le> 9" "mo = c1 * 10 + c2"
    using split [of mo] assms by auto
  obtain d1 d2 where d: "two_digits da = [digit d1, digit d2]" "0 \<le> d1" "d1 \<le> 9" "0 \<le> d2"
    "d2 \<le> 9" "da = d1 * 10 + d2"
    using split [of da] assms by auto
  obtain e1 e2 where e: "two_digits ho = [digit e1, digit e2]" "0 \<le> e1" "e1 \<le> 9" "0 \<le> e2"
    "e2 \<le> 9" "ho = e1 * 10 + e2"
    using split [of ho] assms by auto
  obtain f1 f2 where f: "two_digits mi = [digit f1, digit f2]" "0 \<le> f1" "f1 \<le> 9" "0 \<le> f2"
    "f2 \<le> 9" "mi = f1 * 10 + f2"
    using split [of mi] assms by auto
  obtain g1 g2 where g: "two_digits se = [digit g1, digit g2]" "0 \<le> g1" "g1 \<le> 9" "0 \<le> g2"
    "g2 \<le> 9" "se = g1 * 10 + g2"
    using split [of se] assms by auto
  show ?thesis
    using parse_time_digits [of a1 a2 b1 b2 c1 c2 d1 d2 e1 e2 f1 f2 g1 g2 h tz] assms a b c d e f g
    by (simp add: algebra_simps)
qed

text \<open>
  The contract of the platform's clock: the instant of a calendar time read off \<open>gmtime\<close> is the
  one it was read at, less the offset of the zone; the weekday, which the caller leaves at 0,
  plays no role. \<open>known\<close>: the instants the clock can convert.
\<close>

locale calendar_clock =
  fixes to_time :: "tm \<Rightarrow> int \<Rightarrow> int"
    and known :: "int \<Rightarrow> bool"
  assumes to_time_gmtime: "gmtime s = Some t \<Longrightarrow> known s \<Longrightarrow> to_time t tz = s - tz * 3600"
    and to_time_weekday: "to_time (t\<lparr>tm_wday := w\<rparr>) tz = to_time t tz"
begin

lemma parse_time_deadline_text:
  assumes "gmtime (s + tz * 3600) = Some t" and "known (s + tz * 3600)"
    and "0 \<le> 1900 + tm_year t" and "1900 + tm_year t \<le> 9999"
  shows "parse_time to_time (deadline_text t) tz = s"
proof -
  have "valid_tm t" by (rule timegm_gmtime(1) [OF assms(1)])
  moreover have "(1900 + tm_year t) div 100 * 100 + (1900 + tm_year t) mod 100 = 1900 + tm_year t"
    by (rule div_mult_mod_eq)
  moreover have "0 \<le> (1900 + tm_year t) div 100" "(1900 + tm_year t) div 100 \<le> 99"
    using assms(3,4) div_bounds [of 100 "1900 + tm_year t"] by linarith+
  ultimately have "parse_time to_time (deadline_text t) tz = to_time (t\<lparr>tm_wday := 0\<rparr>) tz"
    unfolding deadline_text_def
    by (subst parse_time_two_digits; cases t) (auto simp: valid_tm_def intro: mday_le_31)
  also have "\<dots> = s"
    using to_time_gmtime [OF assms(1,2)] by (simp add: to_time_weekday)
  finally show ?thesis .
qed

end

lemma timegm_weekday [simp]: "timegm (t\<lparr>tm_wday := w\<rparr>) = timegm t"
  by (simp add: timegm_def)

interpretation linux_clock: calendar_clock linux_calender_time_to_time "\<lambda>s. s \<noteq> -1"
  by unfold_locales (auto simp: linux_calender_time_to_time_def dest: timegm_gmtime(2))

interpretation win32_clock: calendar_clock win32_calender_time_to_time "\<lambda>s. 0 \<le> s \<and> s < 32535216000"
  by unfold_locales (auto simp: win32_calender_time_to_time_def mkgmtime_def dest: timegm_gmtime(2))

lemma gmtime_four_digit_year:
  assumes "0 \<le> s" and "s < 253402300800"
  obtains t where "gmtime s = Some t" and "1970 \<le> 1900 + tm_year t" and "1900 + tm_year t \<le> 9999"
proof -
  let ?d = "s div 86400"
  have d: "0 \<le> ?d" "?d < 2932897" using assms div_bounds [of 86400 s] by linarith+
  have fixed: "days_before_year 1970 = 0" "days_before_year 10000 = 2932897"
    by (simp_all add: days_before_year_def)
  have "\<not> year_of_day ?d + 1 \<le> 1970" "\<not> 10000 \<le> year_of_day ?d"
    using days_before_year_mono [of "year_of_day ?d + 1" 1970] d fixed
      days_before_year_mono [of 10000 "year_of_day ?d"] year_of_day_bounds [of ?d] by linarith+
  then show thesis
    by (intro that [of "the (gmtime s)"]) (auto simp: gmtime_def Let_def)
qed

text \<open>C2: A deadline written as \<open>YYYY-MM-DD-hh-mm-ss\<close> in the tool's time zone (UTC+8) is parsed back to
  the very instant it denotes: \<open>parse_time\<close> inverts \<open>calendar_time\<close> for every instant from the
  epoch, read in UTC+8, to the end of the year 9999, on Windows of the year 3000.
\<close>

theorem parse_time_calendar_time:
  assumes "0 \<le> time + 28800" and "time + 28800 < 253402300800"
  shows "parse_time linux_calender_time_to_time (deadline_text (calendar_time time)) 8 = time \<and>
    (time + 28800 < 32535216000 \<longrightarrow>
      parse_time win32_calender_time_to_time (deadline_text (calendar_time time)) 8 = time)"
proof -
  obtain t where t: "gmtime (time + 28800) = Some t" "1970 \<le> 1900 + tm_year t" "1900 + tm_year t \<le> 9999"
    by (rule gmtime_four_digit_year [OF assms])
  then show ?thesis
    using linux_clock.parse_time_deadline_text [of time 8 t] win32_clock.parse_time_deadline_text [of time 8 t] assms(1)
    by (simp add: calendar_time_def)
qed

theorem parse_time_calendar_time_witness:
  "deadline_text (calendar_time 1711036799) = ''2024-03-21-23-59-59'' \<and>
   parse_time linux_calender_time_to_time ''2024-03-21-23-59-59'' 8 = 1711036799 \<and>
   parse_time win32_calender_time_to_time ''2024-03-21-23-59-59'' 8 = 1711036799"
proof -
  have "deadline_text (calendar_time 1711036799) = ''2024-03-21-23-59-59''" by code_simp
  then show ?thesis using parse_time_calendar_time [of 1711036799] by simp
qed

end
