(* ===== verification/Deadline.thy ===== *)
theory Deadline imports Calendar begin

text \<open>
  Late submission (\<open>calculate_cutoff\<close> and \<open>calculate_late_submission_day\<close> of \<open>code/hand.c\<close>).
  \<open>time_t\<close> values are \<open>int\<close>; arithmetic the code does in the C type \<open>int\<close> is checked by
  \<open>c_int\<close>, so that a signed overflow, undefined in C, is \<open>None\<close>, as is a failed assertion.

  The lemmas read \<open>weekend_day_before\<close> as a count of weekend days, show that the loop of
  \<open>calculate_cutoff\<close> ends, and relate the two functions: a submission up to the cutoff is
  never charged more days than the late-submission period has.
\<close>

definition penalty_weekday :: "int \<Rightarrow> int" where
  "penalty_weekday time =
     (let t = calendar_time time
      in if tm_hour t < 12 then tm_wday t else (tm_wday t + 1) mod 7)"

definition weekend_day_before :: "int \<Rightarrow> int" where
  "weekend_day_before weekday = (weekday + 6) div 7 + weekday div 7"

lemma weekend_day_before_Suc:
  "weekend_day_before (w + 1) =
     weekend_day_before w + (if w mod 7 = 0 \<or> w mod 7 = 6 then 1 else 0)"
proof -
  have sat: "(w + 1 + 6) div 7 = (w + 6) div 7 + (if w mod 7 = 0 then 1 else 0)"
    by (rule div_succ_mod [where k = 1]) simp_all
  have "(w + 1) mod 7 = 0 \<longleftrightarrow> w mod 7 = 6" by presburger
  then have sun: "(w + 1) div 7 = w div 7 + (if w mod 7 = 6 then 1 else 0)"
    using div_succ [of 7 w] by (simp only: zero_less_numeral True_implies_equals)
  show ?thesis
    unfolding weekend_day_before_def sat sun by simp
qed

text \<open>The number of weekend days (Sunday 0 and Saturday 6) among \<open>n\<close> days from weekday \<open>w\<close> on.\<close>

fun weekend_days :: "int \<Rightarrow> nat \<Rightarrow> nat" where
  "weekend_days w 0 = 0"
| "weekend_days w (Suc n) =
     (if w mod 7 = 0 \<or> w mod 7 = 6 then 1 else 0) + weekend_days (w + 1) n"

lemma weekend_day_before_diff:
  "weekend_day_before (w + int n) - weekend_day_before w = int (weekend_days w n)"
proof (induction n arbitrary: w)
  case (Suc n)
  have "w + int (Suc n) = w + 1 + int n" by simp
  then have "weekend_day_before (w + int (Suc n)) - weekend_day_before w
      = int (weekend_days (w + 1) n) + (weekend_day_before (w + 1) - weekend_day_before w)"
    using Suc.IH [of "w + 1"] by (simp only: algebra_simps)
  then show ?case
    by (simp add: weekend_day_before_Suc)
qed simp

lemma weekend_days_le: "weekend_days w n \<le> n"
  by (induction n arbitrary: w) (auto intro: le_SucI)

lemma weekend_days_add: "weekend_days w (m + n) = weekend_days w m + weekend_days (w + int m) n"
  by (induction m arbitrary: w) (auto simp: ac_simps)

lemma weekend_days_mod: "weekend_days (w mod 7) n = weekend_days w n"
proof (induction n arbitrary: w)
  case (Suc n)
  have "weekend_days (w mod 7 + 1) n = weekend_days ((w + 1) mod 7) n"
    by (metis Suc.IH mod_add_left_eq)
  then show ?case using Suc.IH [of "w + 1"] by simp
qed simp

subsection \<open>The cutoff\<close>

function cutoff_loop :: "int \<Rightarrow> int \<Rightarrow> (int \<times> int) option" where
  "cutoff_loop cutoff day_left =
     (if day_left > 0
      then let weekday = penalty_weekday cutoff;
               weekend_day_before_old_cutoff = weekend_day_before weekday;
               weekend_day_before_new_cutoff = weekend_day_before (weekday + day_left)
           in case c_int (weekday + day_left + 6) of
                None \<Rightarrow> None
              | Some _ \<Rightarrow>
                  cutoff_loop (cutoff + day_left * 86400)
                    ((weekend_day_before_new_cutoff - weekend_day_before_old_cutoff) div 2)
      else Some (cutoff, day_left))"
  by pat_completeness auto
termination
proof (relation "measure (\<lambda>(cutoff, day_left). nat day_left)", goal_cases)
  case (2 cutoff day_left w old new)
  then show ?case
    using weekend_day_before_diff [of w "nat day_left"] weekend_days_le [of w "nat day_left"] by simp
qed simp

declare cutoff_loop.simps [simp del]

definition calculate_cutoff :: "int \<Rightarrow> int \<Rightarrow> bool \<Rightarrow> int option" where
  "calculate_cutoff deadline cutoff_days is_weekends_one_day =
     (case (if is_weekends_one_day then cutoff_loop deadline cutoff_days
            else Some (deadline, cutoff_days)) of
        None \<Rightarrow> None
      | Some (cutoff, day_left) \<Rightarrow>
          (case c_int (day_left * 86400) of None \<Rightarrow> None | Some rest \<Rightarrow> Some (cutoff + rest)))"

definition calculate_late_submission_day :: "int \<Rightarrow> int \<Rightarrow> bool \<Rightarrow> int option" where
  "calculate_late_submission_day deadline submission_time is_weekends_one_day =
     (if submission_time > deadline
      then let delay = to_int32 ((submission_time - deadline + 86399) div 86400)
           in if \<not> delay > 0 then None
              else if is_weekends_one_day
              then let first_penalty_weekday = penalty_weekday deadline;
                       weekend_day_before_deadline = weekend_day_before first_penalty_weekday;
                       weekend_day_before_submission = weekend_day_before (first_penalty_weekday + delay)
                   in case c_int (first_penalty_weekday + delay + 6) of
                        None \<Rightarrow> None
                      | Some _ \<Rightarrow>
                          Some (delay - (weekend_day_before_submission - weekend_day_before_deadline) div 2)
              else Some delay
      else Some 0)"

text \<open>The line \<open>collect_homework\<close> writes for a student: the share of the grade that is left.\<close>

definition penalty_percent :: "int \<Rightarrow> int \<Rightarrow> int" where
  "penalty_percent penalty_per_day delay = max (100 - penalty_per_day * delay) 0"

subsection \<open>The weekday of a shifted time\<close>

lemma gmtime_hour_wday:
  "gmtime s = Some t \<Longrightarrow> tm_hour t = s mod 86400 div 3600 \<and> tm_wday t = (s div 86400 + 4) mod 7"
  by (auto simp: gmtime_def Let_def split: if_splits)

text \<open>The instants whose year, in UTC+8, fits a C \<open>int\<close>: the ones \<open>gmtime\<close> can represent.\<close>

definition representable :: "int \<Rightarrow> bool" where
  "representable time \<longleftrightarrow> gmtime (time + 28800) \<noteq> None"

lemma representable_calendar_time:
  assumes "representable t"
  shows "tm_hour (calendar_time t) = (t + 28800) mod 86400 div 3600"
    and "tm_wday (calendar_time t) = ((t + 28800) div 86400 + 4) mod 7"
proof -
  obtain a where a: "gmtime (t + 28800) = Some a"
    using assms by (auto simp: representable_def)
  then have "calendar_time t = a" by (simp add: calendar_time_def)
  then show "tm_hour (calendar_time t) = (t + 28800) mod 86400 div 3600"
    and "tm_wday (calendar_time t) = ((t + 28800) div 86400 + 4) mod 7"
    using gmtime_hour_wday [OF a] by simp_all
qed

lemma mod7_range: "0 \<le> x mod 7 \<and> x mod 7 \<le> (6 :: int)"
  using pos_mod_bound [of 7 x] pos_mod_sign [of 7 x] by linarith

lemma penalty_weekday_range: "representable t \<Longrightarrow> 0 \<le> penalty_weekday t \<and> penalty_weekday t \<le> 6"
  unfolding penalty_weekday_def Let_def representable_calendar_time(2)
  using mod7_range by (simp del: pos_mod_sign pos_mod_bound)

lemma penalty_weekday_shift:
  assumes "representable t" and "representable (t + d * 86400)"
  shows "penalty_weekday (t + d * 86400) = (penalty_weekday t + d) mod 7"
proof -
  have comm: "t + d * 86400 + 28800 = t + 28800 + d * 86400" by simp
  define w where "w = (t + 28800) div 86400 + 4"
  have "tm_hour (calendar_time (t + d * 86400)) = tm_hour (calendar_time t)"
    unfolding representable_calendar_time [OF assms(1)] representable_calendar_time [OF assms(2)]
      comm mod_mult_self1 ..
  moreover have "tm_wday (calendar_time t) = w mod 7"
    by (simp only: representable_calendar_time [OF assms(1)] w_def)
  moreover have "tm_wday (calendar_time (t + d * 86400)) = (w + d) mod 7"
    unfolding representable_calendar_time [OF assms(2)] comm w_def
    by (subst div_mult_self1) (simp, simp only: ac_simps)
  moreover have "((w + d) mod 7 + 1) mod 7 = ((w mod 7 + 1) mod 7 + d) mod 7"
    by (simp only: mod_add_left_eq add.assoc add.commute [of 1 d])
  moreover have "(w + d) mod 7 = (w mod 7 + d) mod 7"
    by (simp only: mod_add_left_eq)
  ultimately show ?thesis
    unfolding penalty_weekday_def Let_def by metis
qed

subsection \<open>The days charged and the days granted\<close>

text \<open>
  \<open>charged_days w d\<close> is the price of \<open>d\<close> started days from weekday \<open>w\<close> on: every two weekend
  days count as one.
\<close>

definition charged_days :: "int \<Rightarrow> nat \<Rightarrow> nat" where
  "charged_days w d = d - weekend_days w d div 2"

lemma charged_days_Suc: "charged_days w d \<le> charged_days w (Suc d)"
proof -
  have "weekend_days w (Suc d) \<le> Suc (weekend_days w d)"
    using weekend_days_add [of w d 1] by simp
  then show ?thesis
    using weekend_days_le [of w d] by (simp add: charged_days_def)
qed

lemma charged_days_mono: "d \<le> d' \<Longrightarrow> charged_days w d \<le> charged_days w d'"
  by (rule lift_Suc_mono_le [of "charged_days w"]) (simp_all add: charged_days_Suc)

definition started_days :: "int \<Rightarrow> int \<Rightarrow> nat" where
  "started_days deadline t = nat ((t - deadline + 86399) div 86400)"

lemma started_days_le_iff: "t \<le> deadline + int d * 86400 \<longleftrightarrow> started_days deadline t \<le> d"
proof -
  have "(t - deadline + 86399) div 86400 \<le> int d \<longleftrightarrow> t - deadline \<le> int d * 86400"
    using div_bounds [of 86400 "t - deadline + 86399"] by linarith
  moreover have "t - deadline \<le> int d * 86400 \<longleftrightarrow> t \<le> deadline + int d * 86400"
    by linarith
  ultimately show ?thesis
    unfolding started_days_def nat_le_iff by (simp only:)
qed

lemma started_days_pos: "t > deadline \<Longrightarrow> 0 < started_days deadline t"
  using started_days_le_iff [of t deadline 0] by simp

lemma started_days_mono: "t \<le> t' \<Longrightarrow> started_days deadline t \<le> started_days deadline t'"
  unfolding started_days_def by (intro nat_mono zdiv_mono1) simp_all

lemma late_delay:
  assumes "t > deadline" and "started_days deadline t < 2 ^ 30"
  shows "to_int32 ((t - deadline + 86399) div 86400) = int (started_days deadline t)"
proof -
  have "0 < (t - deadline + 86399) div 86400"
    using started_days_pos [OF assms(1)] by (simp add: started_days_def)
  then show ?thesis
    using assms(2) by (simp add: started_days_def to_int32_id)
qed

lemma late_submission_day_weekends:
  assumes "representable deadline" and "t > deadline" and "started_days deadline t < 2 ^ 30"
  shows "calculate_late_submission_day deadline t True =
    Some (int (charged_days (penalty_weekday deadline) (started_days deadline t)))"
proof -
  let ?w = "penalty_weekday deadline" and ?d = "started_days deadline t"
  have "c_int (?w + int ?d + 6) = Some (?w + int ?d + 6)"
    using assms(3) penalty_weekday_range [OF assms(1)] by (simp add: c_int_def)
  moreover have "int ?d - int (weekend_days ?w ?d) div 2 = int (charged_days ?w ?d)"
    using weekend_days_le [of ?w ?d] by (simp add: charged_days_def of_nat_diff zdiv_int)
  ultimately show ?thesis
    using assms(2) started_days_pos [OF assms(2)]
    by (simp add: calculate_late_submission_day_def Let_def late_delay [OF assms(2,3)]
        weekend_day_before_diff)
qed

lemma cutoff_loop_days:
  assumes "n < 2 ^ 30" and "\<And>k. k \<le> 2 * n \<Longrightarrow> representable (t + int k * 86400)"
  shows "\<exists>D. cutoff_loop t (int n) = Some (t + int D * 86400, 0) \<and> n \<le> D \<and> D \<le> 2 * n
    \<and> D \<le> n + weekend_days (penalty_weekday t) D div 2"
  using assms
proof (induction n arbitrary: t rule: less_induct)
  case (less n)
  show ?case
  proof (cases "n = 0")
    case True
    then show ?thesis by (intro exI [of _ 0]) (simp add: cutoff_loop.simps)
  next
    case False
    define w where "w = penalty_weekday t"
    define m where "m = weekend_days w n div 2"
    have rep: "representable t" "representable (t + int n * 86400)"
      using less.prems(2) [of 0] less.prems(2) [of n] by simp_all
    have m: "m < n" "2 * m \<le> n"
      using False weekend_days_le [of w n] by (simp_all add: m_def)
    have "representable (t + int n * 86400 + int k * 86400)" if "k \<le> 2 * m" for k
      using less.prems(2) [of "n + k"] that m by (simp add: algebra_simps)
    then obtain D where D: "cutoff_loop (t + int n * 86400) (int m) = Some (t + int n * 86400 + int D * 86400, 0)"
      "m \<le> D" "D \<le> 2 * m" "D \<le> m + weekend_days (penalty_weekday (t + int n * 86400)) D div 2"
      using less.IH [OF m(1), of "t + int n * 86400"] less.prems(1) m(1) by auto
    have "c_int (w + int n + 6) = Some (w + int n + 6)"
      using less.prems(1) penalty_weekday_range [OF rep(1)] by (simp add: c_int_def w_def)
    then have "cutoff_loop t (int n) = cutoff_loop (t + int n * 86400) (int m)"
      using False
      by (subst cutoff_loop.simps) (simp add: Let_def weekend_day_before_diff m_def zdiv_int flip: w_def)
    moreover have "weekend_days (penalty_weekday (t + int n * 86400)) D = weekend_days (w + int n) D"
      by (simp only: penalty_weekday_shift [OF rep] weekend_days_mod w_def)
    ultimately show ?thesis
      using D m weekend_days_add [of w n D]
      by (intro exI [of _ "n + D"]) (simp add: algebra_simps m_def flip: w_def)
  qed
qed

lemma representable_4_digit: "0 \<le> t + 28800 \<Longrightarrow> t + 28800 < 253402300800 \<Longrightarrow> representable t"
  by (metis gmtime_four_digit_year option.distinct(1) representable_def)

lemma late_submission_day_in_time: "t \<le> deadline \<Longrightarrow> calculate_late_submission_day deadline t w = Some 0"
  by (simp add: calculate_late_submission_day_def)

lemma charged_days_0 [simp]: "charged_days w 0 = 0"
  by (simp add: charged_days_def)

lemma started_days_0: "t \<le> deadline \<Longrightarrow> started_days deadline t = 0"
  using started_days_le_iff [of t deadline 0] by simp

text \<open>The days charged, in time or late, in one equation.\<close>

lemma late_submission_day_charged:
  assumes "representable deadline" and "started_days deadline t < 2 ^ 30"
  shows "calculate_late_submission_day deadline t True =
    Some (int (charged_days (penalty_weekday deadline) (started_days deadline t)))"
  using assms late_submission_day_weekends [of deadline t]
  by (cases "t > deadline") (simp_all add: late_submission_day_in_time started_days_0)

text \<open>The instants of the years 1970 to 9999 (UTC+8), on which the properties are stated.\<close>

definition four_digit_time :: "int \<Rightarrow> bool" where
  "four_digit_time t \<longleftrightarrow> 0 \<le> t + 28800 \<and> t + 28800 < 253402300800"

lemma four_digit_representable: "four_digit_time t \<Longrightarrow> representable t"
  by (simp add: four_digit_time_def representable_4_digit)

lemma started_days_bound:
  assumes "four_digit_time deadline" and "four_digit_time t"
  shows "started_days deadline t < 2 ^ 30"
proof -
  have "t \<le> deadline + int (2 ^ 30 - 1) * 86400"
    using assms by (simp add: four_digit_time_def)
  then show ?thesis using started_days_le_iff [of t deadline "2 ^ 30 - 1"] by simp
qed

lemma calculate_cutoff_days:
  assumes "four_digit_time deadline" and "four_digit_time (deadline + 2 * int n * 86400)"
  obtains D where "calculate_cutoff deadline (int n) True = Some (deadline + int D * 86400)"
    and "n \<le> D" and "D \<le> 2 * n" and "charged_days (penalty_weekday deadline) D \<le> n"
proof -
  have "n < 2 ^ 30"
    using assms by (simp add: four_digit_time_def)
  moreover have "representable (deadline + int k * 86400)" if "k \<le> 2 * n" for k
    using assms that by (intro four_digit_representable) (simp add: four_digit_time_def)
  ultimately obtain D where D: "cutoff_loop deadline (int n) = Some (deadline + int D * 86400, 0)"
    "n \<le> D" "D \<le> 2 * n" "D \<le> n + weekend_days (penalty_weekday deadline) D div 2"
    using cutoff_loop_days by blast
  then have "calculate_cutoff deadline (int n) True = Some (deadline + int D * 86400)"
    by (simp add: calculate_cutoff_def c_int_def)
  then show ?thesis using D that by (simp add: charged_days_def)
qed

subsection \<open>Properties\<close>

text \<open>C1: A submission that makes the cutoff is never charged more than the late-submission period
  has: with weekends counted as one day, the loop of \<open>calculate_cutoff\<close> ends without overflow on
  every deadline of the years 1970 to 9999, its cutoff is a whole number of days (between \<open>n\<close> and
  \<open>2 n\<close>) after the deadline, and every submission up to it is charged between 0 and \<open>n\<close> days.\<close>

theorem late_within_cutoff:
  assumes "four_digit_time deadline" and "four_digit_time (deadline + 2 * int n * 86400)"
  shows "\<exists>D. calculate_cutoff deadline (int n) True = Some (deadline + int D * 86400)
    \<and> n \<le> D \<and> D \<le> 2 * n
    \<and> (\<forall>t \<le> deadline + int D * 86400. \<exists>late.
          calculate_late_submission_day deadline t True = Some late \<and> 0 \<le> late \<and> late \<le> int n)"
proof -
  obtain D where D: "calculate_cutoff deadline (int n) True = Some (deadline + int D * 86400)"
    "n \<le> D" "D \<le> 2 * n" "charged_days (penalty_weekday deadline) D \<le> n"
    using calculate_cutoff_days [OF assms] .
  have bound: "started_days deadline (deadline + int D * 86400) < 2 ^ 30"
    using assms D(3) by (intro started_days_bound) (auto simp: four_digit_time_def)
  have "charged_days (penalty_weekday deadline) (started_days deadline t) \<le> n"
    and "started_days deadline t < 2 ^ 30" if "t \<le> deadline + int D * 86400" for t
    using that D(4) started_days_le_iff [of t deadline D] started_days_mono [OF that, of deadline] bound
      charged_days_mono [of "started_days deadline t" D "penalty_weekday deadline"] by simp_all
  then show ?thesis
    using D late_submission_day_charged [OF four_digit_representable [OF assms(1)]] by fastforce
qed

text \<open>The example of the comment: a deadline on a Friday at 23:59:59.\<close>

theorem late_within_cutoff_witness:
  "calculate_cutoff 1711123199 3 True = Some (1711123199 + 4 * 86400)
    \<and> (\<exists>late. calculate_late_submission_day 1711123199 1711382399 True = Some late \<and> 0 \<le> late \<and> late \<le> 3)"
proof -
  have cutoff: "calculate_cutoff 1711123199 3 True = Some (1711123199 + 4 * 86400)"
    by code_simp
  obtain D where "calculate_cutoff 1711123199 3 True = Some (1711123199 + int D * 86400)"
    and "\<forall>t \<le> 1711123199 + int D * 86400. \<exists>late.
          calculate_late_submission_day 1711123199 t True = Some late \<and> 0 \<le> late \<and> late \<le> 3"
    using late_within_cutoff [of 1711123199 3] by (auto simp: four_digit_time_def)
  then show ?thesis using cutoff by simp
qed

text \<open>C3: What \<open>calculate_late_submission_day\<close> charges: the started days of 24 hours since the
  deadline, less half (rounded down) of those that fall on a weekend, where the day starting
  \<open>k\<close> days after the deadline counts for the weekday that takes up most of it.\<close>

theorem late_days_count:
  assumes "four_digit_time deadline" and "four_digit_time t"
  shows "calculate_late_submission_day deadline t True =
    Some (let d = started_days deadline t
          in int (d - card {k. k < d \<and> penalty_weekday (deadline + int k * 86400) \<in> {0, 6}} div 2))"
proof -
  have "card {k. k < d \<and> penalty_weekday (deadline + int k * 86400) \<in> {0, 6}}
      = weekend_days (penalty_weekday deadline) d" if "d \<le> started_days deadline t" for d
    using that
  proof (induction d)
    case (Suc d)
    let ?S = "\<lambda>d. {k. k < d \<and> penalty_weekday (deadline + int k * 86400) \<in> {0, 6}}"
    have "deadline + int d * 86400 \<le> t"
      using Suc.prems started_days_le_iff [of t deadline d] by linarith
    then have "representable (deadline + int d * 86400)"
      using assms by (intro four_digit_representable) (simp add: four_digit_time_def)
    then have shift: "penalty_weekday (deadline + int d * 86400) = (penalty_weekday deadline + int d) mod 7"
      by (rule penalty_weekday_shift [OF four_digit_representable [OF assms(1)]])
    have "?S (Suc d) = ?S d \<union> (if penalty_weekday (deadline + int d * 86400) \<in> {0, 6} then {d} else {})"
      by (auto simp: less_Suc_eq)
    then have "card (?S (Suc d)) = card (?S d)
        + (if penalty_weekday (deadline + int d * 86400) \<in> {0, 6} then 1 else 0)"
      by simp
    then show ?case
      using Suc weekend_days_add [of "penalty_weekday deadline" d 1] by (simp add: shift)
  qed simp
  then show ?thesis
    using late_submission_day_charged [OF four_digit_representable [OF assms(1)]
        started_days_bound [OF assms]]
    by (simp add: charged_days_def Let_def)
qed

theorem late_days_count_witness:
  "calculate_late_submission_day 1711123199 1711296000 True =
    Some (int (3 - card {k. k < 3 \<and> penalty_weekday (1711123199 + int k * 86400) \<in> {0, 6}} div 2))"
  using late_days_count [of 1711123199 1711296000] by (simp add: four_digit_time_def started_days_def)

text \<open>Submitting later is never cheaper, weekends counted as one day or not.\<close>

lemma late_days_mono:
  assumes "four_digit_time deadline" and "t \<le> t'" and "four_digit_time t'"
  shows "\<exists>late late'. calculate_late_submission_day deadline t w = Some late
    \<and> calculate_late_submission_day deadline t' w = Some late' \<and> late \<le> late'"
proof -
  have bound: "started_days deadline t' < 2 ^ 30"
    using assms by (intro started_days_bound)
  have mono: "started_days deadline t \<le> started_days deadline t'"
    using assms(2) by (rule started_days_mono)
  have plain: "calculate_late_submission_day deadline s False = Some (int (started_days deadline s))"
    if "started_days deadline s < 2 ^ 30" for s
    using that late_delay [of deadline s] started_days_pos [of deadline s] started_days_0 [of s deadline]
    by (auto simp: calculate_late_submission_day_def Let_def)
  show ?thesis
    using bound mono plain [of t] plain [of t']
      late_submission_day_charged [OF four_digit_representable [OF assms(1)], of t]
      late_submission_day_charged [OF four_digit_representable [OF assms(1)], of t']
      charged_days_mono [OF mono]
    by (cases w) simp_all
qed

text \<open>Without the weekend rule the cutoff is exact: a submission is charged at most \<open>n\<close> days if
  and only if it arrives by the cutoff. A period of more than 24855 days overflows the C \<open>int\<close> the
  cutoff is computed in.\<close>

lemma cutoff_exact_without_weekends:
  "calculate_cutoff deadline n False = (if \<bar>n\<bar> \<le> 24855 then Some (deadline + n * 86400) else None)
    \<and> (four_digit_time deadline \<and> four_digit_time t \<and> 0 \<le> n \<longrightarrow>
        (t \<le> deadline + n * 86400 \<longleftrightarrow>
          (\<exists>late \<le> n. calculate_late_submission_day deadline t False = Some late)))"
proof (intro conjI impI)
  show "calculate_cutoff deadline n False = (if \<bar>n\<bar> \<le> 24855 then Some (deadline + n * 86400) else None)"
    by (auto simp: calculate_cutoff_def c_int_def)
next
  assume t: "four_digit_time deadline \<and> four_digit_time t \<and> 0 \<le> n"
  have bound: "started_days deadline t < 2 ^ 30"
    using t started_days_bound by simp
  have "calculate_late_submission_day deadline t False = Some (int (started_days deadline t))"
    using bound late_delay [of deadline t] started_days_pos [of deadline t] started_days_0 [of t deadline]
    by (auto simp: calculate_late_submission_day_def Let_def)
  then show "t \<le> deadline + n * 86400 \<longleftrightarrow>
      (\<exists>late \<le> n. calculate_late_submission_day deadline t False = Some late)"
    using started_days_le_iff [of t deadline "nat n"] t by auto
qed

text \<open>With the weekend rule the cutoff is not the last instant that is charged at most \<open>n\<close>
  days: with one late day from Friday 23:59:59 on, the cutoff is Saturday 23:59:59, although a
  submission of Sunday 23:59:59 would be charged one day too.\<close>

lemma cutoff_not_latest_with_weekends:
  "calculate_cutoff 1711123199 1 True = Some (1711123199 + 86400)
    \<and> calculate_late_submission_day 1711123199 (1711123199 + 2 * 86400) True = Some 1"
  by code_simp

end
