(* ===== verification/Memory.thy ===== *)
theory Memory imports HandPrelude begin

text \<open>
  The heap of the program: numbered blocks of cells, a failing allocator (\<open>allocate_memory\<close> of
  \<open>code/hand_common.h\<close> ends the program when \<open>malloc\<close> returns NULL), and the byte loops
  \<open>copy_memory\<close> and \<open>clear_memory\<close>. A pointer is a block and an offset; reading or writing
  outside a live block, or freeing what \<open>malloc\<close> did not return, is \<open>Undefined\<close>.

  A cell of a byte array holds a byte; a cell of a pointer array holds a pointer (and stands for
  its eight bytes). The lemmas give each loop as one update of a block.
\<close>

datatype ptr = Null | Ptr nat nat

datatype cell = Undef | Byte char | Ref ptr

record heap =
  next_block :: nat
  blocks :: "nat \<Rightarrow> cell list option"
  grants :: "nat \<Rightarrow> nat \<Rightarrow> bool"

definition set_block :: "nat \<Rightarrow> cell list \<Rightarrow> heap \<Rightarrow> heap" where
  "set_block b cs h = h\<lparr>blocks := (blocks h)(b \<mapsto> cs)\<rparr>"

definition drop_block :: "nat \<Rightarrow> heap \<Rightarrow> heap" where
  "drop_block b h = h\<lparr>blocks := (blocks h)(b := None)\<rparr>"

lemma blocks_set_block [simp]: "blocks (set_block b cs h) c = (if c = b then Some cs else blocks h c)"
  by (simp add: set_block_def)

lemma blocks_drop_block [simp]: "blocks (drop_block b h) c = (if c = b then None else blocks h c)"
  by (simp add: drop_block_def)

lemma set_block_rest [simp]:
  "next_block (set_block b cs h) = next_block h" "grants (set_block b cs h) = grants h"
  "next_block (drop_block b h) = next_block h" "grants (drop_block b h) = grants h"
  by (simp_all add: set_block_def drop_block_def)

lemma set_block_twice [simp]: "set_block b cs (set_block b ds h) = set_block b cs h"
  by (simp add: set_block_def)

lemma set_block_same: "blocks h b = Some cs \<Longrightarrow> set_block b cs h = h"
  by (simp add: set_block_def fun_upd_idem)

text \<open>\<open>Exit\<close> is the \<open>exit\<close> of \<open>allocate_memory\<close>.\<close>

datatype 'a mres = Ok 'a heap | Exit | Undefined

type_synonym 'a mem = "heap \<Rightarrow> 'a mres"

definition ret :: "'a \<Rightarrow> 'a mem" where
  "ret x h = Ok x h"

definition bnd :: "'a mem \<Rightarrow> ('a \<Rightarrow> 'b mem) \<Rightarrow> 'b mem" where
  "bnd m f h = (case m h of Ok x h' \<Rightarrow> f x h' | Exit \<Rightarrow> Exit | Undefined \<Rightarrow> Undefined)"

lemma ret_apply [simp]: "ret x h = Ok x h"
  by (simp add: ret_def)

lemma bnd_Ok [simp]: "m h = Ok x h' \<Longrightarrow> bnd m f h = f x h'"
  by (simp add: bnd_def)

lemma bnd_Exit [simp]: "m h = Exit \<Longrightarrow> bnd m f h = Exit"
  by (simp add: bnd_def)

lemma bnd_eq_Ok: "bnd m f h = Ok y h'' \<longleftrightarrow> (\<exists>x h'. m h = Ok x h' \<and> f x h' = Ok y h'')"
  by (auto simp: bnd_def split: mres.split)

lemma bnd_assoc: "bnd (bnd m f) g = bnd m (\<lambda>x. bnd (f x) g)"
  by (auto simp: bnd_def fun_eq_iff split: mres.split)

fun plus_ptr :: "ptr \<Rightarrow> nat \<Rightarrow> ptr" where
  "plus_ptr Null n = Null"
| "plus_ptr (Ptr b i) n = Ptr b (i + n)"

lemma plus_ptr_0 [simp]: "plus_ptr p 0 = p"
  by (cases p) simp_all

lemma plus_ptr_plus [simp]: "plus_ptr (plus_ptr p m) n = plus_ptr p (m + n)"
  by (cases p) simp_all

text \<open>\<open>p - q\<close> is defined only within one block.\<close>

fun diff_ptr :: "ptr \<Rightarrow> ptr \<Rightarrow> nat mem" where
  "diff_ptr (Ptr b i) (Ptr c j) h = (if b = c \<and> j \<le> i then Ok (i - j) h else Undefined)"
| "diff_ptr _ _ h = Undefined"

fun load :: "ptr \<Rightarrow> cell mem" where
  "load Null h = Undefined"
| "load (Ptr b i) h =
     (case blocks h b of
        Some cs \<Rightarrow> if i < length cs then Ok (cs ! i) h else Undefined
      | None \<Rightarrow> Undefined)"

fun store :: "ptr \<Rightarrow> cell \<Rightarrow> unit mem" where
  "store Null c h = Undefined"
| "store (Ptr b i) c h =
     (case blocks h b of
        Some cs \<Rightarrow> if i < length cs then Ok () (set_block b (cs[i := c]) h) else Undefined
      | None \<Rightarrow> Undefined)"

definition load_byte :: "ptr \<Rightarrow> char mem" where
  "load_byte p = bnd (load p) (\<lambda>c. case c of Byte x \<Rightarrow> ret x | _ \<Rightarrow> (\<lambda>h. Undefined))"

definition load_ref :: "ptr \<Rightarrow> ptr mem" where
  "load_ref p = bnd (load p) (\<lambda>c. case c of Ref q \<Rightarrow> ret q | _ \<Rightarrow> (\<lambda>h. Undefined))"

text \<open>\<open>malloc\<close> of \<open>n\<close> bytes, read as an array whose cells take \<open>w\<close> bytes each.\<close>

definition allocate_memory :: "nat \<Rightarrow> 64 word \<Rightarrow> ptr mem" where
  "allocate_memory w n h =
     (if grants h (next_block h) (unat n)
      then Ok (Ptr (next_block h) 0)
             (set_block (next_block h) (replicate (unat n div w) Undef)
               (h\<lparr>next_block := Suc (next_block h)\<rparr>))
      else Exit)"

fun free_memory :: "ptr \<Rightarrow> unit mem" where
  "free_memory Null h = Ok () h"
| "free_memory (Ptr b i) h =
     (if i = 0 \<and> blocks h b \<noteq> None then Ok () (drop_block b h) else Undefined)"

fun copy_memory :: "ptr \<Rightarrow> ptr \<Rightarrow> nat \<Rightarrow> unit mem" where
  "copy_memory dest source 0 = ret ()"
| "copy_memory dest source (Suc n) =
     bnd (load source) (\<lambda>c. bnd (store dest c) (\<lambda>_. copy_memory (plus_ptr dest 1) (plus_ptr source 1) n))"

text \<open>\<open>copy_memory\<close> from memory outside the modelled heap (a literal, a stack array).\<close>

fun copy_bytes :: "ptr \<Rightarrow> string \<Rightarrow> unit mem" where
  "copy_bytes dest [] = ret ()"
| "copy_bytes dest (c # s) = bnd (store dest (Byte c)) (\<lambda>_. copy_bytes (plus_ptr dest 1) s)"

fun clear_memory :: "ptr \<Rightarrow> cell \<Rightarrow> nat \<Rightarrow> unit mem" where
  "clear_memory p zero 0 = ret ()"
| "clear_memory p zero (Suc n) = bnd (store p zero) (\<lambda>_. clear_memory (plus_ptr p 1) zero n)"

text \<open>Reading a C string: the bytes from the pointer to the first NUL, within \<open>n\<close> cells.\<close>

fun load_string :: "nat \<Rightarrow> ptr \<Rightarrow> string mem" where
  "load_string 0 p h = Undefined"
| "load_string (Suc n) p h =
     bnd (load_byte p) (\<lambda>c. if c = NUL then ret [] else
       bnd (load_string n (plus_ptr p 1)) (\<lambda>s. ret (c # s))) h"

definition load_cstring :: "ptr \<Rightarrow> string mem" where
  "load_cstring p h =
     (case p of
        Null \<Rightarrow> Undefined
      | Ptr b i \<Rightarrow> (case blocks h b of None \<Rightarrow> Undefined | Some cs \<Rightarrow> load_string (length cs - i) p h))"

subsection \<open>The loops as one update\<close>

lemma load_byte_Ok: "blocks h b = Some cs \<Longrightarrow> i < length cs \<Longrightarrow> cs ! i = Byte c \<Longrightarrow>
    load_byte (Ptr b i) h = Ok c h"
  by (simp add: load_byte_def bnd_def)

lemma load_ref_Ok: "blocks h b = Some cs \<Longrightarrow> i < length cs \<Longrightarrow> cs ! i = Ref q \<Longrightarrow>
    load_ref (Ptr b i) h = Ok q h"
  by (simp add: load_ref_def bnd_def)

lemma take_update_Suc: "i < length cs \<Longrightarrow> take (Suc i) (cs[i := c]) = take i cs @ [c]"
  by (simp add: take_Suc_conv_app_nth)

lemma copy_bytes_Ok:
  assumes "blocks h b = Some cs" and "i + length s \<le> length cs"
  shows "copy_bytes (Ptr b i) s h =
    Ok () (set_block b (take i cs @ map Byte s @ drop (i + length s) cs) h)"
  using assms
proof (induction s arbitrary: h cs i)
  case Nil
  then show ?case by (simp add: set_block_same)
next
  case (Cons c s)
  then show ?case
    by (simp add: bnd_def take_update_Suc)
qed

lemma copy_memory_Ok:
  assumes "blocks h b = Some cs" and "blocks h b' = Some cs'" and "b \<noteq> b'"
    and "i + n \<le> length cs" and "j + n \<le> length cs'"
  shows "copy_memory (Ptr b i) (Ptr b' j) n h =
    Ok () (set_block b (take i cs @ take n (drop j cs') @ drop (i + n) cs) h)"
  using assms
proof (induction n arbitrary: h cs i j)
  case 0
  then show ?case by (simp add: set_block_same)
next
  case (Suc n)
  have "take (Suc n) (drop j cs') = cs' ! j # take n (drop (Suc j) cs')"
    using Suc.prems(5) by (simp add: Cons_nth_drop_Suc [symmetric])
  then show ?case
    using Suc by (simp add: bnd_def take_update_Suc)
qed

lemma clear_memory_Ok:
  assumes "blocks h b = Some cs" and "i + n \<le> length cs"
  shows "clear_memory (Ptr b i) z n h =
    Ok () (set_block b (take i cs @ replicate n z @ drop (i + n) cs) h)"
  using assms
proof (induction n arbitrary: h cs i)
  case 0
  then show ?case by (simp add: set_block_same)
next
  case (Suc n)
  then show ?case by (simp add: bnd_def take_update_Suc)
qed

lemma load_string_Ok:
  assumes "blocks h b = Some cs" and "i + length s < length cs" and "NUL \<notin> set s"
    and "\<And>j. j < length s \<Longrightarrow> cs ! (i + j) = Byte (s ! j)" and "cs ! (i + length s) = Byte NUL"
    and "length s < n"
  shows "load_string n (Ptr b i) h = Ok s h"
  using assms
proof (induction s arbitrary: i n)
  case Nil
  then show ?case by (cases n) (simp_all add: bnd_def load_byte_Ok)
next
  case (Cons c s)
  obtain m where n: "n = Suc m" using Cons.prems(6) by (cases n) auto
  have "cs ! i = Byte c" using Cons.prems(4) [of 0] by simp
  moreover have "cs ! (Suc i + j) = Byte (s ! j)" if "j < length s" for j
    using Cons.prems(4) [of "Suc j"] that by simp
  ultimately show ?case
    using Cons.IH [of "Suc i" m] Cons.prems n by (auto simp: bnd_def load_byte_Ok)
qed

lemma load_cstring_Ok:
  assumes "blocks h b = Some cs" and "i + length s < length cs" and "NUL \<notin> set s"
    and "\<And>j. j < length s \<Longrightarrow> cs ! (i + j) = Byte (s ! j)" and "cs ! (i + length s) = Byte NUL"
  shows "load_cstring (Ptr b i) h = Ok s h"
  using load_string_Ok [OF assms, of "length cs - i"] assms by (simp add: load_cstring_def)

subsection \<open>Running to a postcondition\<close>

text \<open>
  \<open>runs m h Q\<close>: from the heap \<open>h\<close> the program \<open>m\<close> does nothing undefined, stops the process only
  when the allocator refuses a block, and otherwise returns in a state that satisfies \<open>Q\<close>.
\<close>

definition runs :: "'a mem \<Rightarrow> heap \<Rightarrow> ('a \<Rightarrow> heap \<Rightarrow> bool) \<Rightarrow> bool" where
  "runs m h Q \<longleftrightarrow>
     (case m h of
        Ok x h' \<Rightarrow> grants h' = grants h \<and> Q x h'
      | Exit \<Rightarrow> (\<exists>b n. \<not> grants h b n)
      | Undefined \<Rightarrow> False)"

lemma runs_ret [simp]: "runs (ret x) h Q \<longleftrightarrow> Q x h"
  by (simp add: runs_def)

lemma runs_Ok_iff [simp]: "runs (Ok x) h Q \<longleftrightarrow> Q x h"
  by (simp add: runs_def)

lemma runs_bnd: "runs m h (\<lambda>x h'. runs (f x) h' Q) \<Longrightarrow> runs (bnd m f) h Q"
  unfolding runs_def bnd_def by (fastforce split: mres.splits)

lemma runs_Ok: "m h = Ok x h' \<Longrightarrow> grants h' = grants h \<Longrightarrow> Q x h' \<Longrightarrow> runs m h Q"
  by (simp add: runs_def)

lemma runs_bnd_Ok: "m h = Ok x h' \<Longrightarrow> grants h' = grants h \<Longrightarrow> runs (f x) h' Q \<Longrightarrow> runs (bnd m f) h Q"
  by (rule runs_bnd) (simp add: runs_def)

lemma runs_mono: "runs m h Q \<Longrightarrow> (\<And>x h'. grants h' = grants h \<Longrightarrow> Q x h' \<Longrightarrow> R x h') \<Longrightarrow> runs m h R"
  by (auto simp: runs_def split: mres.splits)

lemma runs_bnd_mono:
  "runs m h Q \<Longrightarrow> (\<And>x h'. grants h' = grants h \<Longrightarrow> Q x h' \<Longrightarrow> runs (f x) h' R) \<Longrightarrow> runs (bnd m f) h R"
  by (rule runs_bnd) (erule runs_mono)

text \<open>When the allocator refuses nothing, the program returns.\<close>

lemma runs_returns: "runs m h Q \<Longrightarrow> \<forall>b n. grants h b n \<Longrightarrow> \<exists>x h'. m h = Ok x h' \<and> Q x h'"
  by (auto simp: runs_def split: mres.splits)

text \<open>Block numbers from \<open>next_block\<close> on are unused; \<open>frame S h h'\<close>: only blocks of \<open>S\<close> and new
  blocks changed from \<open>h\<close> to \<open>h'\<close>.\<close>

definition heap_ok :: "heap \<Rightarrow> bool" where
  "heap_ok h \<longleftrightarrow> (\<forall>b \<ge> next_block h. blocks h b = None)"

definition frame :: "nat set \<Rightarrow> heap \<Rightarrow> heap \<Rightarrow> bool" where
  "frame S h h' \<longleftrightarrow> next_block h \<le> next_block h'
     \<and> (\<forall>b < next_block h. b \<notin> S \<longrightarrow> blocks h' b = blocks h b)"

lemma heap_ok_less: "heap_ok h \<Longrightarrow> blocks h b = Some cs \<Longrightarrow> b < next_block h"
  unfolding heap_ok_def by (metis not_less option.distinct(1))

lemma heap_ok_set_block: "heap_ok h \<Longrightarrow> b < next_block h \<Longrightarrow> heap_ok (set_block b cs h)"
  by (simp add: heap_ok_def)

lemma heap_ok_drop_block: "heap_ok h \<Longrightarrow> heap_ok (drop_block b h)"
  by (simp add: heap_ok_def)

lemma frame_refl [simp]: "frame S h h"
  by (simp add: frame_def)

lemma frame_trans: "frame S h h' \<Longrightarrow> frame T h' h'' \<Longrightarrow> (\<And>b. b \<in> T \<Longrightarrow> b < next_block h \<Longrightarrow> b \<in> S) \<Longrightarrow> frame S h h''"
  unfolding frame_def by (metis le_trans less_le_trans)

lemma frame_mono: "frame S h h' \<Longrightarrow> S \<subseteq> T \<Longrightarrow> frame T h h'"
  by (auto simp: frame_def)

lemma frame_set_block: "b \<in> S \<Longrightarrow> frame S h (set_block b cs h)"
  by (auto simp: frame_def)

lemma frame_drop_block: "b \<in> S \<Longrightarrow> frame S h (drop_block b h)"
  by (auto simp: frame_def)

lemma frame_block: "frame S h h' \<Longrightarrow> heap_ok h \<Longrightarrow> blocks h b = Some cs \<Longrightarrow> b \<notin> S \<Longrightarrow> blocks h' b = Some cs"
  using heap_ok_less [of h b cs] by (simp add: frame_def)

text \<open>A fresh block.\<close>

lemma runs_allocate_memory:
  assumes "heap_ok h"
    and "\<And>h'. \<lbrakk>heap_ok h'; frame {} h h'; blocks h' (next_block h) = Some (replicate (unat n div w) Undef);
          next_block h < next_block h'\<rbrakk> \<Longrightarrow> Q (Ptr (next_block h) 0) h'"
  shows "runs (allocate_memory w n) h Q"
proof (cases "grants h (next_block h) (unat n)")
  case True
  then show ?thesis
    unfolding runs_def allocate_memory_def
    using assms by (auto simp: heap_ok_def frame_def)
qed (auto simp: runs_def allocate_memory_def)

text \<open>The heap at start, with an allocator that never fails: where the properties are exercised.\<close>

definition empty_heap :: heap where
  "empty_heap = \<lparr>next_block = 0, blocks = \<lambda>_. None, grants = \<lambda>_ _. True\<rparr>"

lemma empty_heap_ok: "heap_ok empty_heap" and empty_heap_grants: "\<forall>b n. grants empty_heap b n"
  by (simp_all add: empty_heap_def heap_ok_def)

end
