(* ===== verification/GrowBuffer.thy ===== *)
theory GrowBuffer imports Memory CStrings begin

text \<open>
  Growable byte buffers and string arrays (\<open>code/hand_buffer.c\<close>) on the heap of \<open>Memory\<close>. A
  struct the C code passes by address is a record that the operation returns updated. The data
  written to a buffer is given as its bytes; it never lies in the buffer itself.

  \<open>buf_rep h b s\<close> says that the buffer \<open>b\<close> holds the bytes \<open>s\<close> followed by a NUL, \<open>sa_rep h a ss\<close>
  that the array \<open>a\<close> holds the strings \<open>ss\<close>, one after the other in its buffer with a pointer to
  each. The lemmas show that every operation implements its abstract counterpart (append,
  snoc), without leaving the allocated blocks, whatever blocks have to be moved.
\<close>

record GrowableBuffer =
  buf_used :: "64 word"
  buf_max :: "64 word"
  buf_memory :: ptr

record StringArray =
  sa_count :: int
  sa_max :: int
  sa_elem :: ptr
  sa_buffer :: GrowableBuffer

subsection \<open>Buffers\<close>

definition free_growable_buffer :: "GrowableBuffer \<Rightarrow> GrowableBuffer mem" where
  "free_growable_buffer buffer =
     bnd (free_memory (buf_memory buffer)) (\<lambda>_. ret \<lparr>buf_used = 0, buf_max = 0, buf_memory = Null\<rparr>)"

definition reserve_growable_buffer :: "GrowableBuffer \<Rightarrow> 64 word \<Rightarrow> GrowableBuffer mem" where
  "reserve_growable_buffer buffer sz =
     (let total_size = buf_used buffer + sz + 1
      in if total_size > buf_max buffer
         then let allocated_size = next_pow_of_two total_size
              in bnd (allocate_memory 1 allocated_size) (\<lambda>memory.
                 bnd (copy_memory memory (buf_memory buffer) (unat (buf_used buffer))) (\<lambda>_.
                 bnd (store (plus_ptr memory (unat (buf_used buffer))) (Byte NUL)) (\<lambda>_.
                 bnd (free_memory (buf_memory buffer)) (\<lambda>_.
                 ret (buffer\<lparr>buf_max := allocated_size, buf_memory := memory\<rparr>)))))
         else ret buffer)"

definition write_growable_buffer :: "GrowableBuffer \<Rightarrow> string \<Rightarrow> GrowableBuffer mem" where
  "write_growable_buffer buffer data =
     bnd (reserve_growable_buffer buffer (of_nat (length data))) (\<lambda>buffer.
     bnd (copy_bytes (plus_ptr (buf_memory buffer) (unat (buf_used buffer))) data) (\<lambda>_.
     let buffer = buffer\<lparr>buf_used := buf_used buffer + of_nat (length data)\<rparr>
     in bnd (store (plus_ptr (buf_memory buffer) (unat (buf_used buffer))) (Byte NUL)) (\<lambda>_. ret buffer)))"

definition null_terminate :: "GrowableBuffer \<Rightarrow> GrowableBuffer mem" where
  "null_terminate buffer =
     bnd (reserve_growable_buffer buffer 0) (\<lambda>buffer.
     bnd (store (plus_ptr (buf_memory buffer) (unat (buf_used buffer))) (Byte NUL)) (\<lambda>_. ret buffer))"

definition clear_growable_buffer :: "GrowableBuffer \<Rightarrow> GrowableBuffer mem" where
  "clear_growable_buffer buffer = null_terminate (buffer\<lparr>buf_used := 0\<rparr>)"

definition allocate_growable_buffer :: "GrowableBuffer mem" where
  "allocate_growable_buffer =
     (let initial_size = 4096
      in bnd (allocate_memory 1 initial_size) (\<lambda>memory.
         null_terminate \<lparr>buf_used = 0, buf_max = initial_size, buf_memory = memory\<rparr>))"

text \<open>\<open>source\<close>: the bytes of the file, \<open>None\<close> when it cannot be opened; the file is read whole.\<close>

definition read_entire_file :: "string option \<Rightarrow> GrowableBuffer mem" where
  "read_entire_file source =
     bnd allocate_growable_buffer (\<lambda>result.
     bnd (case source of
            Some content \<Rightarrow>
              let file_size = of_nat (length content)
              in bnd (reserve_growable_buffer result file_size) (\<lambda>result.
                 bnd (copy_bytes (plus_ptr (buf_memory result) (unat (buf_used result))) content) (\<lambda>_.
                 ret (result\<lparr>buf_used := buf_used result + file_size\<rparr>)))
          | None \<Rightarrow> ret result) (\<lambda>result.
     null_terminate result))"

subsection \<open>What a buffer holds\<close>

definition buf_block :: "GrowableBuffer \<Rightarrow> nat" where
  "buf_block b = (case buf_memory b of Ptr m i \<Rightarrow> m | Null \<Rightarrow> 0)"

text \<open>\<open>buf_bytes\<close>: the bytes, perhaps not terminated; \<open>room\<close>: the bytes that fit, with the NUL.\<close>

definition buf_bytes :: "heap \<Rightarrow> GrowableBuffer \<Rightarrow> string \<Rightarrow> bool" where
  "buf_bytes h b s \<longleftrightarrow> buf_memory b = Ptr (buf_block b) 0 \<and> unat (buf_used b) = length s \<and>
     (\<exists>cs. blocks h (buf_block b) = Some cs \<and> length cs = unat (buf_max b)
        \<and> length s \<le> length cs \<and> take (length s) cs = map Byte s)"

definition buf_rep :: "heap \<Rightarrow> GrowableBuffer \<Rightarrow> string \<Rightarrow> bool" where
  "buf_rep h b s \<longleftrightarrow> buf_bytes h b s \<and>
     (\<exists>cs. blocks h (buf_block b) = Some cs \<and> length s < length cs \<and> cs ! length s = Byte NUL)"

lemma buf_rep_bytes: "buf_rep h b s \<Longrightarrow> buf_bytes h b s"
  by (simp add: buf_rep_def)

lemma buf_bytes_frame:
  "buf_bytes h b s \<Longrightarrow> heap_ok h \<Longrightarrow> frame S h h' \<Longrightarrow> buf_block b \<notin> S \<Longrightarrow> buf_bytes h' b s"
  unfolding buf_bytes_def using frame_block by blast

lemma buf_rep_frame:
  "buf_rep h b s \<Longrightarrow> heap_ok h \<Longrightarrow> frame S h h' \<Longrightarrow> buf_block b \<notin> S \<Longrightarrow> buf_rep h' b s"
  unfolding buf_rep_def using buf_bytes_frame frame_block by blast

lemma buf_block_less: "buf_bytes h b s \<Longrightarrow> heap_ok h \<Longrightarrow> buf_block b < next_block h"
  unfolding buf_bytes_def using heap_ok_less by blast

text \<open>What every buffer operation leaves: the buffer's own block, moved to a new one or not.\<close>

definition buf_step :: "GrowableBuffer \<Rightarrow> heap \<Rightarrow> GrowableBuffer \<Rightarrow> heap \<Rightarrow> bool" where
  "buf_step b h b' h' \<longleftrightarrow> heap_ok h' \<and> frame {buf_block b} h h' \<and>
     (buf_memory b' = buf_memory b \<or> next_block h \<le> buf_block b')"

lemma unat_total_size:
  assumes "m + n < 2 ^ 63" and "unat a = m" and "unat b = n"
  shows "unat (a + b + 1 :: 64 word) = m + n + 1"
proof -
  have ab: "unat (a + b) = m + n"
    using assms unat_add_lem [of a b] by simp
  then show ?thesis
    using assms(1) unat_add_lem [of "a + b" 1] by simp
qed

lemma reserve_room:
  assumes "heap_ok h" and "buf_bytes h b s" and "length s + unat sz < 2 ^ 63"
  shows "runs (reserve_growable_buffer b sz) h (\<lambda>b' h'.
    buf_bytes h' b' s \<and> length s + unat sz < unat (buf_max b') \<and> buf_step b h b' h')"
proof -
  let ?total = "buf_used b + sz + 1"
  obtain cs where b: "buf_memory b = Ptr (buf_block b) 0" "unat (buf_used b) = length s"
    "blocks h (buf_block b) = Some cs" "length cs = unat (buf_max b)" "length s \<le> length cs"
    "take (length s) cs = map Byte s"
    using assms(2) by (auto simp: buf_bytes_def)
  have total: "unat ?total = length s + unat sz + 1"
    using unat_total_size [OF assms(3) b(2) refl] .
  show ?thesis
  proof (cases "?total > buf_max b")
    case False
    then have "length s + unat sz < unat (buf_max b)"
      using total by (simp add: word_le_nat_alt not_less)
    then show ?thesis
      using False assms(1,2) by (simp add: reserve_growable_buffer_def buf_step_def)
  next
    case True
    let ?n = "next_pow_of_two ?total"
    have n: "length s + unat sz < unat ?n"
      using next_pow_of_two_least [of ?total] total assms(3) by auto
    let ?rest = "\<lambda>memory.
         bnd (copy_memory memory (buf_memory b) (unat (buf_used b))) (\<lambda>_.
         bnd (store (plus_ptr memory (unat (buf_used b))) (Byte NUL)) (\<lambda>_.
         bnd (free_memory (buf_memory b)) (\<lambda>_.
         ret (b\<lparr>buf_max := ?n, buf_memory := memory\<rparr>))))"
    let ?Q = "\<lambda>b' h'. buf_bytes h' b' s \<and> length s + unat sz < unat (buf_max b') \<and> buf_step b h b' h'"
    have "runs (allocate_memory 1 ?n) h (\<lambda>memory h1. runs (?rest memory) h1 ?Q)"
    proof (rule runs_allocate_memory [OF assms(1)])
      fix h1
      assume h1: "heap_ok h1" "frame {} h h1" "next_block h < next_block h1"
        "blocks h1 (next_block h) = Some (replicate (unat ?n div 1) Undef)"
      have old: "blocks h1 (buf_block b) = Some cs" "buf_block b < next_block h"
        using frame_block [OF h1(2) assms(1) b(3)] heap_ok_less [OF assms(1) b(3)] by simp_all
      let ?cs1 = "map Byte s @ drop (length s) (replicate (unat ?n) Undef)"
      let ?cs2 = "?cs1[length s := Byte NUL]"
      have copy: "copy_memory (Ptr (next_block h) 0) (Ptr (buf_block b) 0) (length s) h1
          = Ok () (set_block (next_block h) ?cs1 h1)"
        using copy_memory_Ok [of h1 "next_block h" _ "buf_block b" cs 0 "length s" 0] h1(4) old b n
        by simp
      let ?h' = "drop_block (buf_block b) (set_block (next_block h) ?cs2 h1)"
      have "buf_bytes ?h' (b\<lparr>buf_max := ?n, buf_memory := Ptr (next_block h) 0\<rparr>) s"
        using b n old(2) by (simp add: buf_bytes_def buf_block_def)
      moreover have "heap_ok ?h'"
        using h1 by (intro heap_ok_drop_block heap_ok_set_block)
      moreover have "frame {buf_block b} h ?h'"
        using h1 by (auto simp: frame_def)
      moreover have "?rest (Ptr (next_block h) 0) h1
          = Ok (b\<lparr>buf_max := ?n, buf_memory := Ptr (next_block h) 0\<rparr>) ?h'"
        unfolding b(1,2) using n old by (simp add: copy)
      ultimately show "runs (?rest (Ptr (next_block h) 0)) h1 ?Q"
        using n by (simp add: runs_def buf_step_def buf_block_def)
    qed
    then have "runs (bnd (allocate_memory 1 ?n) ?rest) h ?Q"
      by (rule runs_bnd)
    with True show ?thesis
      by (simp add: reserve_growable_buffer_def Let_def)
  qed
qed

lemma buf_step_set_block:
  assumes "buf_step b h b1 h1" and "buf_bytes h1 b1 s" and "buf_memory b2 = buf_memory b1"
  shows "buf_step b h b2 (set_block (buf_block b1) cs h1)"
proof -
  have "buf_block b1 = buf_block b \<or> next_block h \<le> buf_block b1"
    using assms(1) by (auto simp: buf_step_def buf_block_def)
  then show ?thesis
    using assms buf_block_less [OF assms(2)]
    by (auto simp: buf_step_def frame_def buf_block_def intro: heap_ok_set_block)
qed

lemma buf_block_eq: "buf_memory b = buf_memory b' \<Longrightarrow> buf_block b = buf_block b'"
  by (simp add: buf_block_def)

lemma buf_step_trans: "buf_step b h c h1 \<Longrightarrow> buf_step c h1 d h2 \<Longrightarrow> buf_step b h d h2"
  using buf_block_eq [of d c] buf_block_eq [of c b] by (auto simp: buf_step_def frame_def)

lemma store_NUL_rep:
  assumes "buf_bytes h b s" and "length s < unat (buf_max b)"
  obtains cs where "bnd (store (plus_ptr (buf_memory b) (unat (buf_used b))) (Byte NUL)) (\<lambda>_. ret b) h
      = Ok b (set_block (buf_block b) cs h)"
    and "buf_rep (set_block (buf_block b) cs h) b s"
proof -
  obtain cs where b: "buf_memory b = Ptr (buf_block b) 0" "unat (buf_used b) = length s"
    "blocks h (buf_block b) = Some cs" "length cs = unat (buf_max b)" "take (length s) cs = map Byte s"
    using assms(1) by (auto simp: buf_bytes_def)
  have "bnd (store (plus_ptr (buf_memory b) (unat (buf_used b))) (Byte NUL)) (\<lambda>_. ret b) h
      = Ok b (set_block (buf_block b) (cs[length s := Byte NUL]) h)"
    using b(3,4) assms(2) unfolding b(1,2) by (simp add: bnd_def)
  moreover have "buf_rep (set_block (buf_block b) (cs[length s := Byte NUL]) h) b s"
    using b assms(2) by (simp add: buf_rep_def buf_bytes_def)
  ultimately show ?thesis by (rule that)
qed

lemma fill_bytes:
  assumes "buf_bytes h b s" and "length s + length t < unat (buf_max b)"
  obtains cs where "copy_bytes (plus_ptr (buf_memory b) (unat (buf_used b))) t h = Ok () (set_block (buf_block b) cs h)"
    and "buf_bytes (set_block (buf_block b) cs h) (b\<lparr>buf_used := buf_used b + of_nat (length t)\<rparr>) (s @ t)"
proof -
  obtain cs where b: "buf_memory b = Ptr (buf_block b) 0" "unat (buf_used b) = length s"
    "blocks h (buf_block b) = Some cs" "length cs = unat (buf_max b)" "take (length s) cs = map Byte s"
    using assms(1) by (auto simp: buf_bytes_def)
  let ?cs = "map Byte (s @ t) @ drop (length s + length t) cs"
  have "unat (buf_max b) < 2 ^ 64"
    using unsigned_less [of "buf_max b", where ?'a = nat] by simp
  then have used: "unat (buf_used b + of_nat (length t)) = length s + length t"
    using b(2) assms(2) unat_add_lem [of "buf_used b" "of_nat (length t)"] by (simp add: unat_of_nat)
  have "copy_bytes (Ptr (buf_block b) (length s)) t h = Ok () (set_block (buf_block b) ?cs h)"
    using b assms(2) copy_bytes_Ok [of h "buf_block b" cs "length s" t] by simp
  then have "copy_bytes (plus_ptr (buf_memory b) (unat (buf_used b))) t h = Ok () (set_block (buf_block b) ?cs h)"
    by (subst b(1)) (simp add: b(2))
  moreover have "buf_bytes (set_block (buf_block b) ?cs h) (b\<lparr>buf_used := buf_used b + of_nat (length t)\<rparr>) (s @ t)"
    using b used assms(2) by (simp add: buf_bytes_def buf_block_def)
  ultimately show ?thesis by (rule that)
qed

lemma write_rep:
  assumes "heap_ok h" and "buf_bytes h b s" and "length s + length t < 2 ^ 63"
  shows "runs (write_growable_buffer b t) h (\<lambda>b' h'. buf_rep h' b' (s @ t) \<and> buf_step b h b' h')"
proof -
  have t: "unat (of_nat (length t) :: 64 word) = length t"
    using assms(3) by (simp add: unat_of_nat)
  show ?thesis
    unfolding write_growable_buffer_def Let_def
  proof (rule runs_bnd_mono [OF reserve_room [OF assms(1,2)]])
    show "length s + unat (of_nat (length t) :: 64 word) < 2 ^ 63" using t assms(3) by simp
  next
    fix b1 :: GrowableBuffer and h1
    let ?b2 = "b1\<lparr>buf_used := buf_used b1 + of_nat (length t)\<rparr>"
    assume h1: "grants h1 = grants h"
      "buf_bytes h1 b1 s \<and> length s + unat (of_nat (length t) :: 64 word) < unat (buf_max b1) \<and> buf_step b h b1 h1"
    then obtain cs where copy: "copy_bytes (plus_ptr (buf_memory b1) (unat (buf_used b1))) t h1
        = Ok () (set_block (buf_block b1) cs h1)"
      and bytes: "buf_bytes (set_block (buf_block b1) cs h1) ?b2 (s @ t)"
      using fill_bytes [of h1 b1 s t] t by auto
    have "length (s @ t) < unat (buf_max ?b2)" using h1 t by simp
    with bytes obtain cs' where st: "bnd (store (plus_ptr (buf_memory ?b2) (unat (buf_used ?b2))) (Byte NUL)) (\<lambda>_. ret ?b2)
          (set_block (buf_block b1) cs h1)
        = Ok ?b2 (set_block (buf_block ?b2) cs' (set_block (buf_block b1) cs h1))"
      and rep: "buf_rep (set_block (buf_block ?b2) cs' (set_block (buf_block b1) cs h1)) ?b2 (s @ t)"
      by (rule store_NUL_rep)
    have block: "buf_block ?b2 = buf_block b1" by (simp add: buf_block_def)
    have "buf_step b h ?b2 (set_block (buf_block b1) cs' h1)"
      using h1(2) by (intro buf_step_set_block [where s = s]) simp_all
    then have "runs (bnd (copy_bytes (plus_ptr (buf_memory b1) (unat (buf_used b1))) t) (\<lambda>_.
        bnd (store (plus_ptr (buf_memory ?b2) (unat (buf_used ?b2))) (Byte NUL)) (\<lambda>_. ret ?b2))) h1
        (\<lambda>b' h'. buf_rep h' b' (s @ t) \<and> buf_step b h b' h')"
      using rep st unfolding block set_block_twice by (simp add: runs_def copy)
    then show "runs (bnd (copy_bytes (plus_ptr (buf_memory b1) (unat (buf_used b1))) t) (\<lambda>_.
        bnd (store (plus_ptr (buf_memory ?b2) (unat (buf_used ?b2))) (Byte NUL)) (\<lambda>_. ret ?b2))) h1
        (\<lambda>b' h'. buf_rep h' b' (s @ t) \<and> buf_step b h b' h')" .
  qed
qed

lemma null_terminate_rep:
  assumes "heap_ok h" and "buf_bytes h b s" and "length s < 2 ^ 63"
  shows "runs (null_terminate b) h (\<lambda>b' h'. buf_rep h' b' s \<and> buf_step b h b' h')"
  unfolding null_terminate_def
proof (rule runs_bnd_mono [OF reserve_room [OF assms(1,2)]])
  show "length s + unat (0 :: 64 word) < 2 ^ 63" using assms(3) by simp
next
  fix b1 h1
  assume h1: "grants h1 = grants h"
    "buf_bytes h1 b1 s \<and> length s + unat (0 :: 64 word) < unat (buf_max b1) \<and> buf_step b h b1 h1"
  then obtain cs where run: "bnd (store (plus_ptr (buf_memory b1) (unat (buf_used b1))) (Byte NUL)) (\<lambda>_. ret b1) h1
      = Ok b1 (set_block (buf_block b1) cs h1)"
    and rep: "buf_rep (set_block (buf_block b1) cs h1) b1 s"
    using store_NUL_rep [of h1 b1 s] by auto
  have "buf_step b h b1 (set_block (buf_block b1) cs h1)"
    using h1(2) by (intro buf_step_set_block [where s = s]) simp_all
  then show "runs (bnd (store (plus_ptr (buf_memory b1) (unat (buf_used b1))) (Byte NUL)) (\<lambda>_. ret b1)) h1
      (\<lambda>b' h'. buf_rep h' b' s \<and> buf_step b h b' h')"
    using rep run by (simp add: runs_def)
qed

lemma clear_rep:
  assumes "heap_ok h" and "buf_bytes h b s"
  shows "runs (clear_growable_buffer b) h (\<lambda>b' h'. buf_rep h' b' [] \<and> buf_step b h b' h')"
proof -
  have "buf_bytes h (b\<lparr>buf_used := 0\<rparr>) []"
    using assms(2) by (auto simp: buf_bytes_def buf_block_def)
  then have "runs (null_terminate (b\<lparr>buf_used := 0\<rparr>)) h
      (\<lambda>b' h'. buf_rep h' b' [] \<and> buf_step (b\<lparr>buf_used := 0\<rparr>) h b' h')"
    by (intro null_terminate_rep assms(1)) simp_all
  then show ?thesis
    by (simp add: clear_growable_buffer_def buf_step_def buf_block_def)
qed

text \<open>A new buffer is empty and touches nothing allocated before.\<close>

lemma allocate_rep:
  assumes "heap_ok h"
  shows "runs allocate_growable_buffer h
    (\<lambda>b h'. buf_rep h' b [] \<and> heap_ok h' \<and> frame {} h h' \<and> next_block h \<le> buf_block b)"
  unfolding allocate_growable_buffer_def Let_def
proof (rule runs_bnd, rule runs_allocate_memory [OF assms])
  fix h1
  let ?b = "\<lparr>buf_used = 0, buf_max = 4096, buf_memory = Ptr (next_block h) 0\<rparr>"
  assume h1: "heap_ok h1" "frame {} h h1" "next_block h < next_block h1"
    "blocks h1 (next_block h) = Some (replicate (unat (4096 :: 64 word) div 1) Undef)"
  have "buf_bytes h1 ?b []"
    using h1(4) by (simp add: buf_bytes_def buf_block_def)
  then have "runs (null_terminate ?b) h1 (\<lambda>b' h'. buf_rep h' b' [] \<and> buf_step ?b h1 b' h')"
    by (intro null_terminate_rep h1(1)) simp_all
  then show "runs (null_terminate ?b) h1
      (\<lambda>b h'. buf_rep h' b [] \<and> heap_ok h' \<and> frame {} h h' \<and> next_block h \<le> buf_block b)"
    using h1(2,3) by (elim runs_mono) (auto simp: buf_step_def buf_block_def frame_def)
qed

lemma fresh_step:
  assumes "frame {} h h1" and "next_block h \<le> buf_block b" and "buf_step b h1 b' h'"
  shows "frame {} h h' \<and> next_block h \<le> buf_block b' \<and> heap_ok h'"
proof -
  have "next_block h \<le> buf_block b'"
    using assms by (auto simp: buf_step_def frame_def buf_block_def)
  then show ?thesis using assms by (auto simp: buf_step_def frame_def)
qed

definition file_bytes :: "string option \<Rightarrow> string" where
  "file_bytes source = (case source of Some content \<Rightarrow> content | None \<Rightarrow> [])"

lemma read_file_step:
  assumes "heap_ok h" and "buf_bytes h b []" and "length content < 2 ^ 63"
  shows "runs (bnd (reserve_growable_buffer b (of_nat (length content))) (\<lambda>result.
      bnd (copy_bytes (plus_ptr (buf_memory result) (unat (buf_used result))) content) (\<lambda>_.
      ret (result\<lparr>buf_used := buf_used result + of_nat (length content)\<rparr>)))) h
    (\<lambda>b' h'. buf_bytes h' b' content \<and> buf_step b h b' h')"
proof -
  have len: "unat (of_nat (length content) :: 64 word) = length content"
    using assms(3) by (simp add: unat_of_nat)
  show ?thesis
  proof (rule runs_bnd_mono [OF reserve_room [OF assms(1,2)]])
    show "length [] + unat (of_nat (length content) :: 64 word) < 2 ^ 63" using len assms(3) by simp
  next
    fix b1 :: GrowableBuffer and h1
    assume h1: "grants h1 = grants h"
      "buf_bytes h1 b1 [] \<and> length [] + unat (of_nat (length content) :: 64 word) < unat (buf_max b1) \<and> buf_step b h b1 h1"
    then obtain cs where copy: "copy_bytes (plus_ptr (buf_memory b1) (unat (buf_used b1))) content h1
        = Ok () (set_block (buf_block b1) cs h1)"
      and bytes: "buf_bytes (set_block (buf_block b1) cs h1) (b1\<lparr>buf_used := buf_used b1 + of_nat (length content)\<rparr>) content"
      using fill_bytes [of h1 b1 "[]" content] len by auto
    have "buf_step b h (b1\<lparr>buf_used := buf_used b1 + of_nat (length content)\<rparr>) (set_block (buf_block b1) cs h1)"
      using h1(2) by (intro buf_step_set_block [where s = "[]"]) simp_all
    then show "runs (bnd (copy_bytes (plus_ptr (buf_memory b1) (unat (buf_used b1))) content) (\<lambda>_.
        ret (b1\<lparr>buf_used := buf_used b1 + of_nat (length content)\<rparr>))) h1
        (\<lambda>b' h'. buf_bytes h' b' content \<and> buf_step b h b' h')"
      using bytes by (simp add: runs_def copy)
  qed
qed

lemma read_entire_file_rep:
  assumes "heap_ok h" and "length (file_bytes source) < 2 ^ 63"
  shows "runs (read_entire_file source) h
    (\<lambda>b h'. buf_rep h' b (file_bytes source) \<and> heap_ok h' \<and> frame {} h h' \<and> next_block h \<le> buf_block b)"
  unfolding read_entire_file_def Let_def
proof (rule runs_bnd_mono [OF allocate_rep [OF assms(1)]], elim conjE)
  fix b0 h0
  assume h0: "buf_rep h0 b0 []" "heap_ok h0" "frame {} h h0" "next_block h \<le> buf_block b0"
  let ?read = "case source of
      Some content \<Rightarrow> bnd (reserve_growable_buffer b0 (of_nat (length content))) (\<lambda>result.
        bnd (copy_bytes (plus_ptr (buf_memory result) (unat (buf_used result))) content) (\<lambda>_.
        ret (result\<lparr>buf_used := buf_used result + of_nat (length content)\<rparr>)))
    | None \<Rightarrow> ret b0"
  have step: "runs ?read h0 (\<lambda>b' h'. buf_bytes h' b' (file_bytes source) \<and> buf_step b0 h0 b' h')"
  proof (cases source)
    case None
    then show ?thesis using buf_rep_bytes [OF h0(1)] h0(2) by (simp add: file_bytes_def buf_step_def)
  next
    case (Some content)
    then show ?thesis
      using read_file_step [OF h0(2) buf_rep_bytes [OF h0(1)]] assms(2) by (simp add: file_bytes_def)
  qed
  show "runs (bnd ?read null_terminate) h0
      (\<lambda>b h'. buf_rep h' b (file_bytes source) \<and> heap_ok h' \<and> frame {} h h' \<and> next_block h \<le> buf_block b)"
  proof (rule runs_bnd_mono [OF step])
    fix b1 h1
    assume "buf_bytes h1 b1 (file_bytes source) \<and> buf_step b0 h0 b1 h1"
    then have h1: "buf_bytes h1 b1 (file_bytes source)" "frame {} h h1" "next_block h \<le> buf_block b1" "heap_ok h1"
      using fresh_step [OF h0(3,4)] by auto
    show "runs (null_terminate b1) h1
        (\<lambda>b h'. buf_rep h' b (file_bytes source) \<and> heap_ok h' \<and> frame {} h h' \<and> next_block h \<le> buf_block b)"
      using fresh_step [OF h1(2,3)]
      by (intro runs_mono [OF null_terminate_rep [OF h1(4,1) assms(2)]]) auto
  qed
qed

subsection \<open>The interface of a buffer\<close>

text \<open>
  What the users of a buffer rely on: a new buffer is empty, and writing appends. A text is
  written piece by piece with \<open>write_all\<close>.
\<close>

fun write_all :: "('b \<Rightarrow> string \<Rightarrow> 'b mem) \<Rightarrow> 'b \<Rightarrow> string list \<Rightarrow> 'b mem" where
  "write_all put b [] = ret b"
| "write_all put b (t # ts) = bnd (put b t) (\<lambda>b. write_all put b ts)"

locale byte_buffer =
  fixes alloc :: "'b mem"
    and put :: "'b \<Rightarrow> string \<Rightarrow> 'b mem"
    and rep :: "heap \<Rightarrow> 'b \<Rightarrow> string \<Rightarrow> bool"
  assumes alloc_empty: "heap_ok h \<Longrightarrow> runs alloc h (\<lambda>b h'. rep h' b [] \<and> heap_ok h')"
    and write_append: "\<lbrakk>heap_ok h; rep h b s; length s + length t < 2 ^ 63\<rbrakk> \<Longrightarrow>
      runs (put b t) h (\<lambda>b' h'. rep h' b' (s @ t) \<and> heap_ok h')"
begin

lemma write_all_append:
  "\<lbrakk>heap_ok h; rep h b s; length s + length (concat ts) < 2 ^ 63\<rbrakk> \<Longrightarrow>
    runs (write_all put b ts) h (\<lambda>b' h'. rep h' b' (s @ concat ts) \<and> heap_ok h')"
proof (induction ts arbitrary: b s h)
  case (Cons t ts)
  have "runs (put b t) h (\<lambda>b' h'. rep h' b' (s @ t) \<and> heap_ok h')"
    using Cons.prems by (intro write_append) simp_all
  then have "runs (bnd (put b t) (\<lambda>b. write_all put b ts)) h
      (\<lambda>b' h'. rep h' b' ((s @ t) @ concat ts) \<and> heap_ok h')"
    using Cons.prems(3) by (elim runs_bnd_mono) (intro Cons.IH, simp_all)
  then show ?case by simp
qed simp

lemma build:
  assumes "heap_ok h" and "length (concat ts) < 2 ^ 63"
  shows "runs (bnd alloc (\<lambda>b. write_all put b ts)) h (\<lambda>b h'. rep h' b (concat ts) \<and> heap_ok h')"
proof (rule runs_bnd_mono [OF alloc_empty [OF assms(1)]], elim conjE)
  fix b h'
  assume "rep h' b []" and "heap_ok h'"
  then show "runs (write_all put b ts) h' (\<lambda>b h'. rep h' b (concat ts) \<and> heap_ok h')"
    using write_all_append [of h' b "[]" ts] assms(2) by simp
qed

end

interpretation grow: byte_buffer allocate_growable_buffer write_growable_buffer buf_rep
proof
  show "runs allocate_growable_buffer h (\<lambda>b h'. buf_rep h' b [] \<and> heap_ok h')" if "heap_ok h" for h
    using allocate_rep [OF that] by (rule runs_mono) simp
  show "runs (write_growable_buffer b t) h (\<lambda>b' h'. buf_rep h' b' (s @ t) \<and> heap_ok h')"
    if "heap_ok h" "buf_rep h b s" "length s + length t < 2 ^ 63" for h b s t
    using write_rep [OF that(1) buf_rep_bytes [OF that(2)] that(3)]
    by (rule runs_mono) (simp add: buf_step_def)
qed

end
