(* ===== verification/StringArrays.thy ===== *)
theory StringArrays imports GrowBuffer begin

text \<open>
  String arrays (\<open>StringArray\<close> of \<open>code/hand_buffer.c\<close>): the strings lie one after the other in a
  growable buffer, and an array of pointers leads to each. Growing the buffer may move it, and
  \<open>append_string_array\<close> then redirects every pointer; the representation \<open>sa_rep\<close> is preserved by
  every append, so the array always reads back as the list of strings appended.
\<close>

subsection \<open>Operations\<close>

definition allocate_string_array :: "StringArray mem" where
  "allocate_string_array =
     (let initial_count = 128
      in bnd (allocate_memory 8 (of_int initial_count * 8)) (\<lambda>elem.
         bnd allocate_growable_buffer (\<lambda>buffer.
         ret \<lparr>sa_count = 0, sa_max = initial_count, sa_elem = elem, sa_buffer = buffer\<rparr>)))"

definition free_string_array :: "StringArray \<Rightarrow> StringArray mem" where
  "free_string_array array =
     bnd (free_growable_buffer (sa_buffer array)) (\<lambda>buffer.
     bnd (free_memory (sa_elem array)) (\<lambda>_.
     ret \<lparr>sa_count = 0, sa_max = 0, sa_elem = Null, sa_buffer = buffer\<rparr>))"

definition reserve_string_array :: "StringArray \<Rightarrow> int \<Rightarrow> StringArray mem" where
  "reserve_string_array array n =
     (let total = sa_count array + n
      in if total > sa_max array
         then let allocated = to_int32 (uint (next_pow_of_two (of_int total)))
              in bnd (allocate_memory 8 (of_int allocated * 8)) (\<lambda>elem.
                 bnd (copy_memory elem (sa_elem array) (nat (sa_count array))) (\<lambda>_.
                 bnd (free_memory (sa_elem array)) (\<lambda>_.
                 ret (array\<lparr>sa_max := allocated, sa_elem := elem\<rparr>))))
         else ret array)"

text \<open>The loop that redirects \<open>n\<close> pointers from \<open>elem\<close> on when the buffer has moved.\<close>

fun fixup_pointers :: "ptr \<Rightarrow> ptr \<Rightarrow> ptr \<Rightarrow> nat \<Rightarrow> unit mem" where
  "fixup_pointers elem memory old_ptr 0 = ret ()"
| "fixup_pointers elem memory old_ptr (Suc n) =
     bnd (load_ref elem) (\<lambda>p.
     bnd (diff_ptr p old_ptr) (\<lambda>d.
     bnd (store elem (Ref (plus_ptr memory d))) (\<lambda>_.
     fixup_pointers (plus_ptr elem 1) memory old_ptr n)))"

definition append_string_array :: "StringArray \<Rightarrow> string \<Rightarrow> StringArray mem" where
  "append_string_array array string =
     (let old_size = buf_used (sa_buffer array); old_ptr = buf_memory (sa_buffer array)
      in bnd (write_growable_buffer (sa_buffer array) (take (string_len string) string)) (\<lambda>buffer.
         bnd (write_growable_buffer buffer [NUL]) (\<lambda>buffer.
         let dirty = buf_memory buffer \<noteq> old_ptr
         in bnd (if dirty
                 then fixup_pointers (sa_elem array) (buf_memory buffer) old_ptr (nat (sa_count array))
                 else ret ()) (\<lambda>_.
            bnd (reserve_string_array (array\<lparr>sa_buffer := buffer\<rparr>) 1) (\<lambda>array.
            bnd (store (plus_ptr (sa_elem array) (nat (sa_count array)))
                   (Ref (plus_ptr (buf_memory buffer) (unat old_size)))) (\<lambda>_.
            ret (array\<lparr>sa_count := sa_count array + 1\<rparr>)))))))"

text \<open>\<open>array->elem[i]\<close> as a C string.\<close>

definition get_elem :: "StringArray \<Rightarrow> nat \<Rightarrow> string mem" where
  "get_elem array i = bnd (load_ref (plus_ptr (sa_elem array) i)) load_cstring"

fun find_index_from :: "StringArray \<Rightarrow> string \<Rightarrow> nat \<Rightarrow> nat \<Rightarrow> int mem" where
  "find_index_from array keyword i 0 = ret (- 1)"
| "find_index_from array keyword i (Suc n) =
     bnd (get_elem array i) (\<lambda>s.
     if compare_case_insensitive s keyword then ret (int i)
     else find_index_from array keyword (Suc i) n)"

definition find_index_case_insensitive :: "StringArray \<Rightarrow> string \<Rightarrow> int mem" where
  "find_index_case_insensitive array keyword = find_index_from array keyword 0 (nat (sa_count array))"

text \<open>The first pass of \<open>read_string_array_file\<close> ends the words, the second appends each.\<close>

definition is_white :: "char \<Rightarrow> bool" where
  "is_white c \<longleftrightarrow> c = CHR '' '' \<or> c = CHR 0x09 \<or> c = CHR 0x0D \<or> c = CHR 0x0A"

fun end_words :: "ptr \<Rightarrow> nat \<Rightarrow> unit mem" where
  "end_words p 0 = ret ()"
| "end_words p (Suc n) =
     bnd (load_byte p) (\<lambda>c.
     bnd (if is_white c then store p (Byte NUL) else ret ()) (\<lambda>_.
     end_words (plus_ptr p 1) n))"

fun append_words :: "char \<Rightarrow> StringArray \<Rightarrow> ptr \<Rightarrow> nat \<Rightarrow> StringArray mem" where
  "append_words prev_char array p 0 = ret array"
| "append_words prev_char array p (Suc n) =
     bnd (load_byte p) (\<lambda>c.
     bnd (if prev_char = NUL \<and> c \<noteq> NUL
          then bnd (load_cstring p) (append_string_array array)
          else ret array) (\<lambda>array.
     append_words c array (plus_ptr p 1) n))"

definition read_string_array_file :: "string option \<Rightarrow> StringArray mem" where
  "read_string_array_file source =
     bnd allocate_string_array (\<lambda>result.
     bnd (read_entire_file source) (\<lambda>content.
     bnd (end_words (buf_memory content) (unat (buf_used content))) (\<lambda>_.
     bnd (append_words NUL result (buf_memory content) (unat (buf_used content))) (\<lambda>result.
     bnd (free_growable_buffer content) (\<lambda>_. ret result)))))"

subsection \<open>The pointer array\<close>

definition elem_block :: "StringArray \<Rightarrow> nat" where
  "elem_block a = (case sa_elem a of Ptr e i \<Rightarrow> e | Null \<Rightarrow> 0)"

definition elem_rep :: "heap \<Rightarrow> StringArray \<Rightarrow> ptr list \<Rightarrow> bool" where
  "elem_rep h a ps \<longleftrightarrow> sa_elem a = Ptr (elem_block a) 0 \<and> sa_count a = int (length ps) \<and>
     (\<exists>cs. blocks h (elem_block a) = Some cs \<and> int (length cs) = sa_max a
        \<and> length ps \<le> length cs \<and> take (length ps) cs = map Ref ps)"

definition elem_step :: "StringArray \<Rightarrow> heap \<Rightarrow> StringArray \<Rightarrow> heap \<Rightarrow> bool" where
  "elem_step a h a' h' \<longleftrightarrow> heap_ok h' \<and> frame {elem_block a} h h'
     \<and> (elem_block a' = elem_block a \<or> next_block h \<le> elem_block a')"

lemma elem_rep_frame:
  "elem_rep h a ps \<Longrightarrow> heap_ok h \<Longrightarrow> frame S h h' \<Longrightarrow> elem_block a \<notin> S \<Longrightarrow> elem_rep h' a ps"
  unfolding elem_rep_def using frame_block by blast

lemma elem_block_less: "elem_rep h a ps \<Longrightarrow> heap_ok h \<Longrightarrow> elem_block a < next_block h"
  unfolding elem_rep_def using heap_ok_less by blast

lemma fixup_pointers_Ok:
  assumes "blocks h e = Some cs" and "i + length ds \<le> length cs"
    and "take (length ds) (drop i cs) = map (\<lambda>d. Ref (Ptr old d)) ds"
  shows "fixup_pointers (Ptr e i) (Ptr new 0) (Ptr old 0) (length ds) h =
    Ok () (set_block e (take i cs @ map (\<lambda>d. Ref (Ptr new d)) ds @ drop (i + length ds) cs) h)"
  using assms
proof (induction ds arbitrary: i cs h)
  case Nil
  then show ?case by (simp add: set_block_same)
next
  case (Cons d ds)
  have nth: "cs ! i = Ref (Ptr old d)" and rest: "take (length ds) (drop (Suc i) cs) = map (\<lambda>d. Ref (Ptr old d)) ds"
    using Cons.prems(2,3) by (simp_all add: Cons_nth_drop_Suc [symmetric])
  have "load_ref (Ptr e i) h = Ok (Ptr old d) h"
    using Cons.prems(1,2) nth by (simp add: load_ref_Ok)
  then show ?case
    using Cons.IH [of "set_block e (cs[i := Ref (Ptr new d)]) h" "cs[i := Ref (Ptr new d)]" "Suc i"]
      Cons.prems(1,2) rest by (simp add: bnd_def take_update_Suc)
qed

lemma reserve_string_array_rep:
  assumes "heap_ok h" and "elem_rep h a ps" and "length ps < 2 ^ 30"
  shows "runs (reserve_string_array a 1) h (\<lambda>a' h'. elem_rep h' a' ps \<and> sa_count a' < sa_max a'
    \<and> sa_buffer a' = sa_buffer a \<and> elem_step a h a' h')"
proof -
  obtain cs where a: "sa_elem a = Ptr (elem_block a) 0" "sa_count a = int (length ps)"
    "blocks h (elem_block a) = Some cs" "int (length cs) = sa_max a" "length ps \<le> length cs"
    "take (length ps) cs = map Ref ps"
    using assms(2) by (auto simp: elem_rep_def)
  show ?thesis
  proof (cases "int (length ps) + 1 > sa_max a")
    case False
    then show ?thesis
      using a assms(1,2) by (simp add: reserve_string_array_def elem_step_def)
  next
    case True
    let ?total = "of_int (int (length ps) + 1) :: 64 word"
    let ?n = "to_int32 (uint (next_pow_of_two ?total))"
    have total: "unat ?total = length ps + 1"
      using assms(3) unat_add_lem [of "of_nat (length ps) :: 64 word" 1] by (simp add: unat_of_nat)
    obtain k where k: "unat (next_pow_of_two ?total) = 2 ^ k" "length ps + 1 \<le> 2 ^ k"
      "\<forall>j<k. 2 ^ j < length ps + 1"
      using next_pow_of_two_least [of ?total] total assms(3) by auto
    have "k \<le> 30"
      using k(3) assms(3) by (metis Suc_eq_plus1 Suc_leI leI linorder_not_less)
    then have k30: "(2 :: nat) ^ k \<le> 2 ^ 30"
      by (rule power_increasing) simp
    have "uint (next_pow_of_two ?total) = int (unat (next_pow_of_two ?total))" by simp
    then have "uint (next_pow_of_two ?total) = int (2 ^ k)" by (simp only: k(1))
    moreover have "(2 :: int) ^ k \<le> 2 ^ 30"
      using \<open>k \<le> 30\<close> by (intro power_increasing) simp_all
    then have "to_int32 (2 ^ k) = 2 ^ k"
      by (intro to_int32_id) (simp_all add: order_trans [of _ 0])
    ultimately have n: "?n = int (2 ^ k)" by simp
    have bytes: "unat (of_int ?n * 8 :: 64 word) div 8 = 2 ^ k"
    proof -
      have "of_int ?n * 8 = (of_nat (2 ^ k * 8) :: 64 word)"
        unfolding n by simp
      moreover have "2 ^ k * 8 < (2 :: nat) ^ 64"
        using k30 by simp
      ultimately show ?thesis
        by (simp only: unat_of_nat) simp
    qed
    let ?rest = "\<lambda>elem. bnd (copy_memory elem (sa_elem a) (nat (sa_count a))) (\<lambda>_.
        bnd (free_memory (sa_elem a)) (\<lambda>_. ret (a\<lparr>sa_max := ?n, sa_elem := elem\<rparr>)))"
    let ?Q = "\<lambda>a' h'. elem_rep h' a' ps \<and> sa_count a' < sa_max a' \<and> sa_buffer a' = sa_buffer a \<and> elem_step a h a' h'"
    have "runs (allocate_memory 8 (of_int ?n * 8)) h (\<lambda>elem h1. runs (?rest elem) h1 ?Q)"
    proof (rule runs_allocate_memory [OF assms(1)])
      fix h1
      assume h1: "heap_ok h1" "frame {} h h1" "next_block h < next_block h1"
        "blocks h1 (next_block h) = Some (replicate (unat (of_int ?n * 8 :: 64 word) div 8) Undef)"
      have old: "blocks h1 (elem_block a) = Some cs" "elem_block a < next_block h"
        using frame_block [OF h1(2) assms(1) a(3)] heap_ok_less [OF assms(1) a(3)] by simp_all
      let ?cs = "map Ref ps @ drop (length ps) (replicate (2 ^ k) Undef)"
      let ?h' = "drop_block (elem_block a) (set_block (next_block h) ?cs h1)"
      have "copy_memory (Ptr (next_block h) 0) (Ptr (elem_block a) 0) (length ps) h1
          = Ok () (set_block (next_block h) ?cs h1)"
        using copy_memory_Ok [of h1 "next_block h" _ "elem_block a" cs 0 "length ps" 0] h1(4) old a k(2)
        unfolding bytes by simp
      then have "?rest (Ptr (next_block h) 0) h1 = Ok (a\<lparr>sa_max := ?n, sa_elem := Ptr (next_block h) 0\<rparr>) ?h'"
        unfolding a(1,2) using old by simp
      moreover have "elem_rep ?h' (a\<lparr>sa_max := ?n, sa_elem := Ptr (next_block h) 0\<rparr>) ps"
        using a(2) k(2) old(2) n by (simp add: elem_rep_def elem_block_def)
      moreover have "heap_ok ?h'" using h1 by (intro heap_ok_drop_block heap_ok_set_block)
      moreover have "frame {elem_block a} h ?h'" using h1 by (auto simp: frame_def)
      ultimately show "runs (?rest (Ptr (next_block h) 0)) h1 ?Q"
        using a(2) k(2) n by (simp add: runs_def elem_step_def) (simp add: elem_block_def)
    qed
    then have "runs (bnd (allocate_memory 8 (of_int ?n * 8)) ?rest) h ?Q" by (rule runs_bnd)
    with True show ?thesis by (simp add: reserve_string_array_def a(2) Let_def)
  qed
qed

subsection \<open>The array of strings\<close>

definition flat :: "string list \<Rightarrow> string" where
  "flat ss = concat (map (\<lambda>s. s @ [NUL]) ss)"

fun refs_from :: "nat \<Rightarrow> string list \<Rightarrow> nat list" where
  "refs_from off [] = []"
| "refs_from off (s # ss) = off # refs_from (off + length s + 1) ss"

lemma flat_simps [simp]: "flat [] = []" "flat (s # ss) = s @ NUL # flat ss" "flat (ss @ ts) = flat ss @ flat ts"
  by (simp_all add: flat_def)

lemma length_refs_from [simp]: "length (refs_from off ss) = length ss"
  by (induction off ss rule: refs_from.induct) simp_all

lemma refs_from_snoc: "refs_from off (ss @ [t]) = refs_from off ss @ [off + length (flat ss)]"
  by (induction off ss rule: refs_from.induct) simp_all

lemma nth_refs_from: "i < length ss \<Longrightarrow> refs_from off ss ! i = off + length (flat (take i ss))"
  by (induction off ss arbitrary: i rule: refs_from.induct) (auto simp: nth_Cons' take_Cons')

definition sa_rep :: "heap \<Rightarrow> StringArray \<Rightarrow> string list \<Rightarrow> bool" where
  "sa_rep h a ss \<longleftrightarrow> buf_rep h (sa_buffer a) (flat ss)
     \<and> elem_rep h a (map (\<lambda>d. Ptr (buf_block (sa_buffer a)) d) (refs_from 0 ss))
     \<and> elem_block a \<noteq> buf_block (sa_buffer a) \<and> (\<forall>s \<in> set ss. NUL \<notin> set s)"

text \<open>An operation on an array touches only its two blocks, each kept or replaced by a new one.\<close>

definition sa_blocks :: "StringArray \<Rightarrow> nat set" where
  "sa_blocks a = {elem_block a, buf_block (sa_buffer a)}"

definition sa_step :: "StringArray \<Rightarrow> heap \<Rightarrow> StringArray \<Rightarrow> heap \<Rightarrow> bool" where
  "sa_step a h a' h' \<longleftrightarrow> heap_ok h' \<and> frame (sa_blocks a) h h'
     \<and> (\<forall>b \<in> sa_blocks a'. b \<in> sa_blocks a \<or> next_block h \<le> b)"

lemma sa_step_refl: "heap_ok h \<Longrightarrow> sa_step a h a h"
  by (simp add: sa_step_def)

lemma sa_step_trans:
  assumes "sa_step a h a1 h1" and "sa_step a1 h1 a2 h2"
  shows "sa_step a h a2 h2"
proof -
  have frames: "frame (sa_blocks a) h h1" "frame (sa_blocks a1) h1 h2" "heap_ok h2"
    and old: "\<And>b. b \<in> sa_blocks a1 \<Longrightarrow> b \<in> sa_blocks a \<or> next_block h \<le> b"
    and new: "\<And>b. b \<in> sa_blocks a2 \<Longrightarrow> b \<in> sa_blocks a1 \<or> next_block h1 \<le> b"
    using assms by (auto simp: sa_step_def)
  have "frame (sa_blocks a) h h2"
    using frames(1,2) by (rule frame_trans) (use old in force)
  have "b \<in> sa_blocks a \<or> next_block h \<le> b" if "b \<in> sa_blocks a2" for b
    using new [OF that]
  proof
    assume "next_block h1 \<le> b"
    then show ?thesis using frames(1) unfolding frame_def by linarith
  qed (rule old)
  then show ?thesis using \<open>frame (sa_blocks a) h h2\<close> frames(3) unfolding sa_step_def by blast
qed

lemma buf_step_block: "buf_step b h b' h' \<Longrightarrow> buf_block b' = buf_block b \<or> next_block h \<le> buf_block b'"
  unfolding buf_step_def by (metis buf_block_eq)

lemma write_string_rep:
  assumes "heap_ok h" and "buf_rep h b s" and "length s + length t + 1 < 2 ^ 63"
  shows "runs (bnd (write_growable_buffer b t) (\<lambda>b. write_growable_buffer b [NUL])) h
    (\<lambda>b' h'. buf_rep h' b' (s @ t @ [NUL]) \<and> buf_step b h b' h')"
proof (rule runs_bnd_mono [OF write_rep [OF assms(1) buf_rep_bytes [OF assms(2)]]], goal_cases)
  case 1
  then show ?case using assms(3) by simp
next
  case (2 b1 h1)
  then have "runs (write_growable_buffer b1 [NUL]) h1
      (\<lambda>b' h'. buf_rep h' b' ((s @ t) @ [NUL]) \<and> buf_step b1 h1 b' h')"
    using assms(3) by (intro write_rep) (auto simp: buf_step_def dest: buf_rep_bytes)
  then show ?case
    using 2 by (elim runs_mono) (auto intro: buf_step_trans)
qed

lemma fixup_rep:
  assumes "heap_ok h" and "elem_rep h a (map (\<lambda>d. Ptr old d) ds)"
  shows "runs (fixup_pointers (sa_elem a) (Ptr new 0) (Ptr old 0) (nat (sa_count a))) h
    (\<lambda>_ h'. elem_rep h' a (map (\<lambda>d. Ptr new d) ds) \<and> elem_step a h a h')"
proof -
  obtain cs where a: "sa_elem a = Ptr (elem_block a) 0" "sa_count a = int (length ds)"
    "blocks h (elem_block a) = Some cs" "int (length cs) = sa_max a" "length ds \<le> length cs"
    "take (length ds) cs = map (\<lambda>d. Ref (Ptr old d)) ds"
    using assms(2) by (auto simp: elem_rep_def comp_def)
  let ?h' = "set_block (elem_block a) (map (\<lambda>d. Ref (Ptr new d)) ds @ drop (length ds) cs) h"
  have "fixup_pointers (sa_elem a) (Ptr new 0) (Ptr old 0) (nat (sa_count a)) h = Ok () ?h'"
    unfolding a(1,2) using fixup_pointers_Ok [of h "elem_block a" cs 0 ds old new] a by simp
  moreover have "elem_rep ?h' a (map (\<lambda>d. Ptr new d) ds)"
    using a by (simp add: elem_rep_def comp_def)
  moreover have "elem_step a h a ?h'"
    using assms(1) heap_ok_less [OF assms(1) a(3)]
    by (simp add: elem_step_def heap_ok_set_block frame_set_block)
  ultimately show ?thesis by (simp add: runs_def)
qed

lemma store_elem_rep:
  assumes "heap_ok h" and "elem_rep h a ps" and "sa_count a < sa_max a"
  shows "runs (bnd (store (plus_ptr (sa_elem a) (nat (sa_count a))) (Ref p)) (\<lambda>_.
      ret (a\<lparr>sa_count := sa_count a + 1\<rparr>))) h
    (\<lambda>a' h'. elem_rep h' a' (ps @ [p]) \<and> sa_buffer a' = sa_buffer a \<and> elem_step a h a' h')"
proof -
  obtain cs where a: "sa_elem a = Ptr (elem_block a) 0" "sa_count a = int (length ps)"
    "blocks h (elem_block a) = Some cs" "int (length cs) = sa_max a" "length ps \<le> length cs"
    "take (length ps) cs = map Ref ps"
    using assms(2) by (auto simp: elem_rep_def)
  let ?h' = "set_block (elem_block a) (cs[length ps := Ref p]) h"
  have len: "length ps < length cs" using a(2,4) assms(3) by linarith
  then have "store (plus_ptr (sa_elem a) (nat (sa_count a))) (Ref p) h = Ok () ?h'"
    unfolding a(1,2) using a(3) by simp
  moreover have "elem_rep ?h' (a\<lparr>sa_count := sa_count a + 1\<rparr>) (ps @ [p])"
    using a len by (simp add: elem_rep_def elem_block_def take_Suc_conv_app_nth)
  moreover have "elem_step a h (a\<lparr>sa_count := sa_count a + 1\<rparr>) ?h'"
    using assms(1) heap_ok_less [OF assms(1) a(3)]
    by (simp add: elem_step_def heap_ok_set_block frame_set_block elem_block_def)
  ultimately show ?thesis by (simp add: runs_def)
qed

lemma elem_rep_cong: "elem_rep h a ps \<Longrightarrow> elem_rep h (a\<lparr>sa_buffer := b\<rparr>) ps"
  by (simp add: elem_rep_def elem_block_def)

lemma elem_step_block: "elem_step a h a' h' \<Longrightarrow> elem_block a' = elem_block a \<or> next_block h \<le> elem_block a'"
  by (simp add: elem_step_def)

text \<open>The steps of one append, put together.\<close>

lemma append_pointers_rep:
  assumes "heap_ok h" and "buf_rep h (sa_buffer a) (flat (ss @ [t]))"
    and "elem_rep h a (map (\<lambda>d. Ptr (buf_block (sa_buffer a)) d) (refs_from 0 ss))"
    and "elem_block a \<noteq> buf_block (sa_buffer a)" and "\<forall>s \<in> set (ss @ [t]). NUL \<notin> set s"
    and "length ss < 2 ^ 30"
  shows "runs (bnd (reserve_string_array a 1) (\<lambda>array.
      bnd (store (plus_ptr (sa_elem array) (nat (sa_count array)))
             (Ref (Ptr (buf_block (sa_buffer a)) (length (flat ss))))) (\<lambda>_.
      ret (array\<lparr>sa_count := sa_count array + 1\<rparr>)))) h
    (\<lambda>a' h'. sa_rep h' a' (ss @ [t]) \<and> sa_step a h a' h')"
proof (rule runs_bnd_mono [OF reserve_string_array_rep [OF assms(1,3)]])
  show "length (map (\<lambda>d. Ptr (buf_block (sa_buffer a)) d) (refs_from 0 ss)) < 2 ^ 30"
    using assms(6) by simp
next
  fix a1 h1
  assume "elem_rep h1 a1 (map (\<lambda>d. Ptr (buf_block (sa_buffer a)) d) (refs_from 0 ss)) \<and>
    sa_count a1 < sa_max a1 \<and> sa_buffer a1 = sa_buffer a \<and> elem_step a h a1 h1"
  then have a1: "elem_rep h1 a1 (map (\<lambda>d. Ptr (buf_block (sa_buffer a)) d) (refs_from 0 ss))"
    "sa_count a1 < sa_max a1" "sa_buffer a1 = sa_buffer a" "elem_step a h a1 h1" by simp_all
  then have h1: "heap_ok h1" "frame {elem_block a} h h1" by (simp_all add: elem_step_def)
  have block: "buf_block (sa_buffer a) < next_block h"
    using buf_block_less [OF buf_rep_bytes [OF assms(2)] assms(1)] .
  have ne: "elem_block a1 \<noteq> buf_block (sa_buffer a)"
    using elem_step_block [OF a1(4)] assms(4) block by auto
  have buf: "buf_rep h1 (sa_buffer a) (flat (ss @ [t]))"
    using assms(4) by (intro buf_rep_frame [OF assms(2,1) h1(2)]) simp
  let ?p = "Ptr (buf_block (sa_buffer a)) (length (flat ss))"
  show "runs (bnd (store (plus_ptr (sa_elem a1) (nat (sa_count a1))) (Ref ?p)) (\<lambda>_.
      ret (a1\<lparr>sa_count := sa_count a1 + 1\<rparr>))) h1 (\<lambda>a' h'. sa_rep h' a' (ss @ [t]) \<and> sa_step a h a' h')"
  proof (rule runs_mono [OF store_elem_rep [OF h1(1) a1(1,2)]], elim conjE)
    fix a2 h2
    assume a2: "elem_rep h2 a2 (map (\<lambda>d. Ptr (buf_block (sa_buffer a)) d) (refs_from 0 ss) @ [?p])"
      "sa_buffer a2 = sa_buffer a1" "elem_step a1 h1 a2 h2"
    have h2: "heap_ok h2" "frame {elem_block a1} h1 h2" using a2(3) by (simp_all add: elem_step_def)
    have next_le: "next_block h \<le> next_block h1" using h1(2) by (simp add: frame_def)
    have blk: "elem_block a2 = elem_block a \<or> next_block h \<le> elem_block a2"
      using elem_step_block [OF a1(4)] elem_step_block [OF a2(3)] next_le by auto
    have "buf_rep h2 (sa_buffer a2) (flat (ss @ [t]))"
      using buf_rep_frame [OF buf h1(1) h2(2)] ne a1(3) a2(2) by simp
    moreover have "elem_block a2 \<noteq> buf_block (sa_buffer a2)"
      using blk assms(4) block a1(3) a2(2) by auto
    ultimately have "sa_rep h2 a2 (ss @ [t])"
      using a2(1) assms(5) a1(3) a2(2) unfolding sa_rep_def refs_from_snoc by simp
    moreover have "frame {elem_block a} h h2"
      using h1(2) h2(2) by (rule frame_trans) (use elem_step_block [OF a1(4)] in auto)
    ultimately show "sa_rep h2 a2 (ss @ [t]) \<and> sa_step a h a2 h2"
      using h2(1) blk a1(3) a2(2) by (auto simp: sa_step_def sa_blocks_def intro: frame_mono)
  qed
qed

lemma take_string_len: "take (string_len t) t = cstr t"
  by (induction t) auto

lemma buf_rep_memory: "buf_rep h b s \<Longrightarrow> buf_memory b = Ptr (buf_block b) 0"
  by (simp add: buf_rep_def buf_bytes_def)

lemma buf_rep_used: "buf_rep h b s \<Longrightarrow> unat (buf_used b) = length s"
  by (simp add: buf_rep_def buf_bytes_def)

lemma sa_step_buffer:
  assumes "buf_step (sa_buffer a) h b' h'"
  shows "sa_step a h (a\<lparr>sa_buffer := b'\<rparr>) h'"
  using assms buf_step_block [OF assms] unfolding sa_step_def sa_blocks_def buf_step_def
  by (auto intro: frame_mono simp: elem_block_def)

lemma sa_step_elem:
  assumes "elem_step a h a' h'" and "sa_buffer a' = sa_buffer a"
  shows "sa_step a h a' h'"
  using assms elem_step_block [OF assms(1)] unfolding sa_step_def sa_blocks_def elem_step_def
  by (auto intro: frame_mono)

lemma append_rep:
  assumes "heap_ok h" and "sa_rep h a ss" and "length ss < 2 ^ 30"
    and "length (flat ss) + length (cstr t) + 1 < 2 ^ 63"
  shows "runs (append_string_array a t) h (\<lambda>a' h'. sa_rep h' a' (ss @ [cstr t]) \<and> sa_step a h a' h')"
proof -
  let ?b = "sa_buffer a" and ?s = "cstr t"
  have a: "buf_rep h ?b (flat ss)" "elem_rep h a (map (\<lambda>d. Ptr (buf_block ?b) d) (refs_from 0 ss))"
    "elem_block a \<noteq> buf_block ?b" "\<forall>s \<in> set ss. NUL \<notin> set s"
    using assms(2) by (auto simp: sa_rep_def)
  let ?rest = "\<lambda>buffer. bnd (if buf_memory buffer \<noteq> buf_memory ?b
                 then fixup_pointers (sa_elem a) (buf_memory buffer) (buf_memory ?b) (nat (sa_count a))
                 else ret ()) (\<lambda>_.
            bnd (reserve_string_array (a\<lparr>sa_buffer := buffer\<rparr>) 1) (\<lambda>array.
            bnd (store (plus_ptr (sa_elem array) (nat (sa_count array)))
                   (Ref (plus_ptr (buf_memory buffer) (unat (buf_used ?b))))) (\<lambda>_.
            ret (array\<lparr>sa_count := sa_count array + 1\<rparr>))))"
  let ?Q = "\<lambda>a' h'. sa_rep h' a' (ss @ [?s]) \<and> sa_step a h a' h'"
  have "append_string_array a t
      = bnd (bnd (write_growable_buffer ?b ?s) (\<lambda>b. write_growable_buffer b [NUL])) ?rest"
    by (simp add: append_string_array_def take_string_len bnd_assoc Let_def)
  moreover have "runs (bnd (bnd (write_growable_buffer ?b ?s) (\<lambda>b. write_growable_buffer b [NUL])) ?rest) h ?Q"
  proof (rule runs_bnd_mono [OF write_string_rep [OF assms(1) a(1) assms(4)]], elim conjE)
    fix b2 h2
    assume b2: "buf_rep h2 b2 (flat ss @ ?s @ [NUL])" "buf_step ?b h b2 h2"
    then have h2: "heap_ok h2" "frame {buf_block ?b} h h2" by (simp_all add: buf_step_def)
    let ?a = "a\<lparr>sa_buffer := b2\<rparr>"
    have ne: "elem_block a \<noteq> buf_block b2"
      using buf_step_block [OF b2(2)] a(3) elem_block_less [OF a(2) assms(1)] by auto
    have rep2: "elem_rep h2 a (map (\<lambda>d. Ptr (buf_block ?b) d) (refs_from 0 ss))"
      using a(3) by (intro elem_rep_frame [OF a(2) assms(1) h2(2)]) simp
    have "runs (if buf_memory b2 \<noteq> buf_memory ?b
                 then fixup_pointers (sa_elem a) (buf_memory b2) (buf_memory ?b) (nat (sa_count a))
                 else ret ()) h2
        (\<lambda>_ h'. elem_rep h' a (map (\<lambda>d. Ptr (buf_block b2) d) (refs_from 0 ss)) \<and> elem_step a h2 a h')"
    proof (cases "buf_memory b2 = buf_memory ?b")
      case True
      then show ?thesis using rep2 h2(1) buf_block_eq [OF True] by (simp add: elem_step_def)
    next
      case False
      then show ?thesis
        using fixup_rep [OF h2(1) rep2] buf_rep_memory [OF a(1)] buf_rep_memory [OF b2(1)] by simp
    qed
    then show "runs (?rest b2) h2 ?Q"
    proof (rule runs_bnd_mono, elim conjE)
      fix u h3
      assume h3: "elem_rep h3 a (map (\<lambda>d. Ptr (buf_block b2) d) (refs_from 0 ss))" "elem_step a h2 a h3"
      then have ok: "heap_ok h3" "frame {elem_block a} h2 h3" by (simp_all add: elem_step_def)
      have blocks: "elem_block ?a = elem_block a" by (simp add: elem_block_def)
      have step: "sa_step a h ?a h3"
      proof (rule sa_step_trans)
        show "sa_step a h ?a h2" by (rule sa_step_buffer [OF b2(2)])
        show "sa_step ?a h2 ?a h3"
          using h3(2) by (intro sa_step_elem) (simp_all add: elem_step_def blocks)
      qed
      have "buf_rep h3 b2 (flat (ss @ [?s]))"
        using buf_rep_frame [OF b2(1) h2(1) ok(2)] ne by simp
      then have fin: "runs (bnd (reserve_string_array ?a 1) (\<lambda>array.
          bnd (store (plus_ptr (sa_elem array) (nat (sa_count array)))
            (Ref (Ptr (buf_block (sa_buffer ?a)) (length (flat ss))))) (\<lambda>_.
          ret (array\<lparr>sa_count := sa_count array + 1\<rparr>)))) h3
          (\<lambda>a' h'. sa_rep h' a' (ss @ [?s]) \<and> sa_step ?a h3 a' h')"
        using h3 ok(1) a(4) ne assms(3) cstr_no_NUL [of t]
        by (intro append_pointers_rep) (auto simp: blocks intro: elem_rep_cong)
      have buffer: "sa_buffer ?a = b2" by simp
      show "runs (bnd (reserve_string_array ?a 1) (\<lambda>array.
            bnd (store (plus_ptr (sa_elem array) (nat (sa_count array)))
                   (Ref (plus_ptr (buf_memory b2) (unat (buf_used ?b))))) (\<lambda>_.
            ret (array\<lparr>sa_count := sa_count array + 1\<rparr>)))) h3 ?Q"
        unfolding buf_rep_memory [OF b2(1)] buf_rep_used [OF a(1)] plus_ptr.simps add_0_left
        by (rule runs_mono [OF fin [unfolded buffer]]) (use sa_step_trans [OF step] in simp)
    qed
  qed
  ultimately show ?thesis by simp
qed

subsection \<open>Reading the array back\<close>

lemma sa_rep_count: "sa_rep h a ss \<Longrightarrow> sa_count a = int (length ss)"
  by (simp add: sa_rep_def elem_rep_def)

lemma flat_split: "i < length ss \<Longrightarrow> flat ss = flat (take i ss) @ ss ! i @ NUL # flat (drop (Suc i) ss)"
  by (metis append_take_drop_id Cons_nth_drop_Suc flat_simps(2,3))

lemma get_elem_rep:
  assumes "sa_rep h a ss" and "i < length ss"
  shows "get_elem a i h = Ok (ss ! i) h"
proof -
  obtain cs where buf: "blocks h (buf_block (sa_buffer a)) = Some cs" "take (length (flat ss)) cs = map Byte (flat ss)"
    "length (flat ss) < length cs"
    using assms(1) by (auto simp: sa_rep_def buf_rep_def buf_bytes_def)
  obtain es where es: "sa_elem a = Ptr (elem_block a) 0" "blocks h (elem_block a) = Some es"
    "length ss \<le> length es" "take (length ss) es = map (\<lambda>d. Ref (Ptr (buf_block (sa_buffer a)) d)) (refs_from 0 ss)"
    using assms(1) by (auto simp: sa_rep_def elem_rep_def comp_def)
  let ?off = "length (flat (take i ss))"
  have "es ! i = take (length ss) es ! i" using assms(2) by simp
  also have "\<dots> = Ref (Ptr (buf_block (sa_buffer a)) ?off)"
    using assms(2) es(4) by (simp add: nth_refs_from)
  finally have ref: "load_ref (Ptr (elem_block a) i) h = Ok (Ptr (buf_block (sa_buffer a)) ?off) h"
    using es assms(2) by (intro load_ref_Ok) simp_all
  have split: "flat ss = flat (take i ss) @ ss ! i @ NUL # flat (drop (Suc i) ss)"
    using assms(2) by (rule flat_split)
  have byte: "cs ! k = Byte (flat ss ! k)" if "k < length (flat ss)" for k
    using buf(2) that by (metis nth_map nth_take)
  have len: "?off + length (ss ! i) < length (flat ss)"
    using arg_cong [OF split, of length] by simp
  have "load_cstring (Ptr (buf_block (sa_buffer a)) ?off) h = Ok (ss ! i) h"
  proof (rule load_cstring_Ok [OF buf(1)])
    show "?off + length (ss ! i) < length cs" using len buf(3) by linarith
    show "NUL \<notin> set (ss ! i)" using assms by (simp add: sa_rep_def)
    show "cs ! (?off + j) = Byte (ss ! i ! j)" if "j < length (ss ! i)" for j
      using byte [of "?off + j"] that len split by (simp add: nth_append)
    show "cs ! (?off + length (ss ! i)) = Byte NUL"
      using byte [of "?off + length (ss ! i)"] len split by (simp add: nth_append)
  qed
  then show ?thesis unfolding get_elem_def es(1) using ref by simp
qed

lemma find_index_from_rep:
  assumes "sa_rep h a ss" and "i + n = length ss"
  shows "find_index_from a k i n h = Ok (case find (\<lambda>j. compare_case_insensitive (ss ! j) k) [i..<length ss] of
    Some j \<Rightarrow> int j | None \<Rightarrow> - 1) h"
  using assms
proof (induction n arbitrary: i)
  case (Suc n)
  then have "[i..<length ss] = i # [Suc i..<length ss]"
    by (simp add: upt_conv_Cons)
  then show ?case
    using Suc.IH [of "Suc i"] Suc.prems get_elem_rep [of h a ss i] by simp
qed simp

lemma find_index_rep:
  "sa_rep h a ss \<Longrightarrow> find_index_case_insensitive a k h =
    Ok (case find (\<lambda>j. compare_case_insensitive (ss ! j) k) [0..<length ss] of Some j \<Rightarrow> int j | None \<Rightarrow> - 1) h"
  by (simp add: find_index_case_insensitive_def find_index_from_rep sa_rep_count)

lemma allocate_string_array_rep:
  assumes "heap_ok h"
  shows "runs allocate_string_array h
    (\<lambda>a h'. sa_rep h' a [] \<and> heap_ok h' \<and> frame {} h h' \<and> (\<forall>b \<in> sa_blocks a. next_block h \<le> b))"
  unfolding allocate_string_array_def Let_def
proof (rule runs_bnd, rule runs_allocate_memory [OF assms])
  fix h1
  assume h1: "heap_ok h1" "frame {} h h1" "next_block h < next_block h1"
    "blocks h1 (next_block h) = Some (replicate (unat (of_int 128 * 8 :: 64 word) div 8) Undef)"
  let ?a = "\<lambda>b. \<lparr>sa_count = 0, sa_max = 128, sa_elem = Ptr (next_block h) 0, sa_buffer = b\<rparr>"
  show "runs (bnd allocate_growable_buffer (\<lambda>b. ret (?a b))) h1
    (\<lambda>a h'. sa_rep h' a [] \<and> heap_ok h' \<and> frame {} h h' \<and> (\<forall>b \<in> sa_blocks a. next_block h \<le> b))"
  proof (rule runs_bnd_mono [OF allocate_rep [OF h1(1)]], elim conjE)
    fix b h2
    assume h2: "buf_rep h2 b []" "heap_ok h2" "frame {} h1 h2" "next_block h1 \<le> buf_block b"
    have "blocks h2 (next_block h) = blocks h1 (next_block h)"
      using h2(3) h1(3) by (simp add: frame_def)
    then have "sa_rep h2 (?a b) []"
      using h1(3,4) h2(1,4) by (simp add: sa_rep_def elem_rep_def elem_block_def)
    moreover have "frame {} h h2"
      using h1(2) h2(3) by (rule frame_trans) simp
    ultimately show "runs (ret (?a b)) h2
      (\<lambda>a h'. sa_rep h' a [] \<and> heap_ok h' \<and> frame {} h h' \<and> (\<forall>b \<in> sa_blocks a. next_block h \<le> b))"
      using h2 h1(3) by (simp add: sa_blocks_def elem_block_def)
  qed
qed

subsection \<open>The words of a file\<close>

text \<open>The words of a text: its maximal runs of characters that are neither white space nor NUL.\<close>

definition is_separator :: "char \<Rightarrow> bool" where
  "is_separator c \<longleftrightarrow> is_white c \<or> c = NUL"

function words :: "string \<Rightarrow> string list" where
  "words [] = []"
| "words (c # s) =
     (if is_separator c then words s
      else (c # takeWhile (\<lambda>c. \<not> is_separator c) s) # words (dropWhile (\<lambda>c. \<not> is_separator c) s))"
  by pat_completeness auto
termination
  by (relation "measure length") (auto simp: le_imp_less_Suc length_dropWhile_le)

text \<open>What the two passes compute: white space becomes NUL, then a word starts wherever a NUL (or
  the beginning) is followed by another character.\<close>

definition blanked :: "string \<Rightarrow> string" where
  "blanked s = map (\<lambda>c. if is_white c then NUL else c) s"

fun starts :: "char \<Rightarrow> string \<Rightarrow> string list" where
  "starts prev [] = []"
| "starts prev (c # s) = (if prev = NUL \<and> c \<noteq> NUL then cstr (c # s) # starts c s else starts c s)"

lemma length_blanked [simp]: "length (blanked s) = length s"
  by (simp add: blanked_def)

lemma blanked_Cons [simp]: "blanked (c # s) = (if is_white c then NUL else c) # blanked s"
  by (simp add: blanked_def)

lemma starts_inside: "c \<noteq> NUL \<Longrightarrow> starts c (blanked s) = starts NUL (blanked (dropWhile (\<lambda>c. \<not> is_separator c) s))"
  by (induction s arbitrary: c) (auto simp: is_separator_def blanked_def)

lemma cstr_blanked: "cstr (blanked s) = takeWhile (\<lambda>c. \<not> is_separator c) s"
  by (induction s) (auto simp: is_separator_def blanked_def)

lemma starts_blanked: "starts NUL (blanked s) = words s"
proof (induction s rule: words.induct)
  case (2 c s)
  show ?case
  proof (cases "is_separator c")
    case True
    then show ?thesis using 2 by (auto simp: is_separator_def)
  next
    case False
    then have c: "\<not> is_white c" "c \<noteq> NUL" by (simp_all add: is_separator_def)
    then have "starts NUL (blanked (c # s)) = (c # cstr (blanked s)) # starts c (blanked s)"
      by simp
    then show ?thesis
      using False 2(2) [OF False] by (simp only: cstr_blanked starts_inside [OF c(2)] words.simps if_False)
  qed
qed (simp add: blanked_def)

lemma end_words_Ok:
  assumes "blocks h m = Some cs" and "i + length s \<le> length cs"
    and "take (length s) (drop i cs) = map Byte s"
  shows "end_words (Ptr m i) (length s) h =
    Ok () (set_block m (take i cs @ map Byte (blanked s) @ drop (i + length s) cs) h)"
  using assms
proof (induction s arbitrary: i cs h)
  case Nil
  then show ?case by (simp add: set_block_same blanked_def)
next
  case (Cons c s)
  have nth: "cs ! i = Byte c" and rest: "take (length s) (drop (Suc i) cs) = map Byte s"
    using Cons.prems(2,3) by (simp_all add: Cons_nth_drop_Suc [symmetric])
  have "load_byte (Ptr m i) h = Ok c h"
    using Cons.prems(1,2) nth by (simp add: load_byte_Ok)
  then show ?case
    using Cons.IH [of "set_block m (cs[i := Byte NUL]) h" "cs[i := Byte NUL]" "Suc i"]
      Cons.IH [of h cs "Suc i"] Cons.prems(1,2) rest nth
    by (auto simp: bnd_def take_update_Suc take_Suc_conv_app_nth)
qed

text \<open>The appended words fit, since each is at most as long as the file.\<close>

lemma append_words_rep:
  assumes "heap_ok h" and "sa_rep h a ss" and "blocks h m = Some cs" and "m \<notin> sa_blocks a"
    and "i + length t < length cs" and "\<And>j. j \<le> length t \<Longrightarrow> cs ! (i + j) = Byte ((t @ [NUL]) ! j)"
    and "length ss + length t < 2 ^ 30" and "length (flat ss) + length t * (N + 1) < 2 ^ 63" and "length t \<le> N"
  shows "runs (append_words prev a (Ptr m i) (length t)) h
    (\<lambda>a' h'. sa_rep h' a' (ss @ starts prev t) \<and> sa_step a h a' h')"
  using assms
proof (induction t arbitrary: prev a i h ss)
  case Nil
  then show ?case by (simp add: sa_step_refl)
next
  case (Cons c t)
  have c: "load_byte (Ptr m i) h = Ok c h"
    using Cons.prems(3,5) Cons.prems(6) [of 0] by (intro load_byte_Ok) simp_all
  have suffix: "cs ! (Suc i + j) = Byte ((t @ [NUL]) ! j)" if "j \<le> length t" for j
    using Cons.prems(6) [of "Suc j"] that by simp
  let ?step = "if prev = NUL \<and> c \<noteq> NUL then bnd (load_cstring (Ptr m i)) (append_string_array a) else ret a"
  let ?new = "if prev = NUL \<and> c \<noteq> NUL then [cstr (c # t)] else []"
  have len: "length (cstr (c # t)) \<le> Suc (length t)"
    using length_cstr_le [of "c # t"] by simp
  have "runs ?step h (\<lambda>a' h'. sa_rep h' a' (ss @ ?new) \<and> sa_step a h a' h')"
  proof (cases "prev = NUL \<and> c \<noteq> NUL")
    case True
    have "load_cstring (Ptr m i) h = Ok (cstr (c # t)) h"
    proof (rule load_cstring_Ok [OF Cons.prems(3)])
      show "i + length (cstr (c # t)) < length cs" using Cons.prems(5) len by simp
      have pre: "(c # t) ! j = cstr (c # t) ! j" if "j < length (cstr (c # t))" for j
        using that unfolding cstr_def by (metis takeWhile_nth)
      show "cs ! (i + j) = Byte (cstr (c # t) ! j)" if "j < length (cstr (c # t))" for j
      proof -
        have "j < length (c # t)" using that len by simp
        then have "((c # t) @ [NUL]) ! j = (c # t) ! j" by (simp only: nth_append if_True)
        then show ?thesis using Cons.prems(6) [of j] pre [OF that] \<open>j < length (c # t)\<close> by simp
      qed
      show "cs ! (i + length (cstr (c # t))) = Byte NUL"
        using Cons.prems(6) [of "length (cstr (c # t))"] len nth_length_takeWhile [of "\<lambda>c. c \<noteq> NUL" "c # t"]
        by (auto simp: nth_append cstr_def nth_Cons')
    qed (rule cstr_no_NUL)
    moreover have "runs (append_string_array a (cstr (c # t))) h
        (\<lambda>a' h'. sa_rep h' a' (ss @ [cstr (cstr (c # t))]) \<and> sa_step a h a' h')"
    proof (rule append_rep [OF Cons.prems(1,2)])
      have "N + 1 \<le> length (c # t) * (N + 1)" by simp
      then show "length (flat ss) + length (cstr (cstr (c # t))) + 1 < 2 ^ 63"
        using Cons.prems(8,9) len unfolding cstr_idem by simp
    qed (use Cons.prems(7) in simp)
    ultimately show ?thesis using True by (simp add: runs_def)
  next
    case False
    then show ?thesis unfolding if_not_P [OF False] using Cons.prems(1,2) by (simp add: sa_step_refl)
  qed
  then have "runs (bnd ?step (\<lambda>a. append_words c a (Ptr m (Suc i)) (length t))) h
      (\<lambda>a' h'. sa_rep h' a' (ss @ starts prev (c # t)) \<and> sa_step a h a' h')"
  proof (rule runs_bnd_mono, elim conjE)
    fix a1 h1
    assume h1: "sa_rep h1 a1 (ss @ ?new)" "sa_step a h a1 h1"
    have blk: "blocks h1 m = Some cs"
      using h1(2) Cons.prems(1,3,4) by (auto simp: sa_step_def intro: frame_block)
    have "m \<notin> sa_blocks a1"
      using h1(2) Cons.prems(4) heap_ok_less [OF Cons.prems(1,3)] by (auto simp: sa_step_def)
    moreover have "length (flat (ss @ ?new)) + length t * (N + 1) < 2 ^ 63"
      using Cons.prems(8,9) len by auto
    ultimately have "runs (append_words c a1 (Ptr m (Suc i)) (length t)) h1
        (\<lambda>a' h'. sa_rep h' a' ((ss @ ?new) @ starts c t) \<and> sa_step a1 h1 a' h')"
      using h1 blk Cons.prems(5,7,9) suffix
      by (intro Cons.IH) (auto simp: sa_step_def)
    then show "runs (append_words c a1 (Ptr m (Suc i)) (length t)) h1
        (\<lambda>a' h'. sa_rep h' a' (ss @ starts prev (c # t)) \<and> sa_step a h a' h')"
      by (rule runs_mono) (auto split: if_splits intro: sa_step_trans [OF h1(2)])
  qed
  then show ?case
    using c by (simp add: runs_def)
qed

lemma read_string_array_file_rep:
  assumes "heap_ok h" and "length (file_bytes source) < 2 ^ 29"
  shows "runs (read_string_array_file source) h
    (\<lambda>a h'. sa_rep h' a (words (file_bytes source)) \<and> heap_ok h')"
  unfolding read_string_array_file_def
proof (rule runs_bnd_mono [OF allocate_string_array_rep [OF assms(1)]], elim conjE,
    rule runs_bnd_mono [OF read_entire_file_rep], assumption, goal_cases)
  case 1
  then show ?case using assms(2) by simp
next
  case (2 a h1 b h2)
  let ?s = "file_bytes source" and ?m = "buf_block b"
  from 2 have h2: "buf_rep h2 b ?s" "heap_ok h2" "frame {} h1 h2" "next_block h1 \<le> ?m" by simp_all
  obtain cs where cs: "blocks h2 ?m = Some cs" "length ?s < length cs" "take (length ?s) cs = map Byte ?s"
    "cs ! length ?s = Byte NUL"
    using h2(1) by (auto simp: buf_rep_def buf_bytes_def)
  let ?cs = "map Byte (blanked ?s) @ drop (length ?s) cs"
  let ?h3 = "set_block ?m ?cs h2"
  have ends: "end_words (Ptr ?m 0) (length ?s) h2 = Ok () ?h3"
    using end_words_Ok [of h2 ?m cs 0 ?s] cs by simp
  have old: "blk < next_block h1" if "blk \<in> sa_blocks a" for blk
    using that 2 buf_block_less [OF buf_rep_bytes, of h1 "sa_buffer a" "[]"] elem_block_less [of h1 a "[]"]
    by (auto simp: sa_rep_def sa_blocks_def)
  have m: "?m \<noteq> elem_block a" "?m \<noteq> buf_block (sa_buffer a)"
    using old [of ?m] h2(4) by (auto simp: sa_blocks_def)
  have a: "sa_rep ?h3 a []"
  proof -
    have "frame {} h1 h2" "frame {?m} h2 ?h3" using h2(3) by (simp_all add: frame_set_block)
    then have "frame {?m} h1 ?h3"
      by (intro frame_trans [OF frame_mono [of "{}" h1 h2 "{?m}"]]) auto
    then show ?thesis
      using 2 m unfolding sa_rep_def
      by (auto intro!: buf_rep_frame [of h1 _ _ "{?m}"] elem_rep_frame [of h1 _ _ "{?m}"])
  qed
  have "runs (append_words NUL a (Ptr ?m 0) (length (blanked ?s))) ?h3
      (\<lambda>a' h'. sa_rep h' a' ([] @ starts NUL (blanked ?s)) \<and> sa_step a ?h3 a' h')"
  proof (rule append_words_rep [where N = "length ?s" and cs = ?cs])
    show "heap_ok ?h3"
      using h2(2) heap_ok_less [OF h2(2) cs(1)] by (rule heap_ok_set_block)
    show "?m \<notin> sa_blocks a" using old h2(4) by force
    show "?cs ! (0 + j) = Byte ((blanked ?s @ [NUL]) ! j)" if "j \<le> length (blanked ?s)" for j
      using that cs(2,4) by (auto simp: nth_append le_less)
    have "length ?s * (length ?s + 1) \<le> 2 ^ 29 * 2 ^ 29"
      using assms(2) by (intro mult_le_mono) simp_all
    then show "length (flat []) + length (blanked ?s) * (length ?s + 1) < 2 ^ 63" by simp
  qed (use a cs(2) assms(2) in simp_all)
  then have app: "runs (append_words NUL a (Ptr ?m 0) (length ?s)) ?h3
      (\<lambda>a' h'. sa_rep h' a' (words ?s) \<and> sa_step a ?h3 a' h')"
    by (simp add: starts_blanked)
  show ?case
    unfolding buf_rep_memory [OF h2(1)] buf_rep_used [OF h2(1)]
  proof (rule runs_bnd_Ok)
    show "end_words (Ptr ?m 0) (length ?s) h2 = Ok () ?h3" by (rule ends)
    show "grants ?h3 = grants h2" by simp
    show "runs (bnd (append_words NUL a (Ptr ?m 0) (length ?s)) (\<lambda>result.
        bnd (free_growable_buffer b) (\<lambda>_. ret result))) ?h3 (\<lambda>a h'. sa_rep h' a (words ?s) \<and> heap_ok h')"
    proof (rule runs_bnd_mono [OF app], elim conjE)
      fix a' h4
      assume h4: "sa_rep h4 a' (words ?s)" "sa_step a ?h3 a' h4"
      have m: "?m \<notin> sa_blocks a" "?m < next_block h2"
        using old h2(4) heap_ok_less [OF h2(2) cs(1)] by force+
      then have "blocks h4 ?m = Some ?cs"
        using h4(2) by (auto simp: sa_step_def frame_def)
      then have "free_growable_buffer b h4 = Ok \<lparr>buf_used = 0, buf_max = 0, buf_memory = Null\<rparr> (drop_block ?m h4)"
        by (simp add: free_growable_buffer_def buf_rep_memory [OF h2(1)])
      moreover have "sa_rep (drop_block ?m h4) a' (words ?s)"
      proof -
        have "?m \<notin> sa_blocks a'"
          using h4(2) m by (auto simp: sa_step_def)
        moreover have "heap_ok h4" using h4(2) by (simp add: sa_step_def)
        ultimately show ?thesis
          using h4(1) unfolding sa_rep_def
          by (auto intro!: buf_rep_frame [of h4 _ _ "{?m}"] elem_rep_frame [of h4 _ _ "{?m}"]
              simp: sa_blocks_def frame_drop_block)
      qed
      ultimately show "runs (bnd (free_growable_buffer b) (\<lambda>_. ret a')) h4 (\<lambda>a h'. sa_rep h' a (words ?s) \<and> heap_ok h')"
        using h4(2) by (simp add: runs_def sa_step_def heap_ok_drop_block)
    qed
  qed
qed

subsection \<open>Properties\<close>

text \<open>C7: \<open>append_string_array\<close> appends: whatever blocks have to move, the array afterwards holds
  the earlier strings unchanged and the new one last, its pointers valid, and no block that is
  not its own has changed. It never touches memory out of bounds, and it stops the process only
  if an allocation fails.\<close>

theorem append_string_array_appends:
  assumes "heap_ok h" and "sa_rep h a ss" and "length ss < 2 ^ 30"
    and "length (flat ss) + length (cstr t) + 1 < 2 ^ 63"
  shows "runs (append_string_array a t) h (\<lambda>a' h'. sa_rep h' a' (ss @ [cstr t])
    \<and> (\<forall>i < length (ss @ [cstr t]). get_elem a' i h' = Ok ((ss @ [cstr t]) ! i) h')
    \<and> frame (sa_blocks a) h h' \<and> heap_ok h')"
  using append_rep [OF assms]
  by (rule runs_mono) (simp add: sa_step_def get_elem_rep)

theorem append_string_array_appends_witness:
  "\<exists>a h. allocate_string_array empty_heap = Ok a h
    \<and> (\<exists>a' h'. append_string_array a ''hw1'' h = Ok a' h' \<and> get_elem a' 0 h' = Ok ''hw1'' h')"
proof -
  obtain a h where a: "allocate_string_array empty_heap = Ok a h" "sa_rep h a []" "heap_ok h"
    and g: "\<forall>b n. grants h b n"
    using allocate_string_array_rep [OF empty_heap_ok] empty_heap_grants
    by (auto simp: runs_def split: mres.splits)
  have "runs (append_string_array a ''hw1'') h (\<lambda>a' h'. sa_rep h' a' ([] @ [cstr ''hw1''])
      \<and> (\<forall>i < length ([] @ [cstr ''hw1'']). get_elem a' i h' = Ok (([] @ [cstr ''hw1'']) ! i) h')
      \<and> frame (sa_blocks a) h h' \<and> heap_ok h')"
    using a(2,3) by (intro append_string_array_appends) simp_all
  then show ?thesis using a(1) runs_returns [OF _ g] by fastforce
qed

text \<open>C8: \<open>read_string_array_file\<close> reads the words of a file: the strings of the array it returns
  are the maximal runs of characters that are neither white space nor NUL, in their order. A file
  that cannot be opened has none.\<close>

theorem read_string_array_file_words:
  assumes "heap_ok h" and "length (file_bytes source) < 2 ^ 29"
  shows "runs (read_string_array_file source) h (\<lambda>a h'. sa_count a = int (length (words (file_bytes source)))
    \<and> (\<forall>i < length (words (file_bytes source)). get_elem a i h' = Ok (words (file_bytes source) ! i) h'))"
  using read_string_array_file_rep [OF assms]
  by (rule runs_mono) (auto simp: get_elem_rep dest: sa_rep_count)

theorem read_string_array_file_words_witness:
  "\<exists>a h'. read_string_array_file (Some ''alice\<newline> bob'') empty_heap = Ok a h' \<and> sa_count a = 2
    \<and> get_elem a 1 h' = Ok ''bob'' h'"
proof -
  have words: "words (file_bytes (Some ''alice\<newline> bob'')) = [''alice'', ''bob'']"
    by (simp add: file_bytes_def is_separator_def is_white_def)
  have len: "length (file_bytes (Some ''alice\<newline> bob'')) < 2 ^ 29" by (simp add: file_bytes_def)
  have "runs (read_string_array_file (Some ''alice\<newline> bob'')) empty_heap
      (\<lambda>a h'. sa_count a = 2 \<and> (\<forall>i < 2. get_elem a i h' = Ok ([''alice'', ''bob''] ! i) h'))"
    using read_string_array_file_words [OF empty_heap_ok len] unfolding words by (simp add: numeral_2_eq_2)
  then show ?thesis using runs_returns [OF _ empty_heap_grants] by fastforce
qed

text \<open>\<open>find_index_case_insensitive\<close> returns the first string of the array that equals the
  keyword up to the case of ASCII letters, and -1 if there is none; it changes nothing.\<close>

lemma find_index_first:
  assumes "sa_rep h a ss"
  shows "\<exists>r. find_index_case_insensitive a k h = Ok r h \<and>
    ((r = - 1 \<and> (\<forall>s \<in> set ss. map fold_case s \<noteq> map fold_case (cstr k)))
     \<or> (\<exists>j < length ss. r = int j \<and> map fold_case (ss ! j) = map fold_case (cstr k)
          \<and> (\<forall>l < j. map fold_case (ss ! l) \<noteq> map fold_case (cstr k))))"
proof -
  have eq: "compare_case_insensitive s k \<longleftrightarrow> map fold_case s = map fold_case (cstr k)" if "s \<in> set ss" for s
    using assms that by (simp add: compare_case_insensitive_eq cstr_id sa_rep_def)
  show ?thesis
  proof (cases "find (\<lambda>j. compare_case_insensitive (ss ! j) k) [0..<length ss]")
    case None
    then have "\<forall>s \<in> set ss. \<not> compare_case_insensitive s k"
      unfolding find_None_iff by (auto simp: in_set_conv_nth)
    then show ?thesis
      using find_index_rep [OF assms, of k] eq None by (intro exI [of _ "- 1"]) simp
  next
    case (Some j)
    then have "j < length ss" "compare_case_insensitive (ss ! j) k"
      "\<forall>l < j. \<not> compare_case_insensitive (ss ! l) k"
      by (auto simp: find_Some_iff)
    then show ?thesis
      using find_index_rep [OF assms, of k] eq Some by (intro exI [of _ "int j"]) auto
  qed
qed

end
