(* ===== verification/JsonText.thy ===== *)
theory JsonText imports GrowBuffer begin

text \<open>
  \<open>escape_string\<close> of \<open>code/hand_buffer.c\<close>: the text of a JSON string. The specification is a
  scanner of JSON string bodies (RFC 8259), which \<open>escape_string\<close> is shown to be inverse to, for
  the texts whose control characters have a short escape.
\<close>

definition escape_char :: "char \<Rightarrow> string" where
  "escape_char c =
     (if c = CHR 0x22 then [CHR 0x5C, CHR 0x22]
      else if c = CHR 0x5C then [CHR 0x5C, CHR 0x5C]
      else if c = CHR ''/'' then [CHR 0x5C, CHR ''/'']
      else if c = CHR 0x08 then [CHR 0x5C, CHR ''b'']
      else if c = CHR 0x0C then [CHR 0x5C, CHR ''f'']
      else if c = CHR 0x0A then [CHR 0x5C, CHR ''n'']
      else if c = CHR 0x0D then [CHR 0x5C, CHR ''r'']
      else if c = CHR 0x09 then [CHR 0x5C, CHR ''t'']
      else [c])"

fun escape_loop :: "GrowableBuffer \<Rightarrow> string \<Rightarrow> GrowableBuffer mem" where
  "escape_loop result [] = ret result"
| "escape_loop result (c # s) =
     (if c = NUL then ret result
      else bnd (write_growable_buffer result (escape_char c)) (\<lambda>result. escape_loop result s))"

definition escape_string :: "string \<Rightarrow> GrowableBuffer mem" where
  "escape_string s = bnd allocate_growable_buffer (\<lambda>result. escape_loop result s)"

text \<open>The escaped text as a function of the text.\<close>

definition escape :: "string \<Rightarrow> string" where
  "escape s = concat (map escape_char s)"

lemma escape_simps [simp]: "escape [] = []" "escape (c # s) = escape_char c @ escape s"
  by (simp_all add: escape_def)

lemma escape_append [simp]: "escape (s @ t) = escape s @ escape t"
  by (simp add: escape_def)

lemma length_escape_char: "length (escape_char c) \<le> 2"
  by (simp add: escape_char_def)

lemma length_escape: "length (escape s) \<le> 2 * length s"
  by (induction s) (auto intro: order_trans [OF add_mono [OF length_escape_char]])

lemma escape_loop_pieces:
  "escape_loop b s = write_all write_growable_buffer b (map escape_char (cstr s))"
  by (induction s arbitrary: b) simp_all

lemma escape_string_rep:
  assumes "heap_ok h" and "length (cstr s) < 2 ^ 62"
  shows "runs (escape_string s) h (\<lambda>b h'. buf_rep h' b (escape (cstr s)) \<and> heap_ok h')"
  using grow.build [OF assms(1), of "map escape_char (cstr s)"] assms(2) length_escape [of "cstr s"]
  by (simp add: escape_string_def escape_loop_pieces escape_def)

subsection \<open>JSON string bodies\<close>

text \<open>The body of a JSON string up to its closing quote, and what follows; \<open>None\<close> when it is not
  one: an unknown escape, a bare control character or no closing quote.\<close>

definition short_escape :: "char \<Rightarrow> char option" where
  "short_escape c =
     map_of [(CHR 0x22, CHR 0x22), (CHR 0x5C, CHR 0x5C), (CHR ''/'', CHR ''/''), (CHR ''b'', CHR 0x08),
       (CHR ''f'', CHR 0x0C), (CHR ''n'', CHR 0x0A), (CHR ''r'', CHR 0x0D), (CHR ''t'', CHR 0x09)] c"

fun json_body :: "string \<Rightarrow> (string \<times> string) option" where
  "json_body [] = None"
| "json_body (c # s) =
     (if c = CHR 0x22 then Some ([], s)
      else if c = CHR 0x5C
      then (case s of
              [] \<Rightarrow> None
            | e # s' \<Rightarrow>
                (case short_escape e of
                   None \<Rightarrow> None
                 | Some x \<Rightarrow> map_option (\<lambda>(t, rest). (x # t, rest)) (json_body s')))
      else if code c < 32 then None
      else map_option (\<lambda>(t, rest). (c # t, rest)) (json_body s))"

definition escapable :: "string \<Rightarrow> bool" where
  "escapable s \<longleftrightarrow> (\<forall>c \<in> set s. code c < 32 \<longrightarrow> c \<in> {CHR 0x08, CHR 0x09, CHR 0x0A, CHR 0x0C, CHR 0x0D})"

lemma json_body_escape_char:
  "(code c < 32 \<longrightarrow> c \<in> {CHR 0x08, CHR 0x09, CHR 0x0A, CHR 0x0C, CHR 0x0D}) \<Longrightarrow>
    json_body (escape_char c @ s) = map_option (\<lambda>(t, rest). (c # t, rest)) (json_body s)"
  by (auto simp: escape_char_def short_escape_def)

lemma json_body_escape:
  "escapable s \<Longrightarrow> json_body (escape s @ CHR 0x22 # rest) = Some (s, rest)"
  by (induction s) (simp_all add: escapable_def json_body_escape_char del: json_body.simps(2) add: json_body.simps(2) [of "CHR 0x22"])

text \<open>\<open>escape_string\<close> builds the text of a JSON string: put between quotes it is read back as
  the very string that was escaped, and nothing of it is taken for the closing quote, whatever
  quotes and backslashes the string has. The string must not have control characters without a
  short escape.\<close>

lemma escape_string_read_back:
  assumes "heap_ok h" and "length (cstr s) < 2 ^ 62" and "escapable (cstr s)"
  shows "runs (escape_string s) h (\<lambda>b h'. \<exists>t. buf_rep h' b t \<and> json_body (t @ CHR 0x22 # rest) = Some (cstr s, rest))"
  using escape_string_rep [OF assms(1,2)]
  by (rule runs_mono) (use json_body_escape [OF assms(3)] in blast)

text \<open>Other control characters pass unescaped, and the string is then not a JSON string.\<close>

lemma escape_control_unescaped:
  "json_body (escape [CHR 0x01] @ CHR 0x22 # rest) = None"
  by (simp add: escape_char_def)

end
