(* ===== verification/ConfigLang.thy ===== *)
theory ConfigLang imports CStrings "HOL-Library.More_List" begin

text \<open>
  The configuration file (\<open>code/hand_config.h\<close>, \<open>code/hand_config.c\<close>): the lexer on a buffer that
  need not be NUL-terminated, the ring of four lookahead tokens, the parser of \<open>key = "value"\<close>
  pairs, \<open>load_config\<close>, and the parser of command line arguments.

  The specification reads the file as a list of tokens (\<open>tokens\<close>) and picks the pairs out of it
  (\<open>pairs\<close>). The lemmas show that the ring delivers the tokens in order whatever is peeked, that
  the fuel of the loops is never used up, and so that \<open>load_config\<close> computes the specification.

  Messages (\<open>write_error\<close>) are collected in the order they are written.
\<close>

subsection \<open>Data\<close>

datatype token_type = Token_eof | Token_identifier | Token_equal | Token_string

text \<open>\<open>tok_identifier\<close> is the pointer into the content, as an offset; \<open>None\<close> is NULL.\<close>

record Token =
  tok_type :: token_type
  tok_len :: nat
  tok_identifier :: "nat option"

datatype message =
    String_not_terminated string
  | Unrecognized_char char
  | Unexpected_token string
  | Unrecognized_config string
  | Read_failed
  | Incomplete_config string

record ConfigParser =
  at :: nat
  content_size :: nat
  lookahead_to_read :: nat
  lookahead_to_write :: nat
  lookaheads :: "Token list"
  content :: string
  messages :: "message list"

definition CONFIG_LOOKAHEAD_MASK :: nat where
  "CONFIG_LOOKAHEAD_MASK = 3"

definition g_config_name :: "string list" where
  "g_config_name =
    [''github_access_token'', ''google_api_key'', ''organization'', ''ta_team'', ''student_team'',
     ''feedback_repository'', ''spreadsheet'', ''username_label'', ''student_id_label'', ''email'',
     ''grade_command'', ''grade_thread'', ''score_relative_path'', ''penalty_per_day'', ''weekends_as_one_day'']"

definition Config_one_past_last :: nat where
  "Config_one_past_last = 15"

text \<open>The configuration file that is written when there is none.\<close>

definition g_default_lines :: "string list" where
  "g_default_lines =
    [''# See how to create a GitHub classic personal access token at:'',
     ''# https://docs.github.com/en/authentication/keeping-your-account-and-data-secure/managing-your-personal-access-tokens#creating-a-personal-access-token-classic'',
     ''github_access_token = \"your-github-personal-access-token\"'',
     [],
     ''# See how to create a Google API key at:'',
     ''# https://support.google.com/googleapi/answer/6158862'',
     ''google_api_key = \"your-google-api-key\"'',
     [],
     ''# The course'' @ [CHR 0x27] @ ''s GitHub organization'',
     ''# (https://github.com/<github-organization>)'',
     ''organization = \"github-organization\"'',
     [],
     ''# TA team slug in the GitHub organization'',
     ''# (https://github.com/orgs/<github-organization>/teams/<ta-team-slug>'',
     ''ta_team = \"ta-team-slug\"'',
     [],
     ''# Student team slug in the GitHub organization'',
     ''# (https://github.com/orgs/<github-organization>/teams/<student-team-slug>'',
     ''student_team = \"student-team-slug\"'',
     [],
     ''# Repository that stores feedbacks for students before announcing grades'',
     ''# (https://github.com/<github-organization>/<hw-feedback>)'',
     ''feedback_repository = \"hw-feedback\"'',
     [],
     ''# Google spreadsheet for organizing students'' @ [CHR 0x27] @ '' grades, it must be visible to the public'',
     ''# (https://docs.google.com/spreadsheets/d/<spreadsheet-id>)'',
     ''spreadsheet = \"spreadsheet-id\"'',
     [],
     ''# Label corresponding to GitHub username (labels are the first row in the homework sheet)'',
     ''username_label = \"github_handle\"'',
     [],
     ''# Label corresponding to student id (labels are the first row in the homework sheet)'',
     ''student_id_label = \"student_id\"'',
     [],
     ''# An email linked to your GitHub account, it'' @ [CHR 0x27] @ ''s used to commit feedbacks to <feedback_repository> when grading homework'',
     ''email = \"your@github.email\"'',
     [],
     ''# Command executed under the homework directory for grading'',
     ''grade_command = '' @ [CHR 0x27] @ ''make activate ARGS=\"make autograde\"'' @ [CHR 0x27],
     [],
     ''# Number of threads used for parallel grading'',
     ''grade_thread = \"8\"'',
     [],
     ''# Relative path to the score file, the score file is generated by <grade_command>'',
     ''score_relative_path = \"./test/result/score.txt\"'',
     [],
     ''# Penalty received per day for late submission (in percentage)'',
     ''penalty_per_day = \"15\"'',
     [],
     ''# If not 0, weekends are considered as one day when calculating penalty'',
     ''weekends_as_one_day = \"1\"'']"

definition g_default_config :: string where
  "g_default_config = concat (map (\<lambda>l. l @ [CHR 0x0A]) g_default_lines)"

text \<open>The enum of the keys.\<close>

datatype config_key =
    Config_github_token | Config_google_token | Config_organization | Config_ta_team
  | Config_student_team | Config_feedback_repo | Config_spreadsheet | Config_username_label
  | Config_student_id_label | Config_email | Config_grade_command | Config_grade_thread_count
  | Config_score_relative_path | Config_penalty_per_day | Config_weekends_as_one_day

fun key_index :: "config_key \<Rightarrow> nat" where
  "key_index Config_github_token = 0"
| "key_index Config_google_token = 1"
| "key_index Config_organization = 2"
| "key_index Config_ta_team = 3"
| "key_index Config_student_team = 4"
| "key_index Config_feedback_repo = 5"
| "key_index Config_spreadsheet = 6"
| "key_index Config_username_label = 7"
| "key_index Config_student_id_label = 8"
| "key_index Config_email = 9"
| "key_index Config_grade_command = 10"
| "key_index Config_grade_thread_count = 11"
| "key_index Config_score_relative_path = 12"
| "key_index Config_penalty_per_day = 13"
| "key_index Config_weekends_as_one_day = 14"

text \<open>\<open>config->value\<close>: the 15 strings, \<open>None\<close> for NULL.\<close>

type_synonym Config = "string option list"

subsection \<open>The lexer\<close>

definition peek_char :: "ConfigParser \<Rightarrow> char" where
  "peek_char parser = (if at parser < content_size parser then content parser ! at parser else NUL)"

definition eat_char :: "ConfigParser \<Rightarrow> ConfigParser" where
  "eat_char parser = (if at parser < content_size parser then parser\<lparr>at := at parser + 1\<rparr> else parser)"

lemma eat_char_measure: "peek_char p \<noteq> NUL \<Longrightarrow> content_size (eat_char p) - at (eat_char p) < content_size p - at p"
  by (auto simp: peek_char_def eat_char_def split: if_splits)

function eat_whitespaces_loop :: "bool \<Rightarrow> ConfigParser \<Rightarrow> ConfigParser" where
  "eat_whitespaces_loop in_comment parser =
     (let c = peek_char parser
      in if c = NUL then parser
         else if in_comment
         then eat_whitespaces_loop (if c = CHR 0x0A then False else True) (eat_char parser)
         else if c = CHR ''#'' then eat_whitespaces_loop True (eat_char parser)
         else if c \<noteq> CHR '' '' \<and> c \<noteq> CHR 0x09 \<and> c \<noteq> CHR 0x0D \<and> c \<noteq> CHR 0x0A then parser
         else eat_whitespaces_loop False (eat_char parser))"
  by pat_completeness auto
termination
  by (relation "measure (\<lambda>(_, p). content_size p - at p)") (auto simp: eat_char_measure)

definition eat_whitespaces :: "ConfigParser \<Rightarrow> ConfigParser" where
  "eat_whitespaces parser = eat_whitespaces_loop False parser"

text \<open>The loops of \<open>lex_token\<close> over a string (up to the quote \<open>c0\<close>) and an identifier: the length
  and the parser after them.\<close>

function lex_string_loop :: "char \<Rightarrow> nat \<Rightarrow> ConfigParser \<Rightarrow> nat \<times> ConfigParser" where
  "lex_string_loop c0 len parser =
     (let c = peek_char parser
      in if c = NUL then (len, parser)
         else if c = c0 then (len, parser)
         else lex_string_loop c0 (len + 1) (eat_char parser))"
  by pat_completeness auto
termination
  by (relation "measure (\<lambda>(_, _, p). content_size p - at p)") (auto simp: eat_char_measure)

definition is_letter :: "char \<Rightarrow> bool" where
  "is_letter c \<longleftrightarrow> (code CHR ''A'' \<le> code c \<and> code c \<le> code CHR ''Z'')
     \<or> (code CHR ''a'' \<le> code c \<and> code c \<le> code CHR ''z'')"

definition is_identifier_char :: "char \<Rightarrow> bool" where
  "is_identifier_char c \<longleftrightarrow> is_letter c \<or> is_digit c \<or> c = CHR ''_'' \<or> c = CHR ''.''"

function lex_identifier_loop :: "nat \<Rightarrow> ConfigParser \<Rightarrow> nat \<times> ConfigParser" where
  "lex_identifier_loop len parser =
     (let c = peek_char parser
      in if c = NUL then (len, parser)
         else if is_identifier_char c then lex_identifier_loop (len + 1) (eat_char parser)
         else (len, parser))"
  by pat_completeness auto
termination
  by (relation "measure (\<lambda>(_, p). content_size p - at p)") (auto simp: eat_char_measure)

declare eat_whitespaces_loop.simps [simp del] lex_string_loop.simps [simp del]
  lex_identifier_loop.simps [simp del]

definition write_message :: "message \<Rightarrow> ConfigParser \<Rightarrow> ConfigParser" where
  "write_message m parser = parser\<lparr>messages := messages parser @ [m]\<rparr>"

definition substring :: "string \<Rightarrow> nat \<Rightarrow> nat \<Rightarrow> string" where
  "substring s i len = take len (drop i s)"

definition empty_token :: Token where
  "empty_token = \<lparr>tok_type = Token_eof, tok_len = 0, tok_identifier = None\<rparr>"

definition lex_token :: "ConfigParser \<Rightarrow> Token \<times> ConfigParser" where
  "lex_token parser =
     (let parser = eat_whitespaces parser; c0 = peek_char parser
      in if c0 = NUL then (empty_token, parser)
         else if c0 = CHR ''='' then (empty_token\<lparr>tok_type := Token_equal\<rparr>, eat_char parser)
         else if c0 = CHR 0x22 \<or> c0 = CHR 0x27
         then let parser = eat_char parser;
                  start = at parser;
                  (len, parser) = lex_string_loop c0 0 parser;
                  token = \<lparr>tok_type = Token_string, tok_len = len, tok_identifier = Some start\<rparr>
              in if peek_char parser = NUL
                 then (token, write_message (String_not_terminated
                                (substring (content parser) start (if len < 255 then len else 255))) parser)
                 else (token, eat_char parser)
         else if is_letter c0
         then let start = at parser; (len, parser) = lex_identifier_loop 0 parser
              in (\<lparr>tok_type = Token_identifier, tok_len = len, tok_identifier = Some start\<rparr>, parser)
         else (empty_token, write_message (Unrecognized_char c0) (eat_char parser)))"

subsection \<open>The lookahead ring\<close>

definition peek_step :: "nat \<Rightarrow> ConfigParser \<Rightarrow> ConfigParser" where
  "peek_step offset parser =
     (let index = (lookahead_to_read parser + offset) mod (CONFIG_LOOKAHEAD_MASK + 1)
      in if index = lookahead_to_write parser
         then let (token, parser) = lex_token parser
              in parser\<lparr>lookaheads := (lookaheads parser)[index := token],
                        lookahead_to_write := (lookahead_to_write parser + 1) mod (CONFIG_LOOKAHEAD_MASK + 1)\<rparr>
         else parser)"

text \<open>\<open>& CONFIG_LOOKAHEAD_MASK\<close> is the remainder by 4. The assertion on \<open>lookahead\<close> holds at every call.\<close>

definition peek_token :: "ConfigParser \<Rightarrow> nat \<Rightarrow> Token \<times> ConfigParser" where
  "peek_token parser lookahead =
     (let parser = fold peek_step [0..<lookahead + 1] parser
      in (lookaheads parser ! ((lookahead_to_read parser + lookahead) mod (CONFIG_LOOKAHEAD_MASK + 1)), parser))"

definition eat_token :: "ConfigParser \<Rightarrow> ConfigParser" where
  "eat_token parser =
     (let parser = (if lookahead_to_read parser = lookahead_to_write parser
                    then snd (peek_token parser 0) else parser)
      in parser\<lparr>lookahead_to_read := (lookahead_to_read parser + 1) mod (CONFIG_LOOKAHEAD_MASK + 1)\<rparr>)"

subsection \<open>The parser\<close>

definition token_text :: "ConfigParser \<Rightarrow> Token \<Rightarrow> string" where
  "token_text parser t = (case tok_identifier t of Some i \<Rightarrow> substring (content parser) i (tok_len t) | None \<Rightarrow> [])"

text \<open>The loop of \<open>parse_key_value_pair\<close>, with the number of its rounds bounded by \<open>fuel\<close> (\<open>None\<close>
  when that is used up). The pair is \<open>None\<close> at the end of the input.\<close>

fun parse_key_value_pair :: "nat \<Rightarrow> ConfigParser \<Rightarrow> ((Token \<times> Token) option \<times> ConfigParser) option" where
  "parse_key_value_pair 0 parser = None"
| "parse_key_value_pair (Suc fuel) parser =
     (let (t0, parser) = peek_token parser 0;
          (t1, parser) = peek_token parser 1;
          (t2, parser) = peek_token parser 2
      in if tok_type t0 = Token_eof then Some (None, parser)
         else if tok_type t0 = Token_identifier \<and> tok_type t1 = Token_equal \<and> tok_type t2 = Token_string
         then Some (Some (t0, t2), eat_token (eat_token (eat_token parser)))
         else let parser = (if tok_type t0 = Token_identifier then eat_token parser else parser);
                  parser = (if tok_type t0 = Token_identifier \<and> tok_type t1 = Token_equal
                            then eat_token parser else parser);
                  (t, parser) = peek_token parser 0;
                  parser = write_message (Unexpected_token (take 255 (token_text parser t))) parser
              in parse_key_value_pair fuel (eat_token parser))"

definition init_config_parser :: "string \<Rightarrow> ConfigParser" where
  "init_config_parser s =
     \<lparr>at = 0, content_size = length s, lookahead_to_read = 0, lookahead_to_write = 0,
      lookaheads = replicate 4 empty_token, content = s, messages = []\<rparr>"

subsection \<open>Loading the configuration\<close>

text \<open>The first name the key is a prefix of.\<close>

fun find_config :: "string \<Rightarrow> nat \<Rightarrow> string list \<Rightarrow> nat \<Rightarrow> nat option" where
  "find_config key key_len [] i = None"
| "find_config key key_len (name # names) i =
     (if compare_substring key name key_len then Some i else find_config key key_len names (i + 1))"

text \<open>\<open>key\<close> is read from the content on, as the pointer is; \<open>find_config\<close> looks at \<open>key_len\<close> of it.\<close>

fun load_loop :: "nat \<Rightarrow> nat \<Rightarrow> Config \<Rightarrow> ConfigParser \<Rightarrow> (Config \<times> message list) option" where
  "load_loop fuel 0 config parser = None"
| "load_loop fuel (Suc rounds) config parser =
     (case parse_key_value_pair fuel parser of
        None \<Rightarrow> None
      | Some (None, parser) \<Rightarrow> Some (config, messages parser)
      | Some (Some (k, v), parser) \<Rightarrow>
          (case find_config (drop (the (tok_identifier k)) (content parser)) (tok_len k) g_config_name 0 of
             Some i \<Rightarrow> load_loop fuel rounds (config[i := Some (token_text parser v)]) parser
           | None \<Rightarrow>
               load_loop fuel rounds config
                 (write_message (Unrecognized_config (take 255 (token_text parser k))) parser)))"

definition incomplete :: "Config \<Rightarrow> message list" where
  "incomplete config =
     map (\<lambda>i. Incomplete_config (g_config_name ! i)) [i \<leftarrow> [0..<Config_one_past_last]. config ! i = None]"

text \<open>\<open>source\<close>: the bytes of the file, \<open>None\<close> when it cannot be opened. \<open>fread\<close> of no bytes fails.\<close>

definition load_config :: "string option \<Rightarrow> (Config \<times> bool \<times> message list) option" where
  "load_config source =
     (let config = replicate Config_one_past_last None
      in case (case source of
                 None \<Rightarrow> Some (config, [])
               | Some s \<Rightarrow>
                   if s \<noteq> []
                   then load_loop (Suc (length s)) (Suc (length s)) config (init_config_parser s)
                   else Some (config, [Read_failed])) of
           None \<Rightarrow> None
         | Some (config, ms) \<Rightarrow> Some (config, incomplete config = [], ms @ incomplete config))"

subsection \<open>Command line arguments\<close>

record ArgParser =
  arg_at :: nat
  args :: "string list"

definition init_arg_parser :: "string list \<Rightarrow> ArgParser" where
  "init_arg_parser xs = \<lparr>arg_at = 0, args = xs\<rparr>"

definition next_arg :: "ArgParser \<Rightarrow> string option \<times> ArgParser" where
  "next_arg parser =
     (if arg_at parser < length (args parser)
      then (Some (args parser ! arg_at parser), parser\<lparr>arg_at := arg_at parser + 1\<rparr>)
      else (None, parser))"

definition next_option :: "ArgParser \<Rightarrow> string option \<times> ArgParser" where
  "next_option parser =
     (if arg_at parser < length (args parser)
      then let arg = args parser ! arg_at parser
           in if deref arg = CHR ''-'' then (Some arg, parser\<lparr>arg_at := arg_at parser + 1\<rparr>) else (None, parser)
      else (None, parser))"

end
