(* ===== verification/ConfigSpec.thy ===== *)
theory ConfigSpec imports ConfigLang begin

text \<open>
  What the configuration reader computes: the file as a list of tokens, the pairs among them, and
  the configuration they give. The lemmas lead from the lexer on offsets and the lookahead ring
  to these lists; the properties at the end are about \<open>load_config\<close> itself.
\<close>

subsection \<open>Tokens of a text\<close>

datatype tok = Eof | Ident string | Equal | Str string

fun skip :: "bool \<Rightarrow> string \<Rightarrow> string" where
  "skip in_comment [] = []"
| "skip in_comment (c # s) =
     (if c = NUL then c # s
      else if in_comment then skip (c \<noteq> CHR 0x0A) s
      else if c = CHR ''#'' then skip True s
      else if c \<in> {CHR '' '', CHR 0x09, CHR 0x0D, CHR 0x0A} then skip False s
      else c # s)"

definition at_end :: "string \<Rightarrow> bool" where
  "at_end s \<longleftrightarrow> deref (skip False s) = NUL"

definition lex_tok :: "string \<Rightarrow> tok \<times> string" where
  "lex_tok s =
     (let s = skip False s; c = deref s; s' = tl s
      in if c = NUL then (Eof, s)
         else if c = CHR ''='' then (Equal, s')
         else if c = CHR 0x22 \<or> c = CHR 0x27
         then let body = takeWhile (\<lambda>x. x \<noteq> c \<and> x \<noteq> NUL) s'; s'' = drop (length body) s'
              in (Str body, if deref s'' = NUL then s'' else tl s'')
         else if is_letter c
         then (Ident (takeWhile is_identifier_char s), dropWhile is_identifier_char s)
         else (Eof, s'))"

lemma skip_idem: "skip False (skip b s) = skip b s"
  by (induction b s rule: skip.induct) auto

lemma length_skip: "length (skip b s) \<le> length s"
  by (induction s arbitrary: b) (simp_all add: le_SucI)

lemma is_letter_NUL [simp]: "\<not> is_letter NUL"
  by code_simp

lemma is_identifier_char_NUL [simp]: "\<not> is_identifier_char NUL"
  by code_simp

lemma letter_identifier: "is_letter c \<Longrightarrow> is_identifier_char c"
  by (simp add: is_identifier_char_def)

lemma lex_tok_less: "\<not> at_end s \<Longrightarrow> length (snd (lex_tok s)) < length s"
proof -
  assume "\<not> at_end s"
  then obtain c s' where s: "skip False s = c # s'" "c \<noteq> NUL"
    unfolding at_end_def by (cases "skip False s") auto
  have "length s' < length s" using length_skip [of False s] s(1) by simp
  moreover have "length (snd (lex_tok s)) \<le> length s'"
    using s letter_identifier [of c] length_dropWhile_le [of is_identifier_char s']
    by (auto simp: lex_tok_def Let_def)
  ultimately show ?thesis by simp
qed

function tokens :: "string \<Rightarrow> tok list" where
  "tokens s = (if at_end s then [] else fst (lex_tok s) # tokens (snd (lex_tok s)))"
  by pat_completeness auto
termination
  by (relation "measure length") (auto simp: lex_tok_less)

declare tokens.simps [simp del]

lemma length_tokens: "length (tokens s) \<le> length s"
proof (induction s rule: tokens.induct)
  case (1 s)
  then show ?case
    using lex_tok_less [of s] by (subst tokens.simps) auto
qed

fun lex_nth :: "string \<Rightarrow> nat \<Rightarrow> tok" where
  "lex_nth s 0 = fst (lex_tok s)"
| "lex_nth s (Suc k) = lex_nth (snd (lex_tok s)) k"

lemma lex_tok_end: "at_end s \<Longrightarrow> lex_tok s = (Eof, skip False s)"
  by (simp add: at_end_def lex_tok_def Let_def)

lemma at_end_skip [simp]: "at_end (skip False s) \<longleftrightarrow> at_end s"
  by (simp add: at_end_def skip_idem)

lemma lex_nth_end: "at_end s \<Longrightarrow> lex_nth s k = Eof"
  by (induction k arbitrary: s) (simp_all add: lex_tok_end)

text \<open>After the last token come end-of-file tokens for ever.\<close>

lemma lex_nth_tokens: "lex_nth s k = nth_default Eof (tokens s) k"
proof (induction k arbitrary: s)
  case 0
  then show ?case by (subst tokens.simps) (simp add: lex_tok_end)
next
  case (Suc k)
  show ?case
  proof (cases "at_end s")
    case True
    then show ?thesis by (simp only: lex_nth_end tokens.simps [of s] if_True nth_default_Nil)
  next
    case False
    then show ?thesis by (subst tokens.simps) (simp add: Suc.IH)
  qed
qed

subsection \<open>The pairs among the tokens\<close>

text \<open>
  A pair is an identifier, an equals sign and a string. Anything else is skipped: a token that is
  not an identifier; an identifier with the token after it, and with the equals sign between them.
  A token of an unrecognized character looks like the end of the file and ends the pairs when it
  comes first.
\<close>

fun pairs :: "tok list \<Rightarrow> (string \<times> string) list" where
  "pairs [] = []"
| "pairs (Eof # ts) = []"
| "pairs (Ident k # Equal # Str v # ts) = (k, v) # pairs ts"
| "pairs (Ident k # Equal # ts) = pairs (tl ts)"
| "pairs (Ident k # ts) = pairs (tl ts)"
| "pairs (t # ts) = pairs ts"

definition find_key :: "string \<Rightarrow> nat option" where
  "find_key k = find (\<lambda>i. prefix k (g_config_name ! i)) [0..<Config_one_past_last]"

text \<open>The keys in the order of their enum, in which \<open>find_config\<close> tries them.\<close>

lemma key_index_inj: "key_index k = key_index l \<Longrightarrow> k = l"
  by (cases k; cases l) simp_all

instantiation config_key :: linorder
begin

definition less_eq_config_key :: "config_key \<Rightarrow> config_key \<Rightarrow> bool" where
  "less_eq_config_key k l = (key_index k \<le> key_index l)"

definition less_config_key :: "config_key \<Rightarrow> config_key \<Rightarrow> bool" where
  "less_config_key k l = (key_index k < key_index l)"

instance
  by standard (auto simp: less_eq_config_key_def less_config_key_def intro: key_index_inj)

end

definition config_name :: "config_key \<Rightarrow> string" where
  "config_name k = g_config_name ! key_index k"

lemma key_index_less: "key_index k < Config_one_past_last"
  by (cases k) (simp_all add: Config_one_past_last_def)

text \<open>A prefix of several names stands for the first key of the enum among them.\<close>

lemma find_key_least:
  assumes "find_key s = Some (key_index k)"
  shows "prefix s (config_name k)" and "prefix s (config_name l) \<Longrightarrow> k \<le> l"
proof -
  show "prefix s (config_name k)"
    using assms by (auto simp: find_key_def config_name_def find_Some_iff)
  show "prefix s (config_name l) \<Longrightarrow> k \<le> l"
    using assms key_index_less [of l]
    by (auto simp: find_key_def config_name_def find_Some_iff less_eq_config_key_def not_less [symmetric])
qed

definition set_pair :: "string \<times> string \<Rightarrow> Config \<Rightarrow> Config" where
  "set_pair kv config = (case find_key (fst kv) of Some i \<Rightarrow> config[i := Some (snd kv)] | None \<Rightarrow> config)"

definition config_of :: "string \<Rightarrow> Config" where
  "config_of s = fold set_pair (pairs (tokens s)) (replicate Config_one_past_last None)"

subsection \<open>The lexer on offsets\<close>

definition rest :: "ConfigParser \<Rightarrow> string" where
  "rest p = drop (at p) (content p)"

text \<open>\<open>moved p p'\<close>: only the position and the messages changed, and the position moved forward.\<close>

definition ok :: "ConfigParser \<Rightarrow> bool" where
  "ok p \<longleftrightarrow> content_size p = length (content p) \<and> at p \<le> length (content p)"

definition moved :: "ConfigParser \<Rightarrow> ConfigParser \<Rightarrow> bool" where
  "moved p p' \<longleftrightarrow> ok p' \<and> content p' = content p \<and> lookaheads p' = lookaheads p
     \<and> lookahead_to_read p' = lookahead_to_read p \<and> lookahead_to_write p' = lookahead_to_write p"

lemma moved_refl: "ok p \<Longrightarrow> moved p p"
  by (simp add: moved_def)

lemma moved_trans: "moved p p' \<Longrightarrow> moved p' p'' \<Longrightarrow> moved p p''"
  by (simp add: moved_def)

lemma moved_ok: "moved p p' \<Longrightarrow> ok p'"
  by (simp add: moved_def)

lemma peek_char_rest: "ok p \<Longrightarrow> peek_char p = deref (rest p)"
  by (auto simp: ok_def peek_char_def rest_def Cons_nth_drop_Suc [symmetric] drop_all)

lemma eat_char_rest: "ok p \<Longrightarrow> rest (eat_char p) = tl (rest p)"
  by (auto simp: ok_def eat_char_def rest_def tl_drop drop_Suc)

lemma eat_char_moved: "ok p \<Longrightarrow> moved p (eat_char p)"
  by (auto simp: ok_def eat_char_def moved_def)

lemma write_message_moved: "ok p \<Longrightarrow> moved p (write_message m p) \<and> rest (write_message m p) = rest p"
  by (simp add: ok_def write_message_def moved_def rest_def)

lemma at_eat_char: "ok p \<Longrightarrow> peek_char p \<noteq> NUL \<Longrightarrow> at (eat_char p) = at p + 1"
  by (simp add: peek_char_def eat_char_def split: if_splits)

lemma eat_rest:
  assumes "ok p" and "rest p = c # s"
  shows "peek_char p = c" and "ok (eat_char p)" and "rest (eat_char p) = s" and "moved p (eat_char p)"
  using assms eat_char_moved [OF assms(1)] eat_char_rest [OF assms(1)] peek_char_rest [OF assms(1)]
  by (simp_all add: moved_def)

lemma eat_whitespaces_loop_rest:
  "ok p \<Longrightarrow> rest p = s \<Longrightarrow> moved p (eat_whitespaces_loop b p) \<and> rest (eat_whitespaces_loop b p) = skip b s"
proof (induction s arbitrary: b p)
  case Nil
  then show ?case
    by (subst (1 2) eat_whitespaces_loop.simps) (simp add: peek_char_rest moved_refl)
next
  case (Cons c s)
  note eat = eat_rest [OF Cons.prems]
  have ih: "moved p (eat_whitespaces_loop b (eat_char p)) \<and> rest (eat_whitespaces_loop b (eat_char p)) = skip b s" for b
    using Cons.IH [OF eat(2,3), of b] moved_trans [OF eat(4)] by blast
  have "eat_whitespaces_loop b p =
      (if c = NUL then p
       else if b then eat_whitespaces_loop (c \<noteq> CHR 0x0A) (eat_char p)
       else if c = CHR ''#'' then eat_whitespaces_loop True (eat_char p)
       else if c \<in> {CHR '' '', CHR 0x09, CHR 0x0D, CHR 0x0A} then eat_whitespaces_loop False (eat_char p)
       else p)"
    by (subst eat_whitespaces_loop.simps) (simp add: eat(1))
  then show ?case
    using ih Cons.prems by (simp add: moved_refl)
qed

lemma eat_whitespaces_rest: "ok p \<Longrightarrow> moved p (eat_whitespaces p) \<and> rest (eat_whitespaces p) = skip False (rest p)"
  by (simp add: eat_whitespaces_def eat_whitespaces_loop_rest)

lemma lex_string_loop_rest:
  "\<lbrakk>ok p; rest p = s; lex_string_loop c0 len p = (len', p')\<rbrakk> \<Longrightarrow>
    moved p p' \<and> len' = len + length (takeWhile (\<lambda>x. x \<noteq> c0 \<and> x \<noteq> NUL) s)
    \<and> rest p' = dropWhile (\<lambda>x. x \<noteq> c0 \<and> x \<noteq> NUL) s"
proof (induction s arbitrary: p len)
  case Nil
  then show ?case
    by (subst (asm) lex_string_loop.simps) (simp add: peek_char_rest moved_refl)
next
  case (Cons c s)
  note eat = eat_rest [OF Cons.prems(1,2)]
  show ?case
  proof (cases "c = NUL \<or> c = c0")
    case True
    then show ?thesis
      using Cons.prems by (subst (asm) lex_string_loop.simps) (auto simp: eat(1) moved_refl split: if_splits)
  next
    case False
    then have "lex_string_loop c0 (len + 1) (eat_char p) = (len', p')"
      using Cons.prems(3) by (subst (asm) lex_string_loop.simps) (simp add: eat(1))
    from Cons.IH [OF eat(2,3) this] show ?thesis
      using False moved_trans [OF eat(4)] by auto
  qed
qed

lemma lex_identifier_loop_rest:
  "\<lbrakk>ok p; rest p = s; lex_identifier_loop len p = (len', p')\<rbrakk> \<Longrightarrow>
    moved p p' \<and> len' = len + length (takeWhile is_identifier_char s)
    \<and> rest p' = dropWhile is_identifier_char s"
proof (induction s arbitrary: p len)
  case Nil
  then show ?case
    by (subst (asm) lex_identifier_loop.simps) (simp add: peek_char_rest moved_refl)
next
  case (Cons c s)
  note eat = eat_rest [OF Cons.prems(1,2)]
  show ?case
  proof (cases "is_identifier_char c")
    case False
    then show ?thesis
      using Cons.prems by (subst (asm) lex_identifier_loop.simps) (auto simp: eat(1) moved_refl split: if_splits)
  next
    case True
    then have "c \<noteq> NUL" by auto
    then have "lex_identifier_loop (len + 1) (eat_char p) = (len', p')"
      using Cons.prems(3) True by (subst (asm) lex_identifier_loop.simps) (simp add: eat(1))
    from Cons.IH [OF eat(2,3) this] show ?thesis
      using True moved_trans [OF eat(4)] by auto
  qed
qed

text \<open>The token a \<open>Token\<close> record stands for in the content \<open>s\<close>.\<close>

definition text_at :: "string \<Rightarrow> Token \<Rightarrow> string" where
  "text_at s t = (case tok_identifier t of Some i \<Rightarrow> substring s i (tok_len t) | None \<Rightarrow> [])"

definition denote :: "string \<Rightarrow> Token \<Rightarrow> tok" where
  "denote s t =
     (case tok_type t of
        Token_eof \<Rightarrow> Eof
      | Token_identifier \<Rightarrow> Ident (text_at s t)
      | Token_equal \<Rightarrow> Equal
      | Token_string \<Rightarrow> Str (text_at s t))"

lemma token_text_at: "token_text p t = text_at (content p) t"
  by (simp add: token_text_def text_at_def)

text \<open>The text of an identifier or a string lies in the content.\<close>

definition token_ok :: "string \<Rightarrow> Token \<Rightarrow> bool" where
  "token_ok s t \<longleftrightarrow> (tok_type t = Token_identifier \<longrightarrow>
     (\<exists>i. tok_identifier t = Some i \<and> i + tok_len t \<le> length s \<and> NUL \<notin> set (text_at s t)))"

lemma takeWhile_take: "take (length (takeWhile P s)) s = takeWhile P s"
  by (induction s) auto

lemma lex_token_rest:
  assumes "ok p" and "lex_token p = (t, p')"
  shows "moved p p' \<and> denote (content p) t = fst (lex_tok (rest p)) \<and> rest p' = snd (lex_tok (rest p))
    \<and> token_ok (content p) t"
proof -
  let ?p = "eat_whitespaces p" and ?s = "skip False (rest p)"
  have p: "moved p ?p" "rest ?p = ?s" using eat_whitespaces_rest [OF assms(1)] by simp_all
  then have okp: "ok ?p" by (simp add: moved_def)
  have cont: "content ?p = content p" using p(1) by (simp add: moved_def)
  have peek: "peek_char ?p = deref ?s" using peek_char_rest [OF okp] p(2) by simp
  consider (eof) "deref ?s = NUL" | (eq) s' where "?s = CHR ''='' # s'"
    | (str) c s' where "?s = c # s'" "c = CHR 0x22 \<or> c = CHR 0x27"
    | (ident) c s' where "?s = c # s'" "is_letter c" "c \<noteq> CHR ''=''" "c \<noteq> CHR 0x22" "c \<noteq> CHR 0x27" "c \<noteq> NUL"
    | (other) c s' where "?s = c # s'" "\<not> is_letter c" "c \<noteq> CHR ''=''" "c \<noteq> CHR 0x22" "c \<noteq> CHR 0x27" "c \<noteq> NUL"
    by (cases ?s) auto
  then show ?thesis
  proof cases
    case eof
    then show ?thesis
      using assms(2) p peek by (auto simp: lex_token_def lex_tok_def denote_def empty_token_def token_ok_def)
  next
    case eq
    note eat = eat_rest [OF okp p(2) [unfolded eq]]
    show ?thesis
      using assms(2) eq eat moved_trans [OF p(1) eat(4)]
      by (auto simp: lex_token_def lex_tok_def denote_def empty_token_def token_ok_def)
  next
    case (str c s')
    note eat = eat_rest [OF okp p(2) [unfolded str(1)]]
    let ?body = "takeWhile (\<lambda>x. x \<noteq> c \<and> x \<noteq> NUL) s'"
    obtain len q where q: "lex_string_loop c 0 (eat_char ?p) = (len, q)" by fastforce
    then have lq: "moved (eat_char ?p) q" "len = length ?body" "rest q = drop (length ?body) s'"
      using lex_string_loop_rest [OF eat(2,3) q] by (simp_all add: dropWhile_eq_drop)
    have body: "substring (content p) (at (eat_char ?p)) len = ?body"
      using eat(3,4) lq(2) cont by (simp add: substring_def rest_def moved_def takeWhile_take)
    have moved: "moved p q" using moved_trans [OF p(1) moved_trans [OF eat(4) lq(1)]] .
    have lex: "lex_tok (rest p) = (Str ?body, if deref (rest q) = NUL then rest q else tl (rest q))"
      using str lq(3) by (auto simp: lex_tok_def Let_def)
    have tok: "lex_token p = (\<lparr>tok_type = Token_string, tok_len = len, tok_identifier = Some (at (eat_char ?p))\<rparr>,
        if peek_char q = NUL
        then write_message (String_not_terminated
          (substring (content q) (at (eat_char ?p)) (if len < 255 then len else 255))) q
        else eat_char q)"
      using str peek q by (auto simp: lex_token_def Let_def)
    have okq: "ok q" using moved by (simp add: moved_def)
    show ?thesis
      using assms(2) tok lex body moved peek_char_rest [OF okq] write_message_moved [OF okq] eat_char_rest [OF okq]
        moved_trans [OF moved] eat_char_moved [OF okq]
      by (auto simp: denote_def text_at_def token_ok_def)
  next
    case (ident c s')
    obtain len q where q: "lex_identifier_loop 0 ?p = (len, q)" by fastforce
    then have lq: "moved ?p q" "len = length (takeWhile is_identifier_char ?s)" "rest q = dropWhile is_identifier_char ?s"
      using lex_identifier_loop_rest [OF okp p(2) q] by simp_all
    have body: "substring (content p) (at ?p) len = takeWhile is_identifier_char ?s"
      using p(2) lq(2) cont by (simp add: substring_def rest_def takeWhile_take)
    have "len \<le> length ?s" using lq(2) length_takeWhile_le by metis
    moreover have "length ?s = length (content p) - at ?p"
      using p(2) cont by (metis length_drop rest_def)
    ultimately have fits: "at ?p + len \<le> length (content p)"
      using okp [unfolded ok_def cont] by linarith
    have "NUL \<notin> set (takeWhile is_identifier_char ?s)"
      by (metis is_identifier_char_NUL set_takeWhileD)
    moreover have "lex_token p = (\<lparr>tok_type = Token_identifier, tok_len = len, tok_identifier = Some (at ?p)\<rparr>, q)"
      using ident peek q by (simp add: lex_token_def Let_def)
    ultimately show ?thesis
      using assms(2) ident lq(3) body moved_trans [OF p(1) lq(1)] fits
      by (simp add: denote_def text_at_def token_ok_def lex_tok_def Let_def)
  next
    case (other c s')
    note eat = eat_rest [OF okp p(2) [unfolded other(1)]]
    show ?thesis
      using assms(2) other eat moved_trans [OF p(1) eat(4)] write_message_moved [OF eat(2)]
        moved_trans [OF moved_trans [OF p(1) eat(4)]]
      by (auto simp: lex_token_def lex_tok_def denote_def empty_token_def token_ok_def Let_def)
  qed
qed

subsection \<open>The ring\<close>

text \<open>
  \<open>ring_rep s p c f\<close>: the parser \<open>p\<close> on the content \<open>s\<close> has \<open>c\<close> tokens in the ring, and \<open>f k\<close>
  is the token that comes \<open>k\<close> tokens after the one to be read next.
\<close>

definition ring_rep :: "string \<Rightarrow> ConfigParser \<Rightarrow> nat \<Rightarrow> (nat \<Rightarrow> tok) \<Rightarrow> bool" where
  "ring_rep s p c f \<longleftrightarrow> ok p \<and> content p = s \<and> length (lookaheads p) = 4 \<and> c \<le> 3
     \<and> lookahead_to_read p < 4 \<and> lookahead_to_write p = (lookahead_to_read p + c) mod 4
     \<and> (\<forall>k < c. denote s (lookaheads p ! ((lookahead_to_read p + k) mod 4)) = f k
           \<and> token_ok s (lookaheads p ! ((lookahead_to_read p + k) mod 4)))
     \<and> (\<forall>k. lex_nth (rest p) k = f (c + k))"

lemma ring_index_less: "k < c \<Longrightarrow> c \<le> 3 \<Longrightarrow> (r + k) mod 4 \<noteq> (r + c) mod (4 :: nat)"
  using mod_eq_dvd_iff_nat [of "r + k" "r + c" 4] dvd_imp_le [of 4 "c - k"] by auto

lemma ring_index: "k \<le> 3 \<Longrightarrow> c \<le> 3 \<Longrightarrow> (r + k) mod 4 = (r + c) mod 4 \<longleftrightarrow> k = (c :: nat)"
  using ring_index_less [of k c r] ring_index_less [of c k r] by (metis linorder_neqE_nat)

lemma peek_step_ring:
  assumes "ring_rep s p c f" and "k \<le> c" and "k \<le> 2"
  shows "\<exists>c' > k. ring_rep s (peek_step k p) c' f \<and> lookahead_to_read (peek_step k p) = lookahead_to_read p"
proof (cases "k = c")
  case False
  then have "(lookahead_to_read p + k) mod 4 \<noteq> lookahead_to_write p"
    using assms ring_index [of k c "lookahead_to_read p"] by (auto simp: ring_rep_def)
  then show ?thesis
    using assms False by (intro exI [of _ c]) (simp add: peek_step_def CONFIG_LOOKAHEAD_MASK_def)
next
  case True
  obtain t q where q: "lex_token p = (t, q)" by fastforce
  have r: "ok p" "content p = s" "length (lookaheads p) = 4" "lookahead_to_read p < 4"
    "lookahead_to_write p = (lookahead_to_read p + c) mod 4"
    "\<forall>k. lex_nth (rest p) k = f (c + k)"
    "\<forall>k < c. denote s (lookaheads p ! ((lookahead_to_read p + k) mod 4)) = f k
       \<and> token_ok s (lookaheads p ! ((lookahead_to_read p + k) mod 4))"
    using assms(1) by (simp_all add: ring_rep_def)
  have lex: "moved p q" "denote s t = fst (lex_tok (rest p))" "rest q = snd (lex_tok (rest p))" "token_ok s t"
    using lex_token_rest [OF r(1) q] r(2) by simp_all
  let ?i = "(lookahead_to_read p + c) mod 4"
  let ?p = "q\<lparr>lookaheads := (lookaheads q)[?i := t], lookahead_to_write := (lookahead_to_write q + 1) mod 4\<rparr>"
  have step: "peek_step k p = ?p"
    using True r(5) q by (simp add: peek_step_def CONFIG_LOOKAHEAD_MASK_def Let_def)
  have keep: "lookaheads q = lookaheads p" "lookahead_to_read q = lookahead_to_read p"
    "lookahead_to_write q = lookahead_to_write p" "content q = s"
    using lex(1) r(2) by (simp_all add: moved_def)
  have "f c = fst (lex_tok (rest p))" using r(6) [rule_format, of 0] by simp
  moreover have "lex_nth (rest ?p) j = f (Suc c + j)" for j
    using r(6) [rule_format, of "Suc j"] lex(3) by (simp add: rest_def)
  moreover have "lookaheads ?p ! ((lookahead_to_read p + j) mod 4)
      = (if j = c then t else lookaheads p ! ((lookahead_to_read p + j) mod 4))" if "j \<le> c" for j
    using that ring_index [of j c "lookahead_to_read p"] assms(2,3) True r(3) keep(1) by auto
  moreover have "(lookahead_to_write q + 1) mod 4 = (lookahead_to_read p + Suc c) mod 4"
    using r(5) keep(3) by (simp add: mod_Suc_eq)
  ultimately have "ring_rep s ?p (Suc c) f"
    using r keep lex assms(2,3) True
    by (simp add: ring_rep_def moved_def ok_def less_Suc_eq_le le_less)
  then show ?thesis
    using True step keep(2) by (intro exI [of _ "Suc c"]) simp
qed

lemma peek_steps_ring:
  assumes "ring_rep s p c f" and "n \<le> 3"
  shows "\<exists>c' \<ge> n. ring_rep s (fold peek_step [0..<n] p) c' f
    \<and> lookahead_to_read (fold peek_step [0..<n] p) = lookahead_to_read p"
  using assms
proof (induction n)
  case (Suc n)
  then obtain c' where c': "c' \<ge> n" "ring_rep s (fold peek_step [0..<n] p) c' f"
    "lookahead_to_read (fold peek_step [0..<n] p) = lookahead_to_read p"
    by auto
  then obtain c'' where c'': "c'' > n" "ring_rep s (peek_step n (fold peek_step [0..<n] p)) c'' f"
    "lookahead_to_read (peek_step n (fold peek_step [0..<n] p)) = lookahead_to_read p"
    using peek_step_ring [OF c'(2,1)] Suc.prems(2) by auto
  have "fold peek_step [0..<Suc n] p = peek_step n (fold peek_step [0..<n] p)" by simp
  then show ?case using c'' by (metis Suc_leI)
qed auto

lemma peek_token_ring:
  assumes "ring_rep s p c f" and "k \<le> 2" and "peek_token p k = (t, p')"
  shows "\<exists>c' > k. ring_rep s p' c' f \<and> denote s t = f k \<and> token_ok s t"
proof -
  let ?p = "fold peek_step [0..<k + 1] p"
  obtain c' where c': "c' \<ge> k + 1" "ring_rep s ?p c' f" "lookahead_to_read ?p = lookahead_to_read p"
    using peek_steps_ring [OF assms(1), of "k + 1"] assms(2) by auto
  have mask: "CONFIG_LOOKAHEAD_MASK + 1 = 4" by (simp add: CONFIG_LOOKAHEAD_MASK_def)
  have "t = lookaheads ?p ! ((lookahead_to_read ?p + k) mod 4) \<and> p' = ?p"
    using assms(3) unfolding peek_token_def Let_def mask by (elim Pair_inject) (intro conjI; erule sym)
  moreover have "k < c'" using c'(1) by simp
  moreover from this have "denote s (lookaheads ?p ! ((lookahead_to_read ?p + k) mod 4)) = f k
      \<and> token_ok s (lookaheads ?p ! ((lookahead_to_read ?p + k) mod 4))"
    using c'(2) unfolding ring_rep_def by blast
  ultimately show ?thesis using c'(2) by metis
qed

lemma eat_token_ring:
  assumes "ring_rep s p c f"
  shows "\<exists>c'. ring_rep s (eat_token p) c' (\<lambda>k. f (Suc k))"
proof -
  have shift: "\<exists>c'. ring_rep s (q\<lparr>lookahead_to_read := (lookahead_to_read q + 1) mod 4\<rparr>) c' (\<lambda>k. f (Suc k))"
    if q: "ring_rep s q c'' f" "0 < c''" for q c''
  proof -
    let ?q = "q\<lparr>lookahead_to_read := (lookahead_to_read q + 1) mod 4\<rparr>"
    have ix: "((lookahead_to_read q + 1) mod 4 + k) mod 4 = (lookahead_to_read q + Suc k) mod 4" for k
      by (simp add: mod_add_left_eq)
    have entries: "denote s (lookaheads q ! ((lookahead_to_read q + Suc k) mod 4)) = f (Suc k)
        \<and> token_ok s (lookaheads q ! ((lookahead_to_read q + Suc k) mod 4))" if "k < c'' - 1" for k
      using q that unfolding ring_rep_def by (elim conjE allE [of _ "Suc k"]) linarith
    have "lex_nth (rest q) k = f (Suc (c'' - 1 + k))" for k
      using q by (simp add: ring_rep_def)
    moreover have "rest ?q = rest q" "ok ?q" "content ?q = s" "lookaheads ?q = lookaheads q" "length (lookaheads q) = 4"
      "lookahead_to_write q = (lookahead_to_read q + Suc (c'' - 1)) mod 4" "c'' \<le> 3"
      using q by (auto simp: ring_rep_def ok_def rest_def)
    ultimately show ?thesis
      using entries ix by (intro exI [of _ "c'' - 1"]) (simp add: ring_rep_def)
  qed
  show ?thesis
  proof (cases "lookahead_to_read p = lookahead_to_write p")
    case True
    obtain t q where q: "peek_token p 0 = (t, q)" by fastforce
    then obtain c' where "0 < c'" "ring_rep s q c' f"
      using peek_token_ring [OF assms _ q] by auto
    then show ?thesis
      using shift True q by (simp add: eat_token_def CONFIG_LOOKAHEAD_MASK_def)
  next
    case False
    have "lookahead_to_read p < 4" "lookahead_to_write p = (lookahead_to_read p + c) mod 4"
      using assms by (simp_all add: ring_rep_def)
    then have "0 < c" using False by (cases c) simp_all
    then show ?thesis
      using shift [OF assms] False by (simp add: eat_token_def CONFIG_LOOKAHEAD_MASK_def)
  qed
qed

subsection \<open>The parser on the token list\<close>

definition reads :: "string \<Rightarrow> ConfigParser \<Rightarrow> tok list \<Rightarrow> bool" where
  "reads s p ts \<longleftrightarrow> (\<exists>c. ring_rep s p c (nth_default Eof ts))"

lemma nth_default_tl: "nth_default d (tl xs) k = nth_default d xs (Suc k)"
  by (cases xs) simp_all

lemma reads_peek:
  assumes "reads s p ts" and "k \<le> 2" and "peek_token p k = (t, p')"
  shows "reads s p' ts" and "denote s t = nth_default Eof ts k" and "token_ok s t"
  using assms(1) peek_token_ring [OF _ assms(2,3)] unfolding reads_def by blast+

lemma reads_eat: "reads s p ts \<Longrightarrow> reads s (eat_token p) (tl ts)"
  unfolding reads_def nth_default_tl [abs_def] using eat_token_ring by blast

lemma reads_message: "reads s p ts \<Longrightarrow> reads s (write_message m p) ts"
  by (auto simp: reads_def ring_rep_def write_message_def ok_def rest_def)

lemma reads_init: "reads s (init_config_parser s) (tokens s)"
  unfolding reads_def
  by (rule exI [of _ 0]) (simp add: ring_rep_def init_config_parser_def ok_def rest_def lex_nth_tokens)

lemma reads_content: "reads s p ts \<Longrightarrow> content p = s"
  by (auto simp: reads_def ring_rep_def)

lemma denote_type:
  "denote s t = Eof \<longleftrightarrow> tok_type t = Token_eof"
  "denote s t = Equal \<longleftrightarrow> tok_type t = Token_equal"
  "(\<exists>x. denote s t = Ident x) \<longleftrightarrow> tok_type t = Token_identifier"
  "(\<exists>x. denote s t = Str x) \<longleftrightarrow> tok_type t = Token_string"
  by (simp_all add: denote_def split: token_type.split)

lemma denote_text: "denote s t = Ident x \<Longrightarrow> x = text_at s t" "denote s t = Str x \<Longrightarrow> x = text_at s t"
  by (simp_all add: denote_def split: token_type.splits)

text \<open>How many tokens a round of the parser drops when it finds no pair.\<close>

definition dropped :: "tok list \<Rightarrow> nat" where
  "dropped ts = (case nth_default Eof ts 0 of
     Ident _ \<Rightarrow> if nth_default Eof ts 1 = Equal then 3 else 2
   | _ \<Rightarrow> 1)"

definition pair_first :: "tok list \<Rightarrow> bool" where
  "pair_first ts \<longleftrightarrow> (\<exists>k. nth_default Eof ts 0 = Ident k) \<and> nth_default Eof ts 1 = Equal
     \<and> (\<exists>v. nth_default Eof ts 2 = Str v)"

lemma pairs_drop:
  "nth_default Eof ts 0 \<noteq> Eof \<Longrightarrow> \<not> pair_first ts \<Longrightarrow> pairs ts = pairs (drop (dropped ts) ts)"
  by (cases ts rule: pairs.cases)
    (auto simp: pair_first_def dropped_def numeral_2_eq_2 numeral_3_eq_3 drop_Suc nth_default_Cons_0)

lemma pairs_take:
  assumes "pair_first ts"
  obtains k v ts' where "ts = Ident k # Equal # Str v # ts'"
proof -
  obtain a b c ts' where "ts = a # b # c # ts'"
    using assms by (cases ts; cases "tl ts"; cases "tl (tl ts)")
      (auto simp: pair_first_def numeral_2_eq_2)
  then show ?thesis using assms that by (auto simp: pair_first_def numeral_2_eq_2)
qed

lemma pairs_end: "nth_default Eof ts 0 = Eof \<Longrightarrow> pairs ts = []"
  by (cases ts) simp_all

lemma pair_first_types:
  assumes "denote s t0 = nth_default Eof ts 0" and "denote s t1 = nth_default Eof ts 1"
    and "denote s t2 = nth_default Eof ts 2"
  shows "pair_first ts \<longleftrightarrow>
    tok_type t0 = Token_identifier \<and> tok_type t1 = Token_equal \<and> tok_type t2 = Token_string"
  unfolding pair_first_def assms [symmetric] denote_type ..

definition pair_found :: "string \<Rightarrow> tok list \<Rightarrow> (Token \<times> Token) option \<Rightarrow> ConfigParser \<Rightarrow> bool" where
  "pair_found s ts r p' =
     (case r of
        None \<Rightarrow> pairs ts = []
      | Some (k, v) \<Rightarrow> tok_type k = Token_identifier \<and> token_ok s k
          \<and> (\<exists>ts'. pairs ts = (text_at s k, text_at s v) # pairs ts' \<and> reads s p' ts' \<and> length ts' < length ts))"

lemma pair_found_drop:
  "pairs ts = pairs us \<Longrightarrow> length us \<le> length ts \<Longrightarrow> pair_found s us r p' \<Longrightarrow> pair_found s ts r p'"
  by (auto simp: pair_found_def split: option.splits)

lemma parse_key_value_pair_reads:
  assumes "reads s p ts" and "length ts < fuel"
  shows "\<exists>r p'. parse_key_value_pair fuel p = Some (r, p') \<and> pair_found s ts r p'"
  using assms
proof (induction fuel arbitrary: p ts)
  case (Suc fuel)
  obtain t0 p0 where p0: "peek_token p 0 = (t0, p0)" by fastforce
  obtain t1 p1 where p1: "peek_token p0 1 = (t1, p1)" by fastforce
  obtain t2 p2 where p2: "peek_token p1 2 = (t2, p2)" by fastforce
  note r0 = reads_peek [OF Suc.prems(1) _ p0, simplified]
  note r1 = reads_peek [OF r0(1) _ p1, simplified]
  note r2 = reads_peek [OF r1(1) _ p2, simplified]
  have step: "parse_key_value_pair (Suc fuel) p =
      (if tok_type t0 = Token_eof then Some (None, p2)
       else if tok_type t0 = Token_identifier \<and> tok_type t1 = Token_equal \<and> tok_type t2 = Token_string
       then Some (Some (t0, t2), eat_token (eat_token (eat_token p2)))
       else let q = (if tok_type t0 = Token_identifier then eat_token p2 else p2);
                q = (if tok_type t0 = Token_identifier \<and> tok_type t1 = Token_equal then eat_token q else q);
                (t, q) = peek_token q 0;
                q = write_message (Unexpected_token (take 255 (token_text q t))) q
            in parse_key_value_pair fuel (eat_token q))"
    unfolding parse_key_value_pair.simps p0 p1 p2 Let_def prod.case by (rule refl)
  consider (eof) "tok_type t0 = Token_eof"
    | (pair) "tok_type t0 = Token_identifier" "tok_type t1 = Token_equal" "tok_type t2 = Token_string"
    | (other) "tok_type t0 \<noteq> Token_eof" "\<not> (tok_type t0 = Token_identifier \<and> tok_type t1 = Token_equal \<and> tok_type t2 = Token_string)"
    by blast
  then show ?case
  proof cases
    case eof
    then show ?thesis
      using step r0(2) pairs_end [of ts] denote_type(1) [of s t0] by (simp add: pair_found_def)
  next
    case pair
    then have first: "pair_first ts"
      using pair_first_types [OF r0(2) _ r2(2), of t1] r1(2) by simp
    then obtain k v ts' where ts: "ts = Ident k # Equal # Str v # ts'" by (rule pairs_take)
    then have "k = text_at s t0" "v = text_at s t2"
      using r0(2) r2(2) by (auto simp: numeral_2_eq_2 dest: denote_text)
    moreover have "reads s (eat_token (eat_token (eat_token p2))) ts'"
      using reads_eat [OF reads_eat [OF reads_eat [OF r2(1)]]] ts by simp
    ultimately show ?thesis
      using step pair ts r0(3) by (auto simp: pair_found_def)
  next
    case other
    let ?q = "if tok_type t0 = Token_identifier then eat_token p2 else p2"
    let ?q' = "if tok_type t0 = Token_identifier \<and> tok_type t1 = Token_equal then eat_token ?q else ?q"
    obtain t q where q: "peek_token ?q' 0 = (t, q)" by fastforce
    let ?q'' = "eat_token (write_message (Unexpected_token (take 255 (token_text q t))) q)"
    have "nth_default Eof ts 0 \<noteq> Eof" "\<not> pair_first ts"
      using other pair_first_types [OF r0(2) _ r2(2), of t1] r1(2) denote_type(1) [of s t0] r0(2) by simp_all
    then have drop: "pairs ts = pairs (drop (dropped ts) ts)" and ne: "ts \<noteq> []"
      using pairs_drop [of ts] by auto
    have n: "dropped ts = (if tok_type t0 = Token_identifier then if tok_type t1 = Token_equal then 3 else 2 else 1)"
      using denote_type [of s t0] denote_type(2) [of s t1] r0(2) r1(2)
      unfolding dropped_def by (cases "nth_default Eof ts 0") auto
    have "reads s ?q' (drop (dropped ts - 1) ts)"
      using r2(1) reads_eat [OF r2(1)] reads_eat [OF reads_eat [OF r2(1)]] n
      by (auto simp: numeral_2_eq_2 numeral_3_eq_3 drop_Suc)
    then have "reads s q (drop (dropped ts - 1) ts)"
      using reads_peek(1) [OF _ _ q] by simp
    then have "reads s ?q'' (tl (drop (dropped ts - 1) ts))"
      by (intro reads_eat reads_message)
    moreover have "tl (drop (dropped ts - 1) ts) = drop (dropped ts) ts"
      using n by (simp add: tl_drop drop_Suc [symmetric] split: if_splits)
    ultimately have reads: "reads s ?q'' (drop (dropped ts) ts)" by simp
    have "0 < dropped ts" using n by simp
    then have "length (drop (dropped ts) ts) < fuel" using Suc.prems(2) ne by (cases ts) auto
    from Suc.IH [OF reads this] obtain r p' where
      r: "parse_key_value_pair fuel ?q'' = Some (r, p')" "pair_found s (drop (dropped ts) ts) r p'"
      by blast
    have "parse_key_value_pair (Suc fuel) p = parse_key_value_pair fuel ?q''"
      using step other q by (simp add: Let_def)
    then show ?thesis
      using r pair_found_drop [OF drop _ r(2)] by auto
  qed
qed simp

subsection \<open>Loading\<close>

lemma find_config_upt:
  "(\<And>name. name \<in> set names \<Longrightarrow> compare_substring key name len \<longleftrightarrow> prefix x name) \<Longrightarrow>
    find_config key len names i = find (\<lambda>j. prefix x (names ! (j - i))) [i..<i + length names]"
proof (induction names arbitrary: i)
  case (Cons name names)
  have "find (\<lambda>j. prefix x (names ! (j - Suc i))) [Suc i..<Suc i + length names]
      = find (\<lambda>j. prefix x ((name # names) ! (j - i))) [Suc i..<Suc i + length names]"
    by (rule find_cong) (auto simp: nth_Cons' Suc_diff_Suc)
  moreover have "[i..<i + length (name # names)] = i # [Suc i..<Suc i + length names]"
    by (simp add: upt_conv_Cons del: upt_Suc)
  ultimately show ?case
    using Cons by (simp del: upt_Suc)
qed simp

lemma g_config_name_props:
  "length g_config_name = 15" "\<forall>name \<in> set g_config_name. NUL \<notin> set name"
  by (simp_all add: g_config_name_def)

lemma compare_key:
  assumes "tok_type k = Token_identifier" and "token_ok s k" and "NUL \<notin> set name"
  shows "compare_substring (drop (the (tok_identifier k)) s) name (tok_len k) \<longleftrightarrow> prefix (text_at s k) name"
proof -
  obtain i where i: "tok_identifier k = Some i" "i + tok_len k \<le> length s" "NUL \<notin> set (text_at s k)"
    using assms(1,2) by (auto simp: token_ok_def)
  let ?x = "text_at s k"
  have x: "?x = take (tok_len k) (drop i s)" "length ?x = tok_len k"
    using i(1,2) by (simp_all add: text_at_def substring_def)
  have "drop i s = ?x @ drop (tok_len k) (drop i s)" by (simp only: x(1) append_take_drop_id)
  then have key: "cstr (drop i s) = ?x @ cstr (drop (tok_len k) (drop i s))"
    using cstr_append [OF i(3)] by metis
  have "prefix ?x name \<longleftrightarrow> length ?x \<le> length name \<and> ?x = take (length ?x) name"
    by (metis append_eq_conv_conj prefix_def prefix_length_le take_is_prefix)
  then show ?thesis
    using x(2) cstr_id [OF assms(3)] i(1) key by (simp add: compare_substring_eq)
qed

lemma find_config_key:
  assumes "tok_type k = Token_identifier" and "token_ok s k"
  shows "find_config (drop (the (tok_identifier k)) s) (tok_len k) g_config_name 0 = find_key (text_at s k)"
  using find_config_upt [of g_config_name _ _ "text_at s k" 0] compare_key [OF assms] g_config_name_props
  by (simp add: find_key_def Config_one_past_last_def)

lemma set_pair_simps:
  "find_key k = None \<Longrightarrow> set_pair (k, v) config = config"
  "find_key k = Some i \<Longrightarrow> set_pair (k, v) config = config[i := Some v]"
  by (simp_all add: set_pair_def)

lemma load_loop_reads:
  assumes "reads s p ts" and "length ts < rounds" and "length ts < fuel"
  shows "\<exists>ms. load_loop fuel rounds config p = Some (fold set_pair (pairs ts) config, ms)"
  using assms
proof (induction rounds arbitrary: p ts config)
  case (Suc rounds)
  obtain r p' where r: "parse_key_value_pair fuel p = Some (r, p')" "pair_found s ts r p'"
    using parse_key_value_pair_reads [OF Suc.prems(1,3)] by blast
  show ?case
  proof (cases r)
    case None
    then show ?thesis using r by (simp add: pair_found_def)
  next
    case (Some kv)
    obtain k v where kv: "kv = (k, v)" by fastforce
    obtain ts' where k: "tok_type k = Token_identifier" "token_ok s k"
      and ts': "pairs ts = (text_at s k, text_at s v) # pairs ts'" "reads s p' ts'" "length ts' < length ts"
      using r(2) Some kv by (auto simp: pair_found_def)
    have "\<exists>ms. load_loop fuel rounds config' q = Some (fold set_pair (pairs ts') config', ms)"
      if "reads s q ts'" for config' q
      using Suc.IH [OF that] ts'(3) Suc.prems by simp
    moreover have "content p' = s" using ts'(2) by (rule reads_content)
    ultimately show ?thesis
      using r(1) Some kv ts' find_config_key [OF k] reads_message [OF ts'(2)]
      by (cases "find_key (text_at s k)") (simp_all add: set_pair_simps token_text_at)
  qed
qed simp

lemma incomplete_iff: "length config = Config_one_past_last \<Longrightarrow> incomplete config = [] \<longleftrightarrow> None \<notin> set config"
  by (auto simp: incomplete_def filter_empty_conv in_set_conv_nth)

lemma length_set_pairs: "length (fold set_pair kvs config) = length config"
  by (induction kvs arbitrary: config) (simp_all add: set_pair_def split: option.split)

lemma load_config_config_of:
  assumes "s \<noteq> []"
  shows "\<exists>ms. load_config (Some s) = Some (config_of s, None \<notin> set (config_of s), ms)"
proof -
  have "length (config_of s) = Config_one_past_last"
    by (simp add: config_of_def length_set_pairs)
  then show ?thesis
    using load_loop_reads [OF reads_init, of s "Suc (length s)" "Suc (length s)" "replicate Config_one_past_last None"]
      length_tokens [of s] assms
    by (auto simp: load_config_def Let_def config_of_def incomplete_iff less_Suc_eq_le)
qed

subsection \<open>Tokens of a well-formed line\<close>

lemma tokens_skip: "skip False s = skip False s' \<Longrightarrow> tokens s = tokens s'"
  by (simp add: tokens.simps [of s] tokens.simps [of s'] at_end_def lex_tok_def)

lemma tokens_white [simp]: "c \<in> {CHR '' '', CHR 0x09, CHR 0x0D, CHR 0x0A} \<Longrightarrow> tokens (c # s) = tokens s"
  by (rule tokens_skip) auto

lemma tokens_equal [simp]: "tokens (CHR ''='' # s) = Equal # tokens s"
  by (subst tokens.simps) (simp add: at_end_def lex_tok_def)

lemma tokens_string [simp]:
  assumes "NUL \<notin> set v" and "CHR 0x22 \<notin> set v"
  shows "tokens (CHR 0x22 # v @ CHR 0x22 # s) = Str v # tokens s"
proof -
  have "takeWhile (\<lambda>x. x \<noteq> CHR 0x22 \<and> x \<noteq> NUL) (v @ CHR 0x22 # s) = v"
    using assms by (subst takeWhile_append2) auto
  then show ?thesis
    by (subst tokens.simps) (simp add: at_end_def lex_tok_def)
qed

lemma tokens_identifier:
  assumes "k \<noteq> []" and "is_letter (hd k)" and "\<forall>c \<in> set k. is_identifier_char c" and "\<not> is_identifier_char d"
  shows "tokens (k @ d # s) = Ident k # tokens (d # s)"
proof -
  obtain c k' where k: "k = c # k'" using assms(1) by (cases k) auto
  have c: "is_letter c" using assms(2) k by simp
  then have cs: "c \<notin> {NUL, CHR ''#'', CHR ''='', CHR 0x22, CHR 0x27, CHR '' '', CHR 0x09, CHR 0x0D, CHR 0x0A}"
    by (auto simp: is_letter_def)
  have "takeWhile is_identifier_char (k @ d # s) = k" "dropWhile is_identifier_char (k @ d # s) = d # s"
    using assms(3,4) by (simp_all add: takeWhile_append2 dropWhile_append2)
  then show ?thesis
    using cs c unfolding k by (subst tokens.simps) (simp add: at_end_def lex_tok_def)
qed

definition config_line :: "string \<Rightarrow> string \<Rightarrow> string" where
  "config_line k v = k @ '' = '' @ [CHR 0x22] @ v @ [CHR 0x22, CHR 0x0A]"

definition config_text :: "string list \<Rightarrow> string" where
  "config_text vs = concat (map2 config_line g_config_name vs)"

lemma tokens_config_line:
  assumes "k \<in> set g_config_name" and "NUL \<notin> set v" and "CHR 0x22 \<notin> set v"
  shows "tokens (config_line k v @ s) = Ident k # Equal # Str v # tokens s"
proof -
  have "\<forall>k \<in> set g_config_name. k \<noteq> [] \<and> is_letter (hd k) \<and> (\<forall>c \<in> set k. is_identifier_char c)"
    by code_simp
  moreover have "\<not> is_identifier_char CHR '' ''" by code_simp
  ultimately show ?thesis
    using assms tokens_identifier [of k "CHR '' ''" "CHR ''='' # CHR '' '' # CHR 0x22 # v @ CHR 0x22 # CHR 0x0A # s"]
    by (simp add: config_line_def)
qed

lemma pairs_config_lines:
  "\<lbrakk>length ks = length vs; set ks \<subseteq> set g_config_name; \<forall>v \<in> set vs. NUL \<notin> set v \<and> CHR 0x22 \<notin> set v\<rbrakk> \<Longrightarrow>
    pairs (tokens (concat (map2 config_line ks vs))) = zip ks vs"
proof (induction ks vs rule: list_induct2)
  case Nil
  then show ?case by (subst tokens.simps) (simp add: at_end_def)
next
  case (Cons k ks v vs)
  then show ?case by (simp add: tokens_config_line)
qed

lemma find_key_name: "i < 15 \<Longrightarrow> find_key (g_config_name ! i) = Some i"
proof -
  have "\<forall>i \<in> set [0..<15]. find_key (g_config_name ! i) = Some i" by code_simp
  then show "i < 15 \<Longrightarrow> find_key (g_config_name ! i) = Some i" by simp
qed

lemma fold_set_pair_names:
  assumes "length vs = 15" and "n \<le> 15"
  shows "fold set_pair (zip (take n g_config_name) (take n vs)) (replicate 15 None)
    = map Some (take n vs) @ replicate (15 - n) None"
  using assms(2)
proof (induction n)
  case (Suc n)
  then have n: "n < 15" by simp
  have "zip (take (Suc n) g_config_name) (take (Suc n) vs)
      = zip (take n g_config_name) (take n vs) @ [(g_config_name ! n, vs ! n)]"
    using n assms(1) g_config_name_props(1) by (simp add: take_Suc_conv_app_nth)
  moreover have "replicate (15 - n) None = None # replicate (15 - Suc n) (None :: string option)"
    using n by (metis Suc_diff_Suc replicate_Suc)
  ultimately show ?case
    using Suc n assms(1) by (simp add: set_pair_def find_key_name list_update_append take_Suc_conv_app_nth)
qed simp

subsection \<open>The default configuration, line by line\<close>

text \<open>Lines that can be read on their own: blank lines, comments, and \<open>key = "value"\<close> with either
  kind of quote; \<open>line_value\<close> is the key and the value of such a line.\<close>

definition line_value :: "string \<Rightarrow> (string \<times> string) option" where
  "line_value l =
     (if l = [] \<or> hd l = CHR ''#'' then None
      else let k = takeWhile (\<lambda>c. c \<noteq> CHR '' '') l; r = drop (length k + 4) l
           in Some (k, butlast r))"

definition quoted_line :: "char \<Rightarrow> string \<Rightarrow> string \<Rightarrow> string" where
  "quoted_line q k v = k @ '' = '' @ q # v @ [q]"

definition plain :: "char \<Rightarrow> string \<Rightarrow> bool" where
  "plain q s \<longleftrightarrow> list_all (\<lambda>c. c \<noteq> NUL \<and> c \<noteq> q) s"

definition line_ok :: "string \<Rightarrow> bool" where
  "line_ok l =
     (case line_value l of
        None \<Rightarrow> plain CHR 0x0A l
      | Some (k, v) \<Rightarrow>
          let q = last l
          in (q = CHR 0x22 \<or> q = CHR 0x27) \<and> plain q v \<and> k \<noteq> [] \<and> is_letter (hd k)
             \<and> list_all is_identifier_char k \<and> l = quoted_line q k v)"

definition line_tokens :: "string \<Rightarrow> tok list" where
  "line_tokens l = (case line_value l of None \<Rightarrow> [] | Some (k, v) \<Rightarrow> [Ident k, Equal, Str v])"

lemma skip_comment: "plain CHR 0x0A l \<Longrightarrow> skip True (l @ CHR 0x0A # s) = skip False s"
  by (induction l) (simp_all add: plain_def)

lemma tokens_quoted:
  assumes "q = CHR 0x22 \<or> q = CHR 0x27" and "plain q v"
  shows "tokens (q # v @ q # s) = Str v # tokens s"
proof -
  have "takeWhile (\<lambda>x. x \<noteq> q \<and> x \<noteq> NUL) (v @ q # s) = v"
    using assms(2) by (subst takeWhile_append2) (auto simp: plain_def list_all_iff)
  with assms(1) show ?thesis
    by (elim disjE) (simp_all add: tokens.simps [of "_ # _ @ _"] at_end_def lex_tok_def)
qed

lemma tokens_line:
  assumes "line_ok l"
  shows "tokens (l @ CHR 0x0A # s) = line_tokens l @ tokens s"
proof (cases "line_value l")
  case None
  then have p: "plain CHR 0x0A l" and l: "l = [] \<or> hd l = CHR ''#''"
    using assms by (auto simp: line_ok_def line_value_def Let_def split: if_splits)
  have "skip False (l @ CHR 0x0A # s) = skip False s"
  proof (cases l)
    case (Cons c l')
    then have "plain CHR 0x0A l'" "c = CHR ''#''" using p l by (simp_all add: plain_def)
    then show ?thesis using Cons skip_comment [of l' s] by simp
  qed simp
  then have "tokens (l @ CHR 0x0A # s) = tokens s" by (rule tokens_skip)
  then show ?thesis
    using None by (simp only: line_tokens_def option.case append_Nil)
next
  case (Some kv)
  obtain k v where kv: "kv = (k, v)" by fastforce
  let ?q = "last l"
  have ok: "?q = CHR 0x22 \<or> ?q = CHR 0x27" "plain ?q v" "k \<noteq> []" "is_letter (hd k)"
    "\<forall>c \<in> set k. is_identifier_char c" and l: "l = quoted_line ?q k v"
    using assms Some kv by (auto simp: line_ok_def Let_def list_all_iff)
  have "\<not> is_identifier_char CHR '' ''" by code_simp
  then have "tokens (quoted_line ?q k v @ CHR 0x0A # s) = Ident k # Equal # Str v # tokens s"
    using tokens_identifier [OF ok(3-5), of "CHR '' ''"] tokens_quoted [OF ok(1,2)]
    by (simp add: quoted_line_def)
  then show ?thesis
    using Some kv l by (simp add: line_tokens_def)
qed

lemma tokens_lines:
  "list_all line_ok ls \<Longrightarrow> tokens (concat (map (\<lambda>l. l @ [CHR 0x0A]) ls)) = concat (map line_tokens ls)"
proof (induction ls)
  case Nil
  then show ?case by (subst tokens.simps) (simp add: at_end_def)
next
  case (Cons l ls)
  then show ?case by (simp add: tokens_line)
qed

subsection \<open>Properties\<close>

text \<open>C6: \<open>load_config\<close> always ends, and computes the configuration of the file's tokens: of the
  pairs \<open>key = "value"\<close> in it, each sets the first configuration name its key is a prefix of, the
  last one winning. It succeeds exactly if every name has a value. A file that cannot be opened or
  is empty gives no value.\<close>

theorem load_config_correct:
  "\<exists>ms. load_config source =
    Some (config_of (case source of Some s \<Rightarrow> s | None \<Rightarrow> []),
      None \<notin> set (config_of (case source of Some s \<Rightarrow> s | None \<Rightarrow> [])), ms)"
proof -
  have empty: "config_of [] = replicate Config_one_past_last None"
    by (simp add: config_of_def tokens.simps [of "[]"] at_end_def)
  have "incomplete (replicate Config_one_past_last None) \<noteq> []"
    by (subst incomplete_iff) (simp_all add: Config_one_past_last_def)
  then have trivial_files: "load_config None = Some (config_of [], None \<notin> set (config_of []), incomplete (config_of []))"
    "\<exists>ms. load_config (Some []) = Some (config_of [], None \<notin> set (config_of []), ms)"
    unfolding empty by (simp_all add: load_config_def Config_one_past_last_def Let_def)
  show ?thesis
  proof (cases source)
    case None
    then show ?thesis using trivial_files(1) by simp
  next
    case (Some s)
    then show ?thesis using trivial_files(2) load_config_config_of [of s] by (cases "s = []") simp_all
  qed
qed

text \<open>C9: A configuration file with one line per name is read back: whatever values are given to the
  fifteen names, without double quotes and NUL, \<open>load_config\<close> returns them and succeeds.\<close>

theorem load_config_round_trip:
  assumes "length vs = 15" and "\<forall>v \<in> set vs. NUL \<notin> set v \<and> CHR 0x22 \<notin> set v"
  shows "\<exists>ms. load_config (Some (config_text vs)) = Some (map Some vs, True, ms)"
proof -
  have "config_text vs \<noteq> []"
    using assms(1) by (cases vs) (simp_all add: config_text_def g_config_name_def config_line_def)
  moreover have "config_of (config_text vs) = map Some vs"
    using pairs_config_lines [of g_config_name vs] fold_set_pair_names [of vs 15] assms g_config_name_props(1)
    by (simp add: config_of_def config_text_def Config_one_past_last_def)
  ultimately show ?thesis
    using load_config_config_of [of "config_text vs"] by auto
qed

theorem load_config_round_trip_witness:
  "\<exists>ms. load_config (Some (config_text (replicate 15 ''# = x''))) = Some (replicate 15 (Some ''# = x''), True, ms)"
  using load_config_round_trip [of "replicate 15 ''# = x''"] by simp

text \<open>The configuration file the tool writes when there is none is itself complete.\<close>

lemma load_default_config:
  "\<exists>config ms. load_config (Some g_default_config) = Some (config, True, ms)
    \<and> config ! key_index Config_grade_thread_count = Some ''8''
    \<and> config ! key_index Config_grade_command = Some ''make activate ARGS=\"make autograde\"''"
proof -
  have ok: "list_all line_ok g_default_lines" by code_simp
  have config: "fold set_pair (pairs (concat (map line_tokens g_default_lines))) (replicate Config_one_past_last None)
      = map Some [''your-github-personal-access-token'', ''your-google-api-key'', ''github-organization'',
          ''ta-team-slug'', ''student-team-slug'', ''hw-feedback'', ''spreadsheet-id'', ''github_handle'',
          ''student_id'', ''your@github.email'', ''make activate ARGS=\"make autograde\"'', ''8'',
          ''./test/result/score.txt'', ''15'', ''1'']"
    by code_simp
  have "g_default_config \<noteq> []"
    by (simp add: g_default_config_def g_default_lines_def)
  then show ?thesis
    using load_config_config_of [of g_default_config] config tokens_lines [OF ok]
    by (auto simp: config_of_def g_default_config_def)
qed

text \<open>Two ways to misread a configuration: a key that is only a prefix of a name sets it, and a
  character outside the language between two pairs makes everything after it ignored.\<close>

lemma load_config_quirks:
  "(\<exists>config ms. load_config (Some ''g = \"x\"'') = Some (config, False, ms)
      \<and> config ! key_index Config_github_token = Some ''x'')
    \<and> (\<exists>ms. load_config (Some ''; email = \"x\"'') = Some (replicate 15 None, False, ms))"
proof -
  have "config_of ''g = \"x\"'' = Some ''x'' # replicate 14 None" by code_simp
  moreover have "config_of ''; email = \"x\"'' = replicate 15 None" by code_simp
  ultimately show ?thesis
    using load_config_config_of [of "''g = \"x\"''"] load_config_config_of [of "''; email = \"x\"''"] by auto
qed

end
