(* ===== verification/Effects.thy ===== *)
theory Effects imports HandPrelude begin

text \<open>
  Programs with effects. A program takes the environment (everything outside the modelled code:
  the network, the file system, libgit2, the clock) and the history of what it has done so far,
  and gives an outcome and the longer history. The environment answers from the history, so an
  answer may change from one call to the next.

  \<open>Exited\<close> is \<open>exit\<close> (out of a fixed-size buffer, for one), \<open>Crashed\<close> a failed assertion or
  undefined behaviour, \<open>Spent\<close> that the fuel of a loop that depends on the network is used up.

  \<open>emits P m\<close> says that all that the program \<open>m\<close> does is of the kind \<open>P\<close>; its rules
  (\<open>emits_intros\<close>) follow the structure of the program. \<open>then_holds\<close> is a postcondition for the
  programs that end normally. Text is formatted as \<open>printf\<close> does.
\<close>

subsection \<open>What a program does\<close>

record request =
  req_url :: string
  req_header :: string
  req_type :: "string option"
  req_data :: string

record work =
  exit_code :: int
  work_command :: string
  work_dir :: string
  stdout_path :: string
  stderr_path :: string

text \<open>The calls of libgit2 the program makes, with the arguments that matter.\<close>

datatype git_call =
    Git_clone string string
  | Git_oid_fromstrn string
  | Git_commit_lookup string
  | Git_reset_hard
  | Git_signature_now string string
  | Git_signature_dup
  | Git_repository_open string
  | Git_repository_head
  | Git_branch_upstream
  | Git_reference_is_branch
  | Git_reference_is_remote
  | Git_repository_index
  | Git_index_add_all
  | Git_index_write_tree
  | Git_tree_lookup
  | Git_reference_peel
  | Git_commit_create string
  | Git_branch_remote_name
  | Git_remote_lookup
  | Git_remote_push string string
  | Git_reset_soft

datatype event =
    Output string
  | ErrorMsg string
  | Http request
  | Git git_call
  | Delete_directory string
  | Create_directory string
  | Rename_directory string string
  | Copy_directory string string
  | Delete_file string
  | Open_write string
  | Write_file string string
  | Run_works int "work list"
  | Sleep int

type_synonym history = "event list"

subsection \<open>Programs\<close>

datatype 'a outcome = Done 'a | Exited | Crashed | Spent

type_synonym ('e, 'a) prog = "'e \<Rightarrow> history \<Rightarrow> 'a outcome \<times> history"

definition pure :: "'a \<Rightarrow> ('e, 'a) prog" where
  "pure x e h = (Done x, h)"

definition bd :: "('e, 'a) prog \<Rightarrow> ('a \<Rightarrow> ('e, 'b) prog) \<Rightarrow> ('e, 'b) prog" where
  "bd m f e h =
     (case m e h of
        (Done x, h') \<Rightarrow> f x e h'
      | (Exited, h') \<Rightarrow> (Exited, h')
      | (Crashed, h') \<Rightarrow> (Crashed, h')
      | (Spent, h') \<Rightarrow> (Spent, h'))"

definition sq :: "('e, unit) prog \<Rightarrow> ('e, 'b) prog \<Rightarrow> ('e, 'b) prog" where
  "sq m n = bd m (\<lambda>_. n)"

definition skip :: "('e, unit) prog" where
  "skip = pure ()"

definition emit :: "event \<Rightarrow> ('e, unit) prog" where
  "emit ev e h = (Done (), h @ [ev])"

definition ask :: "('e \<Rightarrow> history \<Rightarrow> 'a) \<Rightarrow> ('e, 'a) prog" where
  "ask f e h = (Done (f e h), h)"

definition exit_prog :: "('e, 'a) prog" where
  "exit_prog e h = (Exited, h)"

definition crash :: "('e, 'a) prog" where
  "crash e h = (Crashed, h)"

definition spent :: "('e, 'a) prog" where
  "spent e h = (Spent, h)"

definition assertion :: "bool \<Rightarrow> ('e, unit) prog" where
  "assertion b = (if b then skip else crash)"

definition defined :: "'a option \<Rightarrow> ('e, 'a) prog" where
  "defined r = (case r of Some x \<Rightarrow> pure x | None \<Rightarrow> crash)"

definition whenp :: "bool \<Rightarrow> ('e, unit) prog \<Rightarrow> ('e, unit) prog" where
  "whenp b m = (if b then m else skip)"

text \<open>Loops over a list: for their effects, and threading a state.\<close>

fun each :: "('a \<Rightarrow> ('e, unit) prog) \<Rightarrow> 'a list \<Rightarrow> ('e, unit) prog" where
  "each f [] = skip"
| "each f (x # xs) = sq (f x) (each f xs)"

fun foldp :: "('a \<Rightarrow> 's \<Rightarrow> ('e, 's) prog) \<Rightarrow> 'a list \<Rightarrow> 's \<Rightarrow> ('e, 's) prog" where
  "foldp f [] s = pure s"
| "foldp f (x # xs) s = bd (f x s) (foldp f xs)"

text \<open>A sequence of calls joined by \<open>&&\<close>: it stops at the first that fails.\<close>

fun all_of :: "('e, bool) prog list \<Rightarrow> ('e, bool) prog" where
  "all_of [] = pure True"
| "all_of (m # ms) = bd m (\<lambda>ok. if ok then all_of ms else pure False)"

definition write_output :: "string \<Rightarrow> ('e, unit) prog" where
  "write_output s = emit (Output s)"

definition write_error :: "string \<Rightarrow> ('e, unit) prog" where
  "write_error s = emit (ErrorMsg s)"

text \<open>\<open>format_string\<close> into a buffer of \<open>n\<close> bytes: the text must be shorter than the buffer.\<close>

definition format_string :: "nat \<Rightarrow> string \<Rightarrow> ('e, string) prog" where
  "format_string n s =
     (if length s \<ge> n
      then sq (write_error (''Fatal: buffer too short: '' @ take (n - 1) s)) exit_prog
      else pure s)"

subsection \<open>Running\<close>

lemma pure_apply [simp, run_simps]: "pure x e h = (Done x, h)"
  by (simp add: pure_def)

lemma skip_apply [simp, run_simps]: "skip e h = (Done (), h)"
  by (simp add: skip_def)

lemma emit_apply [simp, run_simps]: "emit ev e h = (Done (), h @ [ev])"
  by (simp add: emit_def)

lemma ask_apply [simp, run_simps]: "ask f e h = (Done (f e h), h)"
  by (simp add: ask_def)

lemma ends_apply [simp, run_simps]:
  "exit_prog e h = (Exited, h)" "crash e h = (Crashed, h)" "spent e h = (Spent, h)"
  by (simp_all add: exit_prog_def crash_def spent_def)

lemma bd_Done [simp]: "m e h = (Done x, h') \<Longrightarrow> bd m f e h = f x e h'"
  by (simp add: bd_def)

lemma bd_pure [simp]: "bd (pure x) f = f x"
  by (intro ext) simp

lemma bd_other [simp]:
  "m e h = (Exited, h') \<Longrightarrow> bd m f e h = (Exited, h')"
  "m e h = (Crashed, h') \<Longrightarrow> bd m f e h = (Crashed, h')"
  "m e h = (Spent, h') \<Longrightarrow> bd m f e h = (Spent, h')"
  by (simp_all add: bd_def)

lemma bd_eq_Done: "bd m f e h = (Done y, h'') \<longleftrightarrow> (\<exists>x h'. m e h = (Done x, h') \<and> f x e h' = (Done y, h''))"
  by (auto simp: bd_def split: prod.split outcome.split)

lemma sq_Done [simp]: "m e h = (Done (), h') \<Longrightarrow> sq m n e h = n e h'"
  by (simp add: sq_def)

lemma assertion_simps [simp]: "assertion True = skip" "assertion False = crash"
  by (simp_all add: assertion_def)

lemma whenp_simps [simp]: "whenp True m = m" "whenp False m = skip"
  by (simp_all add: whenp_def)

lemma defined_simps [simp]: "defined (Some x) = pure x" "defined None = crash"
  by (simp_all add: defined_def)

lemma foldp_append: "foldp f (xs @ ys) s e h = bd (foldp f xs s) (foldp f ys) e h"
  by (induction xs arbitrary: s h) (auto simp: bd_def split: prod.split outcome.split)

lemma write_apply [simp, run_simps]:
  "write_output s e h = (Done (), h @ [Output s])" "write_error s e h = (Done (), h @ [ErrorMsg s])"
  by (simp_all add: write_output_def write_error_def)

lemma format_string_Done [simp]: "length s < n \<Longrightarrow> format_string n s = pure s"
  by (simp add: format_string_def)

subsection \<open>What a program can do\<close>

definition emits :: "(event \<Rightarrow> bool) \<Rightarrow> ('e, 'a) prog \<Rightarrow> bool" where
  "emits P m \<longleftrightarrow> (\<forall>e h. \<exists>t. snd (m e h) = h @ t \<and> (\<forall>ev \<in> set t. P ev))"

lemma emitsD: "emits P m \<Longrightarrow> m e h = (r, h') \<Longrightarrow> \<exists>t. h' = h @ t \<and> (\<forall>ev \<in> set t. P ev)"
  unfolding emits_def by (metis snd_conv)

lemma emitsI: "(\<And>e h. \<exists>t. snd (m e h) = h @ t \<and> (\<forall>ev \<in> set t. P ev)) \<Longrightarrow> emits P m"
  by (simp add: emits_def)

lemma emits_pure [emits_intros]: "emits P (pure x)"
  by (simp add: emits_def)

lemma emits_skip [emits_intros]: "emits P skip"
  by (simp add: emits_def)

lemma emits_emit [emits_intros]: "P ev \<Longrightarrow> emits P (emit ev)"
  by (simp add: emits_def)

lemma emits_ask [emits_intros]: "emits P (ask f)"
  by (simp add: emits_def)

lemma emits_ends [emits_intros]: "emits P exit_prog" "emits P crash" "emits P spent"
  by (simp_all add: emits_def)

lemma emits_bd [emits_intros]:
  assumes "emits P m" and "\<And>x. emits P (f x)"
  shows "emits P (bd m f)"
  unfolding emits_def
proof (intro allI)
  fix e h
  obtain r h' where m: "m e h = (r, h')" by fastforce
  obtain t where t: "h' = h @ t" "\<forall>ev \<in> set t. P ev" using emitsD [OF assms(1) m] by blast
  show "\<exists>t. snd (bd m f e h) = h @ t \<and> (\<forall>ev \<in> set t. P ev)"
  proof (cases r)
    case (Done x)
    obtain u where "snd (f x e h') = h' @ u" "\<forall>ev \<in> set u. P ev"
      using assms(2) unfolding emits_def by blast
    then show ?thesis using m t Done by (intro exI [of _ "t @ u"]) auto
  qed (use m t in auto)
qed

lemma emits_sq [emits_intros]: "emits P m \<Longrightarrow> emits P n \<Longrightarrow> emits P (sq m n)"
  unfolding sq_def by (rule emits_bd)

lemma emits_if [emits_intros]: "(b \<Longrightarrow> emits P m) \<Longrightarrow> (\<not> b \<Longrightarrow> emits P n) \<Longrightarrow> emits P (if b then m else n)"
  by simp

lemma emits_whenp [emits_intros]: "(b \<Longrightarrow> emits P m) \<Longrightarrow> emits P (whenp b m)"
  by (cases b) (simp_all add: emits_skip)

lemma emits_assertion [emits_intros]: "emits P (assertion b)"
  by (cases b) (simp_all add: emits_skip emits_ends)

lemma emits_defined [emits_intros]: "emits P (defined r)"
  by (cases r) (simp_all add: emits_pure emits_ends)

lemma emits_option [emits_intros]:
  "emits P m \<Longrightarrow> (\<And>x. r = Some x \<Longrightarrow> emits P (f x)) \<Longrightarrow> emits P (case r of None \<Rightarrow> m | Some x \<Rightarrow> f x)"
  by (cases r) simp_all

lemma emits_prod [emits_intros]: "(\<And>x y. r = (x, y) \<Longrightarrow> emits P (f x y)) \<Longrightarrow> emits P (case r of (x, y) \<Rightarrow> f x y)"
  by (cases r) simp

lemma emits_each [emits_intros]: "(\<And>x. x \<in> set xs \<Longrightarrow> emits P (f x)) \<Longrightarrow> emits P (each f xs)"
  by (induction xs) (simp_all add: emits_skip emits_sq)

lemma emits_foldp [emits_intros]: "(\<And>x s. x \<in> set xs \<Longrightarrow> emits P (f x s)) \<Longrightarrow> emits P (foldp f xs s)"
  by (induction xs arbitrary: s) (simp_all add: emits_pure emits_bd)

lemma emits_all_of [emits_intros]: "(\<And>m. m \<in> set ms \<Longrightarrow> emits P m) \<Longrightarrow> emits P (all_of ms)"
  by (induction ms) (simp_all add: emits_pure emits_bd)

lemma emits_write [emits_intros]:
  "P (Output s) \<Longrightarrow> emits P (write_output s)" "P (ErrorMsg s) \<Longrightarrow> emits P (write_error s)"
  by (simp_all add: write_output_def write_error_def emits_emit)

lemma emits_format_string [emits_intros]:
  "(\<And>s. P (ErrorMsg s)) \<Longrightarrow> emits P (format_string n s)"
  unfolding format_string_def by (intro emits_intros) simp_all

text \<open>\<open>returns m Q\<close>: every result of \<open>m\<close> satisfies \<open>Q\<close>.\<close>

definition returns :: "('e, 'a) prog \<Rightarrow> ('a \<Rightarrow> bool) \<Rightarrow> bool" where
  "returns m Q \<longleftrightarrow> (\<forall>e h x h'. m e h = (Done x, h') \<longrightarrow> Q x)"

lemma returnsD: "returns m Q \<Longrightarrow> m e h = (Done x, h') \<Longrightarrow> Q x"
  by (auto simp: returns_def)

lemma returns_bd: "returns m Q \<Longrightarrow> (\<And>x. Q x \<Longrightarrow> returns (f x) R) \<Longrightarrow> returns (bd m f) R"
  unfolding returns_def bd_eq_Done by blast

lemma returns_foldp:
  "Q s \<Longrightarrow> (\<And>x s. x \<in> set xs \<Longrightarrow> Q s \<Longrightarrow> returns (f x s) Q) \<Longrightarrow> returns (foldp f xs s) Q"
proof (induction xs arbitrary: s)
  case (Cons x xs)
  then show ?case by (auto intro!: returns_bd [where Q = Q])
qed (simp add: returns_def)

named_theorems returns_intros \<open>what a program can return\<close>

lemma returns_simple [returns_intros]:
  "Q x \<Longrightarrow> returns (pure x) Q"
  "returns exit_prog Q" "returns crash Q" "returns spent Q"
  by (simp_all add: returns_def)

lemma returns_sq [returns_intros]: "returns n Q \<Longrightarrow> returns (sq m n) Q"
  unfolding returns_def sq_def bd_eq_Done by blast

lemma returns_rest [returns_intros]: "(\<And>x. returns (f x) Q) \<Longrightarrow> returns (bd m f) Q"
  unfolding returns_def bd_eq_Done by blast

lemma returns_cases [returns_intros]:
  "(b \<Longrightarrow> returns m Q) \<Longrightarrow> (\<not> b \<Longrightarrow> returns n Q) \<Longrightarrow> returns (if b then m else n) Q"
  "(r = None \<Longrightarrow> returns m Q) \<Longrightarrow> (\<And>x. r = Some x \<Longrightarrow> returns (f x) Q) \<Longrightarrow>
    returns (case r of None \<Rightarrow> m | Some x \<Rightarrow> f x) Q"
  "(\<And>x y. pr = (x, y) \<Longrightarrow> returns (g x y) Q) \<Longrightarrow> returns (case pr of (x, y) \<Rightarrow> g x y) Q"
  by (auto split: option.split prod.split)

lemma returns_format_string: "returns (format_string n s) (\<lambda>x. x = s)"
  by (auto simp: format_string_def returns_def sq_def bd_eq_Done)

text \<open>\<open>emits\<close> in one environment.\<close>

definition emits_in :: "'e \<Rightarrow> (event \<Rightarrow> bool) \<Rightarrow> ('e, 'a) prog \<Rightarrow> bool" where
  "emits_in e P m \<longleftrightarrow> (\<forall>h. \<exists>t. snd (m e h) = h @ t \<and> (\<forall>ev \<in> set t. P ev))"

lemma emits_emits_in: "emits P m \<Longrightarrow> emits_in e P m"
  by (simp add: emits_def emits_in_def)

lemma emits_in_bd:
  assumes "emits P m" and "\<And>x h h'. m e h = (Done x, h') \<Longrightarrow> emits_in e P (f x)"
  shows "emits_in e P (bd m f)"
  unfolding emits_in_def
proof
  fix h
  obtain r h' where m: "m e h = (r, h')" by fastforce
  obtain t where t: "h' = h @ t" "\<forall>ev \<in> set t. P ev" using emitsD [OF assms(1) m] by blast
  show "\<exists>t. snd (bd m f e h) = h @ t \<and> (\<forall>ev \<in> set t. P ev)"
  proof (cases r)
    case (Done x)
    obtain u where "snd (f x e h') = h' @ u" "\<forall>ev \<in> set u. P ev"
      using assms(2) m Done unfolding emits_in_def by blast
    then show ?thesis using m t Done by (intro exI [of _ "t @ u"]) auto
  qed (use m t in auto)
qed

lemma emits_in_sq: "emits P m \<Longrightarrow> emits_in e P n \<Longrightarrow> emits_in e P (sq m n)"
  unfolding sq_def by (rule emits_in_bd)

lemma emits_in_prod: "(\<And>x y. pr = (x, y) \<Longrightarrow> emits_in e P (g x y)) \<Longrightarrow> emits_in e P (case pr of (x, y) \<Rightarrow> g x y)"
  by (cases pr) simp

lemma emits_list [emits_intros]:
  "emits P m \<Longrightarrow> (\<And>y ys. xs = y # ys \<Longrightarrow> emits P (f y ys)) \<Longrightarrow> emits P (case xs of [] \<Rightarrow> m | y # ys \<Rightarrow> f y ys)"
  by (cases xs) simp_all

lemma emits_bd_returns:
  assumes "emits P m" and "returns m Q" and "\<And>x. Q x \<Longrightarrow> emits P (f x)"
  shows "emits P (bd m f)"
proof -
  have "bd m f e h = bd m (\<lambda>x. if Q x then f x else crash) e h" for e h
    using assms(2) by (auto simp: bd_def returns_def split: prod.split outcome.split)
  then have "bd m f = bd m (\<lambda>x. if Q x then f x else crash)" by blast
  moreover have "emits P (bd m (\<lambda>x. if Q x then f x else crash))"
    using assms(1,3) by (intro emits_bd emits_if emits_ends)
  ultimately show ?thesis by simp
qed

lemma emits_foldp_returns:
  assumes "I s" and "\<And>x s. x \<in> set xs \<Longrightarrow> I s \<Longrightarrow> emits P (f x s) \<and> returns (f x s) I"
  shows "emits P (foldp f xs s)"
  using assms
proof (induction xs arbitrary: s)
  case (Cons x xs)
  then show ?case by (auto intro!: emits_bd_returns [where Q = I])
qed (simp add: emits_pure)

lemma emits_mono: "emits P m \<Longrightarrow> (\<And>ev. P ev \<Longrightarrow> Q ev) \<Longrightarrow> emits Q m"
  unfolding emits_def by blast

text \<open>What one run of a program does: \<open>did P m e h\<close>, where the rest of a program may use what its beginning has returned.\<close>

definition did :: "(event \<Rightarrow> bool) \<Rightarrow> ('e, 'a) prog \<Rightarrow> 'e \<Rightarrow> history \<Rightarrow> bool" where
  "did P m e h \<longleftrightarrow> (\<exists>t. snd (m e h) = h @ t \<and> (\<forall>ev \<in> set t. P ev))"

lemma emits_did: "emits P m \<Longrightarrow> did P m e h"
  by (simp add: emits_def did_def)

lemma did_bd:
  assumes "did P m e h" and "\<And>x h1. m e h = (Done x, h1) \<Longrightarrow> did P (f x) e h1"
  shows "did P (bd m f) e h"
proof (cases "m e h")
  case (Pair r h1)
  then obtain t where t: "h1 = h @ t" "\<forall>ev \<in> set t. P ev"
    using assms(1) by (auto simp: did_def)
  show ?thesis
  proof (cases r)
    case (Done x)
    with Pair assms(2) obtain u where "snd (f x e h1) = h1 @ u" "\<forall>ev \<in> set u. P ev"
      by (auto simp: did_def)
    then show ?thesis using Pair Done t by (intro did_def [THEN iffD2] exI [of _ "t @ u"]) (auto simp: bd_def)
  qed (use Pair t in \<open>auto simp: bd_def did_def\<close>)
qed

lemma did_sq:
  assumes "did P m e h" and "\<And>h1. m e h = (Done (), h1) \<Longrightarrow> did P n e h1"
  shows "did P (sq m n) e h"
  using assms unfolding sq_def by (intro did_bd) auto

lemma did_output: "P (Output s) \<Longrightarrow> did P n e (h @ [Output s]) \<Longrightarrow> did P (sq (write_output s) n) e h"
  by (rule did_sq) (auto simp: write_output_def emit_def did_def)

subsection \<open>Postconditions\<close>

text \<open>\<open>then_holds m e h Q\<close>: if \<open>m\<close> ends normally, its result and the events it added satisfy \<open>Q\<close>.\<close>

definition then_holds :: "('e, 'a) prog \<Rightarrow> 'e \<Rightarrow> history \<Rightarrow> ('a \<Rightarrow> history \<Rightarrow> bool) \<Rightarrow> bool" where
  "then_holds m e h Q \<longleftrightarrow> (\<forall>x h'. m e h = (Done x, h') \<longrightarrow> Q x h')"

lemma then_holds_bd: "then_holds m e h (\<lambda>x h'. then_holds (f x) e h' Q) \<Longrightarrow> then_holds (bd m f) e h Q"
  by (auto simp: then_holds_def bd_eq_Done)

lemma then_holds_mono: "then_holds m e h Q \<Longrightarrow> (\<And>x h'. Q x h' \<Longrightarrow> R x h') \<Longrightarrow> then_holds m e h R"
  by (auto simp: then_holds_def)

lemma then_holds_simps [simp]:
  "then_holds (pure x) e h Q \<longleftrightarrow> Q x h"
  "then_holds (ask f) e h Q \<longleftrightarrow> Q (f e h) h"
  "then_holds (emit ev) e h R \<longleftrightarrow> R () (h @ [ev])"
  by (simp_all add: then_holds_def)

lemma then_holds_foldp:
  assumes "I [] s h"
    and "\<And>ys x s h. \<lbrakk>prefix (ys @ [x]) xs; I ys s h\<rbrakk> \<Longrightarrow> then_holds (f x s) e h (I (ys @ [x]))"
  shows "then_holds (foldp f xs s) e h (I xs)"
proof -
  have "then_holds (foldp f zs t) e g (I (ys @ zs))" if "I ys t g" "xs = ys @ zs" for ys zs t g
    using that
  proof (induction zs arbitrary: ys t g)
    case (Cons z zs)
    have "then_holds (f z t) e g (I (ys @ [z]))"
      using Cons.prems by (intro assms(2)) (simp_all add: prefix_def)
    then show ?case
      using Cons.IH [of "ys @ [z]"] Cons.prems(2)
      by (auto intro!: then_holds_bd elim!: then_holds_mono)
  qed simp
  from this [of "[]" s h xs] show ?thesis using assms(1) by simp
qed

text \<open>A loop over an index whose steps all end normally.\<close>

lemma foldp_upto:
  assumes "I 0 s" and "\<And>i s h. i < n \<Longrightarrow> I i s \<Longrightarrow> \<exists>s' h'. step i s e h = (Done s', h') \<and> I (Suc i) s'"
  shows "\<exists>s' h'. foldp step [0..<n] s e h = (Done s', h') \<and> I n s'"
proof -
  have "k \<le> n \<Longrightarrow> \<exists>s' h'. foldp step [0..<k] s e h = (Done s', h') \<and> I k s'" for k
  proof (induction k)
    case (Suc k)
    then obtain s1 h1 where "foldp step [0..<k] s e h = (Done s1, h1)" "I k s1" by auto
    moreover obtain s2 h2 where "step k s1 e h1 = (Done s2, h2)" "I (Suc k) s2"
      using assms(2) Suc.prems \<open>I k s1\<close> by (meson Suc_le_eq)
    ultimately show ?case by (auto simp: foldp_append)
  qed (simp add: assms(1))
  then show ?thesis by blast
qed

text \<open>The same with the events \<open>t\<close> the loop has added.\<close>

lemma foldp_history:
  assumes "I 0 s []"
    and "\<And>i s t. i < n \<Longrightarrow> I i s t \<Longrightarrow> \<exists>s' u. step i s e (h @ t) = (Done s', h @ t @ u) \<and> I (Suc i) s' (t @ u)"
  shows "\<exists>s' t. foldp step [0..<n] s e h = (Done s', h @ t) \<and> I n s' t"
proof -
  have "k \<le> n \<Longrightarrow> \<exists>s' t. foldp step [0..<k] s e h = (Done s', h @ t) \<and> I k s' t" for k
  proof (induction k)
    case (Suc k)
    then obtain s1 t where t: "foldp step [0..<k] s e h = (Done s1, h @ t)" "I k s1 t" by auto
    moreover obtain s2 u where "step k s1 e (h @ t) = (Done s2, h @ t @ u)" "I (Suc k) s2 (t @ u)"
      using assms(2) Suc.prems t(2) by (meson Suc_le_eq)
    ultimately show ?case by (auto simp: foldp_append)
  qed (simp add: assms(1) exI [of _ "[]"])
  then show ?thesis by blast
qed

subsection \<open>Formatting\<close>

fun show_nat :: "nat \<Rightarrow> string" where
  "show_nat n = (if n < 10 then [char_of (48 + n)] else show_nat (n div 10) @ [char_of (48 + n mod 10)])"

declare show_nat.simps [simp del]

text \<open>\<open>%d\<close>, \<open>%0wd\<close>, \<open>%ws\<close> and \<open>%-ws\<close>.\<close>

definition show_int :: "int \<Rightarrow> string" where
  "show_int n = (if n < 0 then CHR ''-'' # show_nat (nat (- n)) else show_nat (nat n))"

definition pad_left :: "nat \<Rightarrow> char \<Rightarrow> string \<Rightarrow> string" where
  "pad_left w c s = replicate (w - length s) c @ s"

definition pad_right :: "nat \<Rightarrow> string \<Rightarrow> string" where
  "pad_right w s = s @ replicate (w - length s) CHR '' ''"

text \<open>\<open>'%s'\<close>.\<close>

definition quoted :: "string \<Rightarrow> string" where
  "quoted s = [CHR 0x27] @ s @ [CHR 0x27]"

definition show_int0 :: "nat \<Rightarrow> int \<Rightarrow> string" where
  "show_int0 w n =
     (if n < 0 then CHR ''-'' # pad_left (w - 1) CHR ''0'' (show_nat (nat (- n)))
      else pad_left w CHR ''0'' (show_nat (nat n)))"

end
