(* ===== verification/Json.thy ===== *)
theory Json imports CStrings begin

text \<open>
  JSON values as the code walks them (\<open>cjson/cJSON.h\<close>, \<open>cjson/cJSON.c\<close>): the \<open>cJSON\<close> struct with
  its chain of children as a list, and the accessors the program calls. A \<open>cJSON *\<close> is an
  option, \<open>None\<close> for NULL. \<open>valuedouble\<close> is never read and left out.
\<close>

datatype cJSON_type =
  cJSON_False | cJSON_True | cJSON_NULL | cJSON_Number | cJSON_String | cJSON_Array | cJSON_Object

datatype cJSON =
  CJSON (json_type: cJSON_type) (json_child: "cJSON list") (valuestring: string) (valueint: int)
    (json_name: "string option")

definition cJSON_IsNumber :: "cJSON option \<Rightarrow> bool" where
  "cJSON_IsNumber item = (case item of None \<Rightarrow> False | Some j \<Rightarrow> json_type j = cJSON_Number)"

definition cJSON_IsString :: "cJSON option \<Rightarrow> bool" where
  "cJSON_IsString item = (case item of None \<Rightarrow> False | Some j \<Rightarrow> json_type j = cJSON_String)"

text \<open>\<open>cJSON_ArrayForEach\<close> goes over this list.\<close>

definition cJSON_children :: "cJSON option \<Rightarrow> cJSON list" where
  "cJSON_children array = (case array of None \<Rightarrow> [] | Some j \<Rightarrow> json_child j)"

definition cJSON_GetArraySize :: "cJSON option \<Rightarrow> int" where
  "cJSON_GetArraySize array = to_int32 (int (length (cJSON_children array)))"

text \<open>The case sensitive walk of \<open>get_object_item\<close>: it stops at a child without a name.\<close>

fun get_object_item :: "string \<Rightarrow> cJSON list \<Rightarrow> cJSON option" where
  "get_object_item name [] = None"
| "get_object_item name (j # js) =
     (case json_name j of
        None \<Rightarrow> None
      | Some n \<Rightarrow> if n = name then Some j else get_object_item name js)"

definition cJSON_GetObjectItemCaseSensitive :: "cJSON option \<Rightarrow> string \<Rightarrow> cJSON option" where
  "cJSON_GetObjectItemCaseSensitive object name = get_object_item name (cJSON_children object)"

text \<open>The C string \<open>item->valuestring\<close> after a check with \<open>cJSON_IsString\<close>.\<close>

definition string_value :: "cJSON option \<Rightarrow> string option" where
  "string_value item = (if cJSON_IsString item then map_option (\<lambda>j. cstr (valuestring j)) item else None)"

lemma get_object_item_name: "get_object_item name js = Some j \<Longrightarrow> j \<in> set js \<and> json_name j = Some name"
  by (induction js) (auto split: option.splits if_splits)

text \<open>Values as a parser builds them, to state examples.\<close>

definition jstring :: "string \<Rightarrow> cJSON" where
  "jstring s = CJSON cJSON_String [] s 0 None"

definition jnumber :: "int \<Rightarrow> cJSON" where
  "jnumber n = CJSON cJSON_Number [] [] n None"

definition jarray :: "cJSON list \<Rightarrow> cJSON" where
  "jarray js = CJSON cJSON_Array js [] 0 None"

definition named :: "string \<Rightarrow> cJSON \<Rightarrow> cJSON" where
  "named n j = CJSON (json_type j) (json_child j) (valuestring j) (valueint j) (Some n)"

definition jobject :: "(string \<times> cJSON) list \<Rightarrow> cJSON" where
  "jobject ms = CJSON cJSON_Object (map (\<lambda>(n, j). named n j) ms) [] 0 None"

end
