(* ===== verification/JsonParser.thy ===== *)
theory JsonParser imports Json begin

text \<open>
  The parser of cJSON (\<open>code/include_linux/cjson/cJSON.c\<close>, the file under \<open>include_win32\<close> is the same):
  \<open>cJSON_Parse\<close> and all it calls. The text with its terminating NUL is \<open>buf_content\<close>, a position in it is
  \<open>buf_offset\<close>. The struct \<open>cJSON\<close> that C fills is returned; when a function fails its struct is
  deleted, and the offset of the error, which the program never asks for, is left out.
  Allocations succeed. A read outside the buffer is \<open>Out_of_bounds\<close>; \<open>Out_of_fuel\<close> is a bound of the
  model: \<open>parse_value\<close> takes one for the nesting, the loops over elements and members one for the
  number of rounds. Theory JsonSpec shows that neither happens.
\<close>

unbundle bit_operations_syntax

subsection \<open>Results\<close>

datatype 'a parsed = Parsed 'a | Failed | Out_of_bounds | Out_of_fuel

fun and_then :: "'a parsed \<Rightarrow> ('a \<Rightarrow> 'b parsed) \<Rightarrow> 'b parsed" where
  "and_then (Parsed x) f = f x"
| "and_then Failed f = Failed"
| "and_then Out_of_bounds f = Out_of_bounds"
| "and_then Out_of_fuel f = Out_of_fuel"

lemma and_then_cong [fundef_cong]:
  "p = p' \<Longrightarrow> (\<And>x. p' = Parsed x \<Longrightarrow> f x = f' x) \<Longrightarrow> and_then p f = and_then p' f'"
  by (cases p') auto

lemma and_then_eq_Parsed: "and_then p f = Parsed y \<longleftrightarrow> (\<exists>x. p = Parsed x \<and> f x = Parsed y)"
  by (cases p) auto

subsection \<open>The buffer\<close>

record parse_buffer =
  buf_content :: string
  buf_offset :: nat
  buf_depth :: nat

definition can_read :: "parse_buffer \<Rightarrow> nat \<Rightarrow> bool" where
  "can_read b n \<longleftrightarrow> buf_offset b + n \<le> length (buf_content b)"

definition can_access_at_index :: "parse_buffer \<Rightarrow> nat \<Rightarrow> bool" where
  "can_access_at_index b index \<longleftrightarrow> buf_offset b + index < length (buf_content b)"

text \<open>\<open>buffer_at_offset(b)\<close> as the bytes from there on, \<open>advance\<close> is \<open>offset += n\<close>.\<close>

definition buffer_at_offset :: "parse_buffer \<Rightarrow> string" where
  "buffer_at_offset b = drop (buf_offset b) (buf_content b)"

definition advance :: "nat \<Rightarrow> parse_buffer \<Rightarrow> parse_buffer" where
  "advance n b = b\<lparr>buf_offset := buf_offset b + n\<rparr>"

definition step_back :: "parse_buffer \<Rightarrow> parse_buffer" where
  "step_back b = b\<lparr>buf_offset := buf_offset b - 1\<rparr>"

text \<open>\<open>can_access_at_index(b, 0) && buffer_at_offset(b)[0] == c\<close>, which never reads outside.\<close>

definition looks_at :: "parse_buffer \<Rightarrow> char \<Rightarrow> bool" where
  "looks_at b c \<longleftrightarrow> can_access_at_index b 0 \<and> buf_content b ! buf_offset b = c"

text \<open>\<open>buffer_at_offset(b)[0]\<close> without a check before it.\<close>

definition read_first :: "parse_buffer \<Rightarrow> char parsed" where
  "read_first b = (if can_access_at_index b 0 then Parsed (buf_content b ! buf_offset b) else Out_of_bounds)"

function skip_loop :: "parse_buffer \<Rightarrow> parse_buffer" where
  "skip_loop b =
     (if can_access_at_index b 0 \<and> code (buf_content b ! buf_offset b) \<le> 32 then skip_loop (advance 1 b) else b)"
  by pat_completeness auto
termination
  by (relation "measure (\<lambda>b. length (buf_content b) - buf_offset b)") (auto simp: can_access_at_index_def advance_def)

declare skip_loop.simps [simp del]

definition buffer_skip_whitespace :: "parse_buffer \<Rightarrow> parse_buffer" where
  "buffer_skip_whitespace b =
     (if \<not> can_access_at_index b 0 then b
      else let b = skip_loop b
           in if buf_offset b = length (buf_content b) then step_back b else b)"

text \<open>\<open>None\<close> is NULL.\<close>

definition skip_utf8_bom :: "parse_buffer \<Rightarrow> parse_buffer option" where
  "skip_utf8_bom b =
     (if buf_offset b \<noteq> 0 then None
      else if can_access_at_index b 4 \<and> take 3 (buffer_at_offset b) = [CHR 0xEF, CHR 0xBB, CHR 0xBF]
      then Some (advance 3 b)
      else Some b)"

subsection \<open>Numbers\<close>

definition is_number_char :: "char \<Rightarrow> bool" where
  "is_number_char c \<longleftrightarrow> is_digit c \<or> c \<in> set ''+-eE.''"

text \<open>
  \<open>strtod\<close> of the C library, on texts of these characters: the sign, the decimal mantissa and
  exponent, and what follows the number; \<open>None\<close> if there is no number.
\<close>

definition digits_value :: "string \<Rightarrow> int" where
  "digits_value ds = foldl (\<lambda>n c. 10 * n + (int (code c) - 48)) 0 ds"

definition is_sign :: "char \<Rightarrow> bool" where
  "is_sign c \<longleftrightarrow> c = CHR ''+'' \<or> c = CHR ''-''"

definition after_sign :: "string \<Rightarrow> string" where
  "after_sign s = (case s of c # t \<Rightarrow> if is_sign c then t else s | [] \<Rightarrow> s)"

definition is_negative :: "string \<Rightarrow> bool" where
  "is_negative s \<longleftrightarrow> take 1 s = ''-''"

definition exponent_part :: "string \<Rightarrow> int \<times> string" where
  "exponent_part s =
     (case s of
        c # t \<Rightarrow>
          let ds = takeWhile is_digit (after_sign t)
          in if (c = CHR ''e'' \<or> c = CHR ''E'') \<and> ds \<noteq> []
             then (if is_negative t then - digits_value ds else digits_value ds,
                   dropWhile is_digit (after_sign t))
             else (0, s)
      | [] \<Rightarrow> (0, s))"

definition fraction_part :: "string \<Rightarrow> string \<times> string" where
  "fraction_part s =
     (case s of
        c # t \<Rightarrow> if c = CHR ''.'' then (takeWhile is_digit t, dropWhile is_digit t) else ([], s)
      | [] \<Rightarrow> ([], s))"

definition strtod :: "string \<Rightarrow> (bool \<times> int \<times> int \<times> string) option" where
  "strtod s =
     (let t = after_sign s;
          whole = takeWhile is_digit t;
          (fraction, u) = fraction_part (dropWhile is_digit t);
          (e, rest) = exponent_part u
      in if whole = [] \<and> fraction = [] then None
         else Some (is_negative s, digits_value (whole @ fraction), e - int (length fraction), rest))"

text \<open>
  The integer part of the \<open>double\<close> nearest to \<open>p / q\<close>, ties to even: below \<open>2 ^ 53\<close> a double has 53
  binary digits, of which the integer part takes \<open>bits\<close>.
\<close>

function bit_width :: "int \<Rightarrow> nat" where
  "bit_width n = (if n \<le> 0 then 0 else Suc (bit_width (n div 2)))"
  by pat_completeness auto
termination
  by (relation "measure nat") auto

declare bit_width.simps [simp del]

definition double_integer_part :: "int \<Rightarrow> int \<Rightarrow> int" where
  "double_integer_part p q =
     (let bits = bit_width (p div q);
          scale = 2 ^ (53 - bits);
          low = p * scale div q;
          r = p * scale mod q
      in (if q < 2 * r \<or> (q = 2 * r \<and> odd low) then low + 1 else low) div scale)"

text \<open>\<open>item->valueint\<close>: the conversion to \<open>int\<close> with saturation.\<close>

definition number_valueint :: "bool \<Rightarrow> int \<Rightarrow> int \<Rightarrow> int" where
  "number_valueint neg mantissa e =
     (let n = double_integer_part (mantissa * 10 ^ nat e) (10 ^ nat (- e))
      in if neg then (if 2 ^ 31 \<le> n then - (2 ^ 31) else - n)
         else if 2 ^ 31 - 1 \<le> n then 2 ^ 31 - 1 else n)"

definition parse_number :: "parse_buffer \<Rightarrow> (cJSON \<times> parse_buffer) parsed" where
  "parse_number b =
     (let number_c_string = takeWhile is_number_char (take 63 (buffer_at_offset b))
      in case strtod number_c_string of
           None \<Rightarrow> Failed
         | Some (neg, mantissa, e, after_end) \<Rightarrow>
             Parsed (jnumber (number_valueint neg mantissa e),
                     advance (length number_c_string - length after_end) b))"

subsection \<open>Strings\<close>

definition hex_digit :: "char \<Rightarrow> int option" where
  "hex_digit c =
     (let n = int (code c)
      in if 48 \<le> n \<and> n \<le> 57 then Some (n - 48)
         else if 65 \<le> n \<and> n \<le> 70 then Some (10 + n - 65)
         else if 97 \<le> n \<and> n \<le> 102 then Some (10 + n - 97)
         else None)"

text \<open>The loop of \<open>parse_hex4\<close> over the four characters; 0 when one of them is no digit.\<close>

fun parse_hex4 :: "int \<Rightarrow> string \<Rightarrow> int" where
  "parse_hex4 h [] = h"
| "parse_hex4 h (c # cs) =
     (case hex_digit c of
        None \<Rightarrow> 0
      | Some d \<Rightarrow> if cs = [] then h + d else parse_hex4 (push_bit 4 (h + d)) cs)"

text \<open>The loop over the bytes after the first, from the last on, and the first byte.\<close>

fun utf8_bytes :: "int \<Rightarrow> int \<Rightarrow> nat \<Rightarrow> string" where
  "utf8_bytes first_byte_mark codepoint 0 = [char_of ((codepoint OR first_byte_mark) AND 0xFF)]"
| "utf8_bytes first_byte_mark codepoint (Suc n) =
     utf8_bytes first_byte_mark (drop_bit 6 codepoint) n @ [char_of ((codepoint OR 0x80) AND 0xBF)]"

definition encode_utf8 :: "int \<Rightarrow> string option" where
  "encode_utf8 codepoint =
     (if codepoint < 0x80 then Some [char_of (codepoint AND 0x7F)]
      else if codepoint < 0x800 then Some (utf8_bytes 0xC0 codepoint 1)
      else if codepoint < 0x10000 then Some (utf8_bytes 0xE0 codepoint 2)
      else if codepoint \<le> 0x10FFFF then Some (utf8_bytes 0xF0 codepoint 3)
      else None)"

text \<open>
  The bytes from \<open>input_pointer\<close> to \<open>input_end\<close> are given. The length of the sequence and the bytes
  written; \<open>None\<close> is the length 0.
\<close>

definition utf16_literal_to_utf8 :: "string \<Rightarrow> (nat \<times> string) option" where
  "utf16_literal_to_utf8 input =
     (if length input < 6 then None
      else let first_code = parse_hex4 0 (take 4 (drop 2 input)) in
      if 0xDC00 \<le> first_code \<and> first_code \<le> 0xDFFF then None
      else if 0xD800 \<le> first_code \<and> first_code \<le> 0xDBFF
      then let second_sequence = drop 6 input in
        if length second_sequence < 6 then None
        else if take 2 second_sequence \<noteq> [CHR 0x5C, CHR ''u''] then None
        else let second_code = parse_hex4 0 (take 4 (drop 2 second_sequence)) in
        if second_code < 0xDC00 \<or> 0xDFFF < second_code then None
        else map_option (\<lambda>out. (12, out))
          (encode_utf8 (0x10000 + (push_bit 10 (first_code AND 0x3FF) OR (second_code AND 0x3FF))))
      else map_option (\<lambda>out. (6, out)) (encode_utf8 first_code))"

lemma utf16_literal_length: "utf16_literal_to_utf8 s = Some (k, out) \<Longrightarrow> k = 6 \<or> k = 12"
  by (auto simp: utf16_literal_to_utf8_def Let_def split: if_splits)

text \<open>The first pass over a string: how many bytes there are before its closing quote.\<close>

fun find_string_end :: "string \<Rightarrow> nat option" where
  "find_string_end [] = None"
| "find_string_end (c # s) =
     (if c = CHR 0x22 then Some 0
      else if c = CHR 0x5C
      then (case s of [] \<Rightarrow> None | d # s' \<Rightarrow> map_option (\<lambda>n. n + 2) (find_string_end s'))
      else map_option (\<lambda>n. n + 1) (find_string_end s))"

definition escape_value :: "char \<Rightarrow> char option" where
  "escape_value c =
     map_of [(CHR ''b'', CHR 0x08), (CHR ''f'', CHR 0x0C), (CHR ''n'', CHR 0x0A), (CHR ''r'', CHR 0x0D),
       (CHR ''t'', CHR 0x09), (CHR 0x22, CHR 0x22), (CHR 0x5C, CHR 0x5C), (CHR ''/'', CHR ''/'')] c"

text \<open>
  The second pass: \<open>n\<close> is \<open>input_end - input_pointer\<close>, 0 when the pointer has passed the end, and the
  bytes are those from \<open>input_pointer\<close> on.
\<close>

function unescape :: "nat \<Rightarrow> string \<Rightarrow> string parsed" where
  "unescape n s =
     (if n = 0 then Parsed []
      else case s of
        [] \<Rightarrow> Out_of_bounds
      | c # s1 \<Rightarrow>
          if c \<noteq> CHR 0x5C then and_then (unescape (n - 1) s1) (\<lambda>out. Parsed (c # out))
          else (case s1 of
            [] \<Rightarrow> Out_of_bounds
          | e # s2 \<Rightarrow>
              if e = CHR ''u''
              then (case utf16_literal_to_utf8 (take n s) of
                      None \<Rightarrow> Failed
                    | Some (k, bytes) \<Rightarrow> and_then (unescape (n - k) (drop k s)) (\<lambda>out. Parsed (bytes @ out)))
              else (case escape_value e of
                      None \<Rightarrow> Failed
                    | Some x \<Rightarrow> and_then (unescape (n - 2) s2) (\<lambda>out. Parsed (x # out)))))"
  by pat_completeness auto
termination
  by (relation "measure fst") (auto dest!: utf16_literal_length)

declare unescape.simps [simp del]

text \<open>The output is zero terminated: what follows a NUL in it is never read.\<close>

definition parse_string :: "parse_buffer \<Rightarrow> (string \<times> parse_buffer) parsed" where
  "parse_string b =
     and_then (read_first b) (\<lambda>c.
       if c \<noteq> CHR 0x22 then Failed
       else let input_pointer = drop 1 (buffer_at_offset b) in
         case find_string_end input_pointer of
           None \<Rightarrow> Failed
         | Some n \<Rightarrow> and_then (unescape n input_pointer) (\<lambda>output. Parsed (cstr output, advance (n + 2) b)))"

subsection \<open>Values\<close>

definition CJSON_NESTING_LIMIT :: nat where "CJSON_NESTING_LIMIT = 1000"

text \<open>The loops over the elements of an array and over the members of an object; \<open>parse_value\<close> is given.\<close>

fun parse_elements ::
  "(parse_buffer \<Rightarrow> (cJSON \<times> parse_buffer) parsed) \<Rightarrow> nat \<Rightarrow> parse_buffer \<Rightarrow> (cJSON list \<times> parse_buffer) parsed" where
  "parse_elements parse_value 0 b = Out_of_fuel"
| "parse_elements parse_value (Suc n) b =
     and_then (parse_value (buffer_skip_whitespace (advance 1 b))) (\<lambda>(item, b).
       let b = buffer_skip_whitespace b
       in if looks_at b (CHR '','')
          then and_then (parse_elements parse_value n b) (\<lambda>(items, b). Parsed (item # items, b))
          else Parsed ([item], b))"

definition parse_array :: "(parse_buffer \<Rightarrow> (cJSON \<times> parse_buffer) parsed) \<Rightarrow> parse_buffer \<Rightarrow> (cJSON \<times> parse_buffer) parsed" where
  "parse_array parse_value b =
     (if CJSON_NESTING_LIMIT \<le> buf_depth b then Failed
      else let b = b\<lparr>buf_depth := buf_depth b + 1\<rparr> in
        and_then (read_first b) (\<lambda>c.
          if c \<noteq> CHR ''['' then Failed
          else let b = buffer_skip_whitespace (advance 1 b) in
            if looks_at b (CHR '']'')
            then Parsed (jarray [], advance 1 (b\<lparr>buf_depth := buf_depth b - 1\<rparr>))
            else if \<not> can_access_at_index b 0 then Failed
            else and_then (parse_elements parse_value (length (buf_content b)) (step_back b)) (\<lambda>(items, b).
              if \<not> looks_at b (CHR '']'') then Failed
              else Parsed (jarray items, advance 1 (b\<lparr>buf_depth := buf_depth b - 1\<rparr>)))))"

fun parse_members ::
  "(parse_buffer \<Rightarrow> (cJSON \<times> parse_buffer) parsed) \<Rightarrow> nat \<Rightarrow> parse_buffer \<Rightarrow> ((string \<times> cJSON) list \<times> parse_buffer) parsed" where
  "parse_members parse_value 0 b = Out_of_fuel"
| "parse_members parse_value (Suc n) b =
     and_then (parse_string (buffer_skip_whitespace (advance 1 b))) (\<lambda>(name, b).
       let b = buffer_skip_whitespace b
       in if \<not> looks_at b (CHR '':'') then Failed
          else and_then (parse_value (buffer_skip_whitespace (advance 1 b))) (\<lambda>(item, b).
            let b = buffer_skip_whitespace b
            in if looks_at b (CHR '','')
               then and_then (parse_members parse_value n b) (\<lambda>(items, b). Parsed ((name, item) # items, b))
               else Parsed ([(name, item)], b)))"

definition parse_object :: "(parse_buffer \<Rightarrow> (cJSON \<times> parse_buffer) parsed) \<Rightarrow> parse_buffer \<Rightarrow> (cJSON \<times> parse_buffer) parsed" where
  "parse_object parse_value b =
     (if CJSON_NESTING_LIMIT \<le> buf_depth b then Failed
      else let b = b\<lparr>buf_depth := buf_depth b + 1\<rparr> in
        if \<not> looks_at b (CHR ''{'') then Failed
        else let b = buffer_skip_whitespace (advance 1 b) in
          if looks_at b (CHR ''}'')
          then Parsed (jobject [], advance 1 (b\<lparr>buf_depth := buf_depth b - 1\<rparr>))
          else if \<not> can_access_at_index b 0 then Failed
          else and_then (parse_members parse_value (length (buf_content b)) (step_back b)) (\<lambda>(items, b).
            if \<not> looks_at b (CHR ''}'') then Failed
            else Parsed (jobject items, advance 1 (b\<lparr>buf_depth := buf_depth b - 1\<rparr>))))"

definition reads_literal :: "string \<Rightarrow> parse_buffer \<Rightarrow> bool" where
  "reads_literal s b \<longleftrightarrow> can_read b (length s) \<and> take (length s) (buffer_at_offset b) = s"

definition looks_at_number :: "parse_buffer \<Rightarrow> bool" where
  "looks_at_number b \<longleftrightarrow> can_access_at_index b 0 \<and>
     (buf_content b ! buf_offset b = CHR ''-'' \<or> is_digit (buf_content b ! buf_offset b))"

fun parse_value :: "nat \<Rightarrow> parse_buffer \<Rightarrow> (cJSON \<times> parse_buffer) parsed" where
  "parse_value 0 b = Out_of_fuel"
| "parse_value (Suc n) b =
     (if reads_literal ''null'' b then Parsed (CJSON cJSON_NULL [] [] 0 None, advance 4 b)
      else if reads_literal ''false'' b then Parsed (CJSON cJSON_False [] [] 0 None, advance 5 b)
      else if reads_literal ''true'' b then Parsed (CJSON cJSON_True [] [] 1 None, advance 4 b)
      else if looks_at b (CHR 0x22) then and_then (parse_string b) (\<lambda>(s, b). Parsed (jstring s, b))
      else if looks_at_number b then parse_number b
      else if looks_at b (CHR ''['') then parse_array (parse_value n) b
      else if looks_at b (CHR ''{'') then parse_object (parse_value n) b
      else Failed)"

declare parse_value.simps [simp del]

definition cJSON_ParseWithLengthOpts :: "string \<Rightarrow> bool \<Rightarrow> cJSON parsed" where
  "cJSON_ParseWithLengthOpts value require_null_terminated =
     (if value = [] then Failed
      else let buffer = \<lparr>buf_content = value, buf_offset = 0, buf_depth = 0\<rparr> in
        case skip_utf8_bom buffer of
          None \<Rightarrow> Failed
        | Some b \<Rightarrow>
            and_then (parse_value (CJSON_NESTING_LIMIT + 1) (buffer_skip_whitespace b)) (\<lambda>(item, b).
              if require_null_terminated \<and> \<not> looks_at (buffer_skip_whitespace b) NUL then Failed
              else Parsed item))"

definition cJSON_ParseWithOpts :: "string \<Rightarrow> bool \<Rightarrow> cJSON parsed" where
  "cJSON_ParseWithOpts value require_null_terminated =
     cJSON_ParseWithLengthOpts (cstr value @ [NUL]) require_null_terminated"

definition parse_text :: "string \<Rightarrow> cJSON parsed" where
  "parse_text value = cJSON_ParseWithOpts value False"

text \<open>The pointer \<open>cJSON_Parse\<close> returns, \<open>None\<close> for NULL.\<close>

definition cJSON_Parse :: "string \<Rightarrow> cJSON option" where
  "cJSON_Parse value = (case parse_text value of Parsed item \<Rightarrow> Some item | _ \<Rightarrow> None)"

end
