(* ===== verification/Platform.thy ===== *)
theory Platform imports Effects JsonParser begin

text \<open>
  The environment of the program and the calls through which it acts: the \<open>Platform\<close> table of
  \<open>code/hand_platform.h\<close>, the file functions of the C library, and what the program uses of
  libcurl and libgit2. Each answer is a function of the history, so nothing is assumed
  about it; each action that changes the outside is an event of the history.
\<close>

text \<open>
  \<open>transfer_status\<close> is the response code (0 without a response); \<open>transfer_result\<close> the result of
  the transfer's \<open>CURLMSG_DONE\<close> message, \<open>None\<close> if there is none since the loop was broken off.
\<close>

record transfer =
  transfer_status :: int
  transfer_body :: string
  transfer_result :: "int option"

text \<open>A call of a progress callback by \<open>wait_for_completion\<close>.\<close>

datatype callback = Progression nat | Completion nat int string

record env =
  root_dir :: string
  cache_dir :: string
  log_dir :: string
  git_temporary_dir :: string
  loop_fuel :: nat
  multi_init :: "history \<Rightarrow> bool"
  easy_init :: "history \<Rightarrow> bool"
  easy_setup :: "history \<Rightarrow> request \<Rightarrow> string option"
  transfers :: "history \<Rightarrow> nat \<Rightarrow> request \<Rightarrow> transfer"
  fopen_read :: "history \<Rightarrow> string \<Rightarrow> string option"
  fopen_write :: "history \<Rightarrow> string \<Rightarrow> bool"
  dir_exists :: "history \<Rightarrow> string \<Rightarrow> bool"
  run_works :: "history \<Rightarrow> int \<Rightarrow> work list \<Rightarrow> callback list"
  git_result :: "history \<Rightarrow> git_call \<Rightarrow> bool"
  git_reset_paths :: "history \<Rightarrow> string list"
  git_error :: "history \<Rightarrow> string"
  now :: "history \<Rightarrow> int"
  score_text :: "string \<Rightarrow> string"

text \<open>An environment in which everything succeeds, to state examples: its pages and its files.\<close>

definition sample_env ::
  "(string \<Rightarrow> string) \<Rightarrow> (string \<Rightarrow> string option) \<Rightarrow> env" where
  "sample_env body files =
     \<lparr>root_dir = ''/hand'', cache_dir = ''/hand/cache'', log_dir = ''/hand/log'',
      git_temporary_dir = ''/hand/cache/tmp'', loop_fuel = 100, multi_init = \<lambda>h. True, easy_init = \<lambda>h. True,
      easy_setup = \<lambda>h r. None,
      transfers = \<lambda>h i r. \<lparr>transfer_status = 200, transfer_body = body (req_url r), transfer_result = Some 0\<rparr>,
      fopen_read = \<lambda>h path. files path, fopen_write = \<lambda>h path. True,
      dir_exists = \<lambda>h path. True,
      run_works = \<lambda>h n ws. map (\<lambda>i. Completion i 0 []) [0..<length ws],
      git_result = \<lambda>h c. True, git_reset_paths = \<lambda>h. [], git_error = \<lambda>h. [], now = \<lambda>h. 0,
      score_text = id\<rparr>"

type_synonym 'a io = "(env, 'a) prog"

subsection \<open>Directories and files\<close>

definition delete_directory :: "string \<Rightarrow> unit io" where
  "delete_directory path = emit (Delete_directory path)"

definition create_directory :: "string \<Rightarrow> unit io" where
  "create_directory path = emit (Create_directory path)"

definition rename_directory :: "string \<Rightarrow> string \<Rightarrow> unit io" where
  "rename_directory target source = emit (Rename_directory target source)"

definition copy_directory :: "string \<Rightarrow> string \<Rightarrow> unit io" where
  "copy_directory target source = emit (Copy_directory target source)"

definition delete_file :: "string \<Rightarrow> unit io" where
  "delete_file path = emit (Delete_file path)"

definition sleep :: "int \<Rightarrow> unit io" where
  "sleep ms = emit (Sleep ms)"

definition directory_exists :: "string \<Rightarrow> bool io" where
  "directory_exists path = ask (\<lambda>e h. dir_exists e h path)"

text \<open>\<open>read_entire_file\<close>: the content, or nothing when the file cannot be opened.\<close>

definition read_file :: "string \<Rightarrow> string io" where
  "read_file path = ask (\<lambda>e h. case fopen_read e h path of Some s \<Rightarrow> s | None \<Rightarrow> [])"

text \<open>\<open>fopen\<close> for writing: truncates the file, if it can be opened.\<close>

definition open_write :: "string \<Rightarrow> bool io" where
  "open_write path = bd (ask (\<lambda>e h. fopen_write e h path)) (\<lambda>ok.
     if ok then sq (emit (Open_write path)) (pure True) else pure False)"

definition write_file :: "string \<Rightarrow> string \<Rightarrow> unit io" where
  "write_file path s = emit (Write_file path s)"

subsection \<open>Other libraries\<close>

definition call_git :: "git_call \<Rightarrow> bool io" where
  "call_git c = bd (ask (\<lambda>e h. git_result e h c)) (\<lambda>ok. sq (emit (Git c)) (pure ok))"

definition git_error_last :: "string io" where
  "git_error_last = ask (\<lambda>e h. git_error e h)"

text \<open>\<open>cJSON_Parse\<close> of a response, with the message for a response that does not parse.\<close>

definition parse_response :: "string \<Rightarrow> cJSON option io" where
  "parse_response response =
     bd (pure (cJSON_Parse response)) (\<lambda>json.
     sq (whenp (deref response \<noteq> NUL \<and> json = None) (write_error (''JSON corrupted: '' @ response)))
        (pure json))"

subsection \<open>What these calls can do\<close>

lemma emits_platform [emits_intros]:
  "P (Delete_directory path) \<Longrightarrow> emits P (delete_directory path)"
  "P (Create_directory path) \<Longrightarrow> emits P (create_directory path)"
  "P (Rename_directory path source) \<Longrightarrow> emits P (rename_directory path source)"
  "P (Copy_directory path source) \<Longrightarrow> emits P (copy_directory path source)"
  "P (Delete_file path) \<Longrightarrow> emits P (delete_file path)"
  "P (Sleep ms) \<Longrightarrow> emits P (sleep ms)"
  "emits P (directory_exists path)"
  "emits P (read_file path)"
  "P (Open_write path) \<Longrightarrow> emits P (open_write path)"
  "P (Write_file path s) \<Longrightarrow> emits P (write_file path s)"
  unfolding delete_directory_def create_directory_def rename_directory_def copy_directory_def
    delete_file_def sleep_def directory_exists_def read_file_def open_write_def write_file_def
  by (intro emits_intros; assumption)+

lemma emits_libraries [emits_intros]:
  "P (Git c) \<Longrightarrow> emits P (call_git c)"
  "emits P git_error_last"
  "(\<And>s. P (ErrorMsg s)) \<Longrightarrow> emits P (parse_response response)"
  unfolding call_git_def git_error_last_def parse_response_def
  by (intro emits_intros; simp)+

lemma platform_apply [simp, run_simps]:
  "delete_directory path e h = (Done (), h @ [Delete_directory path])"
  "create_directory path e h = (Done (), h @ [Create_directory path])"
  "rename_directory path source e h = (Done (), h @ [Rename_directory path source])"
  "copy_directory path source e h = (Done (), h @ [Copy_directory path source])"
  "delete_file path e h = (Done (), h @ [Delete_file path])"
  "sleep ms e h = (Done (), h @ [Sleep ms])"
  "write_file path s e h = (Done (), h @ [Write_file path s])"
  "directory_exists path e h = (Done (dir_exists e h path), h)"
  "call_git c e h = (Done (git_result e h c), h @ [Git c])"
  by (simp_all add: delete_directory_def create_directory_def rename_directory_def copy_directory_def
      delete_file_def sleep_def write_file_def directory_exists_def call_git_def)

end
