(* ===== verification/CurlGroup.thy ===== *)
theory CurlGroup imports Platform begin

text \<open>
  Groups of parallel requests (\<open>CurlGroup\<close> of \<open>code/hand_curl.c\<close>): a grp is begun with a number
  of workers, each is assigned at most one request, all are completed together, and ending the
  grp tells if every worker did its transfer.

  libcurl's part, the loop of \<open>curl_multi_perform\<close> and \<open>curl_multi_poll\<close> included, is the
  \<open>transfers\<close> of the environment: the status, the body and the result of each transfer.
\<close>

definition MAX_URL_LEN :: nat where "MAX_URL_LEN = 256"

definition MAX_REST_HEADER_LEN :: nat where "MAX_REST_HEADER_LEN = 256"

text \<open>\<open>worker_handle\<close>: the request of the easy handle, if there is one.\<close>

record CurlWorker =
  worker_handle :: "request option"
  worker_status :: int
  worker_response :: string
  worker_result :: "int option"

record CurlGroup =
  group_handle :: bool
  group_workers :: "CurlWorker list"

definition idle_worker :: CurlWorker where
  "idle_worker = \<lparr>worker_handle = None, worker_status = 0, worker_response = [], worker_result = None\<rparr>"

definition begin_curl_group :: "nat \<Rightarrow> CurlGroup io" where
  "begin_curl_group worker_count =
     bd (ask multi_init) (\<lambda>handle.
     pure \<lparr>group_handle = handle, group_workers = replicate worker_count idle_worker\<rparr>)"

definition assign_work :: "CurlGroup \<Rightarrow> nat \<Rightarrow> request \<Rightarrow> CurlGroup io" where
  "assign_work grp index request =
     sq (assertion (index < length (group_workers grp)))
     (if \<not> group_handle grp then pure grp
      else bd (ask easy_init) (\<lambda>handle.
           if handle
           then bd (ask (\<lambda>e h. easy_setup e h request)) (\<lambda>err.
                case err of
                  None \<Rightarrow> pure (grp\<lparr>group_workers := (group_workers grp)
                            [index := (group_workers grp ! index)\<lparr>worker_handle := Some request\<rparr>]\<rparr>)
                | Some message \<Rightarrow> sq (write_error message) (pure grp))
           else sq (write_error ''curl_easy_init failed'') (pure grp)))"

text \<open>The requests of the workers that have one are sent, in the order of the workers.\<close>

definition group_requests :: "CurlGroup \<Rightarrow> request list" where
  "group_requests grp = List.map_filter worker_handle (group_workers grp)"

definition finish_worker :: "env \<Rightarrow> history \<Rightarrow> nat \<Rightarrow> CurlWorker \<Rightarrow> CurlWorker" where
  "finish_worker e h i worker =
     (case worker_handle worker of
        None \<Rightarrow> worker
      | Some request \<Rightarrow>
          let t = transfers e h i request
          in worker\<lparr>worker_status := transfer_status t, worker_response := transfer_body t,
                    worker_result := transfer_result t\<rparr>)"

definition complete_all_works :: "CurlGroup \<Rightarrow> CurlGroup io" where
  "complete_all_works grp =
     (if \<not> group_handle grp then pure grp
      else sq (each (\<lambda>r. emit (Http r)) (group_requests grp))
           (ask (\<lambda>e h. grp\<lparr>group_workers :=
              map (\<lambda>(i, w). finish_worker e h i w) (enumerate 0 (group_workers grp))\<rparr>)))"

text \<open>The messages of the finished transfers, and the workers that never had a handle.\<close>

definition end_curl_group :: "CurlGroup \<Rightarrow> bool" where
  "end_curl_group grp =
     (if group_handle grp
      then list_all (\<lambda>w. worker_result w = None \<or> worker_result w = Some 0) (group_workers grp)
           \<and> list_all (\<lambda>w. worker_handle w \<noteq> None) (group_workers grp)
      else True)"

definition get_response :: "CurlGroup \<Rightarrow> nat \<Rightarrow> string" where
  "get_response grp index = cstr (worker_response (group_workers grp ! index))"

definition crlf :: string where
  "crlf = [CHR 0x0D, CHR 0x0A]"

definition github_header :: "string \<Rightarrow> string" where
  "github_header github_token =
     ''Accept: application/vnd.github+json'' @ crlf @
     ''Authorization: Bearer '' @ github_token @ crlf @
     ''X-GitHub-Api-Version: 2022-11-28'' @ crlf @
     ''User-Agent: hand''"

definition format_github_header :: "string \<Rightarrow> string io" where
  "format_github_header github_token = format_string MAX_REST_HEADER_LEN (github_header github_token)"

definition assign_github_get :: "CurlGroup \<Rightarrow> nat \<Rightarrow> string \<Rightarrow> string \<Rightarrow> CurlGroup io" where
  "assign_github_get grp index url github_token =
     bd (format_github_header github_token) (\<lambda>header.
     assign_work grp index \<lparr>req_url = url, req_header = header, req_type = None, req_data = []\<rparr>)"

definition assign_github_post_like ::
  "CurlGroup \<Rightarrow> nat \<Rightarrow> string \<Rightarrow> string \<Rightarrow> string \<Rightarrow> string \<Rightarrow> CurlGroup io" where
  "assign_github_post_like grp index url github_token post_type post_data =
     bd (format_github_header github_token) (\<lambda>header.
     assign_work grp index \<lparr>req_url = url, req_header = header, req_type = Some post_type, req_data = post_data\<rparr>)"

definition get_sheet_header :: string where
  "get_sheet_header = ''Accept: application/json'' @ crlf @ ''User-Agent: hand''"

definition format_sheet_url :: "string \<Rightarrow> string \<Rightarrow> string io" where
  "format_sheet_url url google_token =
     format_string MAX_URL_LEN (url @ [if CHR ''?'' \<in> set url then CHR ''&'' else CHR ''?''] @ ''key='' @ google_token)"

definition assign_sheet_get :: "CurlGroup \<Rightarrow> nat \<Rightarrow> string \<Rightarrow> string \<Rightarrow> CurlGroup io" where
  "assign_sheet_get grp index url google_token =
     bd (format_sheet_url url google_token) (\<lambda>full_url.
     assign_work grp index \<lparr>req_url = full_url, req_header = get_sheet_header, req_type = None, req_data = []\<rparr>)"

subsection \<open>What groups do\<close>

text \<open>A request without a method of its own is a GET request: it only reads.\<close>

definition is_get :: "request \<Rightarrow> bool" where
  "is_get r \<longleftrightarrow> req_type r = None"

text \<open>\<open>workers_ok Q\<close>: every assigned request satisfies \<open>Q\<close>.\<close>

definition workers_ok :: "(request \<Rightarrow> bool) \<Rightarrow> CurlGroup \<Rightarrow> bool" where
  "workers_ok Q grp \<longleftrightarrow> (\<forall>r \<in> set (group_requests grp). Q r)"

lemma set_group_requests: "r \<in> set (group_requests g) \<longleftrightarrow> (\<exists>w \<in> set (group_workers g). worker_handle w = Some r)"
  by (force simp: group_requests_def List.map_filter_def)

lemma workers_ok_iff: "workers_ok Q g \<longleftrightarrow> (\<forall>w \<in> set (group_workers g). \<forall>r. worker_handle w = Some r \<longrightarrow> Q r)"
  by (auto simp: workers_ok_def set_group_requests)

lemma returns_begin: "returns (begin_curl_group n) (workers_ok Q)"
  by (auto simp: returns_def begin_curl_group_def bd_eq_Done workers_ok_iff idle_worker_def)

lemma emits_begin [emits_intros]: "emits P (begin_curl_group n)"
  unfolding begin_curl_group_def by (intro emits_intros)

lemma assign_work_result:
  assumes "assign_work g i r e h = (Done g', h')" and "workers_ok Q g" and "Q r"
  shows "workers_ok Q g' \<and> length (group_workers g') = length (group_workers g)"
  using assms set_update_subset_insert [of "group_workers g" i "(group_workers g ! i)\<lparr>worker_handle := Some r\<rparr>"]
  unfolding assign_work_def workers_ok_iff
  by (auto simp: bd_eq_Done sq_def assertion_def split: if_splits option.splits)

lemma emits_assign_work: "(\<And>s. P (ErrorMsg s)) \<Longrightarrow> emits P (assign_work g i r)"
  unfolding assign_work_def by (intro emits_intros) simp_all

lemma emits_format_github_header: "(\<And>s. P (ErrorMsg s)) \<Longrightarrow> emits P (format_github_header t)"
  unfolding format_github_header_def by (intro emits_intros)

lemma assign_emits [emits_intros]:
  assumes "\<And>s. P (ErrorMsg s)"
  shows "emits P (assign_github_get g i url t)"
    and "emits P (assign_github_post_like g i url t ty d)"
    and "emits P (assign_sheet_get g i url t)"
  unfolding assign_github_get_def assign_github_post_like_def assign_sheet_get_def format_sheet_url_def
  by (intro emits_intros emits_assign_work emits_format_github_header; simp add: assms)+

lemma returns_assign_get:
  assumes "workers_ok is_get g"
  shows "returns (assign_github_get g i url t) (workers_ok is_get)"
    and "returns (assign_sheet_get g i url t) (workers_ok is_get)"
  unfolding returns_def assign_github_get_def assign_sheet_get_def bd_eq_Done
  using assign_work_result [OF _ assms] by (auto simp: is_get_def)

lemma returns_assign_post:
  assumes "workers_ok Q g" and "\<And>hd. Q \<lparr>req_url = url, req_header = hd, req_type = Some ty, req_data = d\<rparr>"
  shows "returns (assign_github_post_like g i url t ty d) (workers_ok Q)"
  unfolding returns_def assign_github_post_like_def bd_eq_Done
  using assign_work_result [OF _ assms(1)] assms(2) by blast

lemma emits_complete:
  assumes "workers_ok Q g" and "\<And>r. Q r \<Longrightarrow> P (Http r)"
  shows "emits P (complete_all_works g)"
  unfolding complete_all_works_def
  by (intro emits_intros) (use assms in \<open>auto simp: workers_ok_def\<close>)

lemma complete_length: "complete_all_works g e h = (Done g', h') \<Longrightarrow>
    length (group_workers g') = length (group_workers g)"
  by (auto simp: complete_all_works_def sq_def bd_eq_Done split: if_splits)

end
