(* ===== verification/GithubApi.thy ===== *)
theory GithubApi imports CurlGroup Calendar JsonText begin

text \<open>
  The GitHub queries of \<open>code/hand_curl.c\<close>. A query for every repository of a list runs in batches
  of 64 parallel requests; a query that is paged asks for a few pages at a time until a page
  is empty.

  A \<open>StringArray\<close> is the list of its strings (theory StringArrays shows that its operations
  compute on that list), an array that the caller gives to be filled is returned. A loop over
  pages takes \<open>loop_fuel\<close> of the environment for the rounds it makes, as nothing in the code bounds
  the number of pages.
\<close>

definition TIME_ZONE_UTC0 :: int where "TIME_ZONE_UTC0 = 0"

text \<open>\<open>MAX_WORKER\<close> of the batched queries.\<close>

definition MAX_WORKER :: nat where "MAX_WORKER = 64"

subsection \<open>Commit hashes (\<open>code/hand.h\<close>)\<close>

definition GIT_HASH_LEN :: nat where "GIT_HASH_LEN = 40"

definition GIT_SHORT_HASH_LEN :: nat where "GIT_SHORT_HASH_LEN = 7"

text \<open>The two arrays as the C strings in them; the rest of an array is zero.\<close>

record GitCommitHash =
  hash_full :: string
  hash_trim :: string

definition zero_hash :: GitCommitHash where
  "zero_hash = \<lparr>hash_full = [], hash_trim = []\<rparr>"

definition init_git_commit_hash :: "string \<Rightarrow> GitCommitHash" where
  "init_git_commit_hash s =
     (if string_len s = GIT_HASH_LEN
      then \<lparr>hash_full = take GIT_HASH_LEN s, hash_trim = take GIT_SHORT_HASH_LEN s\<rparr>
      else zero_hash)"

definition hash_is_valid :: "GitCommitHash \<Rightarrow> bool" where
  "hash_is_valid hash = list_all (\<lambda>i. char_at (hash_full hash) i \<noteq> NUL) [0..<GIT_HASH_LEN]"

definition compare_hash :: "GitCommitHash \<Rightarrow> GitCommitHash \<Rightarrow> bool" where
  "compare_hash a b = compare_string (hash_full a) (hash_full b)"

lemma init_hash_valid_iff: "hash_is_valid (init_git_commit_hash s) \<longleftrightarrow> string_len s = GIT_HASH_LEN"
proof
  assume l: "string_len s = GIT_HASH_LEN"
  have "char_at (take GIT_HASH_LEN s) i \<noteq> NUL" if "i < GIT_HASH_LEN" for i
  proof -
    have "i < length (cstr s)" and le: "length (cstr s) \<le> length s"
      using l that length_cstr_le [of s] by (simp_all add: string_len_eq)
    then have "cstr s ! i = s ! i" and "cstr s ! i \<noteq> NUL"
      using cstr_no_NUL [of s] nth_mem [of i "cstr s"] by (auto simp: cstr_def takeWhile_nth)
    moreover have "drop i (take GIT_HASH_LEN s) = s ! i # drop (Suc i) (take GIT_HASH_LEN s)"
      using that l le Cons_nth_drop_Suc [of i "take GIT_HASH_LEN s"] by (simp add: string_len_eq)
    ultimately show ?thesis by (simp add: char_at_def)
  qed
  then show "hash_is_valid (init_git_commit_hash s)"
    using l by (simp add: hash_is_valid_def init_git_commit_hash_def list_all_iff)
qed (auto simp: hash_is_valid_def init_git_commit_hash_def zero_hash_def GIT_HASH_LEN_def char_at_def
       list_all_iff split: if_splits dest: spec [of _ 0])

subsection \<open>Single requests\<close>

text \<open>A URL is formatted into a buffer of \<open>MAX_URL_LEN\<close> bytes.\<close>

definition github_url :: "string \<Rightarrow> string io" where
  "github_url path = format_string MAX_URL_LEN (''https://api.github.com/'' @ path)"

text \<open>A group of one GET request, done.\<close>

definition single_get :: "string \<Rightarrow> string \<Rightarrow> CurlGroup io" where
  "single_get url github_token =
     bd (begin_curl_group 1) (\<lambda>grp.
     bd (assign_github_get grp 0 url github_token) complete_all_works)"

definition github_organization_exists :: "string \<Rightarrow> string \<Rightarrow> bool io" where
  "github_organization_exists github_token organization =
     bd (github_url (''orgs/'' @ organization)) (\<lambda>url.
     bd (single_get url github_token) (\<lambda>grp. pure (end_curl_group grp)))"

definition github_team_exists :: "string \<Rightarrow> string \<Rightarrow> string \<Rightarrow> bool io" where
  "github_team_exists github_token organization team =
     bd (github_url (''orgs/'' @ organization @ ''/teams/'' @ team)) (\<lambda>url.
     bd (single_get url github_token) (\<lambda>grp. pure (end_curl_group grp)))"

definition github_repository_exists :: "string \<Rightarrow> string \<Rightarrow> string \<Rightarrow> bool io" where
  "github_repository_exists github_token organization repo =
     bd (github_url (''repos/'' @ organization @ ''/'' @ repo)) (\<lambda>url.
     bd (single_get url github_token) (\<lambda>grp. pure (end_curl_group grp)))"

text \<open>
  \<open>out\<close> tells if there is a buffer, of \<open>max_size\<close> bytes; the result has the string in it.
  \<open>max_size - 1\<close> is a \<open>size_t\<close>: without a size the buffer would have no bound.
\<close>

definition retrieve_username :: "bool \<Rightarrow> nat \<Rightarrow> string \<Rightarrow> (string \<times> bool) io" where
  "retrieve_username out max_size github_token =
     (if max_size > 0 \<and> \<not> out then pure ([], False)
      else bd (github_url ''user'') (\<lambda>url.
           bd (single_get url github_token) (\<lambda>grp.
           bd (parse_response (get_response grp 0)) (\<lambda>json.
           sq (assertion (\<not> (out \<and> max_size = 0)))
           (pure (case string_value (cJSON_GetObjectItemCaseSensitive json ''login'') of
                    Some username \<Rightarrow> (if out then take (max_size - 1) username else [])
                  | None \<Rightarrow> [],
                  end_curl_group grp))))))"

definition invite_user_to_team :: "string \<Rightarrow> string \<Rightarrow> string \<Rightarrow> string \<Rightarrow> bool io" where
  "invite_user_to_team github_token username organization team =
     bd (github_url (''orgs/'' @ organization @ ''/teams/'' @ team @ ''/memberships/'' @ username)) (\<lambda>url.
     bd (begin_curl_group 1) (\<lambda>grp.
     bd (assign_github_post_like grp 0 url github_token ''PUT''
          ([CHR 0x7B, CHR 0x22] @ ''role'' @ [CHR 0x22] @ '':'' @ [CHR 0x22] @ ''member'' @ [CHR 0x22, CHR 0x7D])) (\<lambda>grp.
     bd (complete_all_works grp) (\<lambda>grp.
     pure (end_curl_group grp)))))"

text \<open>The body that creates or edits an issue.\<close>

definition issue_data :: "string \<Rightarrow> string \<Rightarrow> string" where
  "issue_data title body =
     (let q = [CHR 0x22]
      in ''{'' @ q @ ''title'' @ q @ '':'' @ q @ cstr title
         @ q @ '','' @ q @ ''body'' @ q @ '':'' @ q @ escape (cstr body)
         @ q @ '','' @ q @ ''state'' @ q @ '':'' @ q @ ''open'' @ q @ ''}'')"

definition create_issue :: "string \<Rightarrow> string \<Rightarrow> string \<Rightarrow> string \<Rightarrow> string \<Rightarrow> bool io" where
  "create_issue github_token organization repo title body =
     bd (github_url (''repos/'' @ organization @ ''/'' @ repo @ ''/issues'')) (\<lambda>url.
     bd (begin_curl_group 1) (\<lambda>grp.
     bd (assign_github_post_like grp 0 url github_token ''POST'' (issue_data title body)) (\<lambda>grp.
     bd (complete_all_works grp) (\<lambda>grp.
     pure (end_curl_group grp)))))"

definition edit_issue :: "string \<Rightarrow> string \<Rightarrow> string \<Rightarrow> string \<Rightarrow> string \<Rightarrow> int \<Rightarrow> bool io" where
  "edit_issue github_token organization repo title body issue_number =
     bd (github_url (''repos/'' @ organization @ ''/'' @ repo @ ''/issues/'' @ show_int issue_number)) (\<lambda>url.
     bd (begin_curl_group 1) (\<lambda>grp.
     bd (assign_github_post_like grp 0 url github_token ''PATCH'' (issue_data title body)) (\<lambda>grp.
     bd (complete_all_works grp) (\<lambda>grp.
     pure (end_curl_group grp)))))"

subsection \<open>Batches\<close>

text \<open>The starts of the batches of \<open>MAX_WORKER\<close>, and the number of workers of a batch.\<close>

function batches :: "nat \<Rightarrow> nat \<Rightarrow> nat list" where
  "batches at count = (if at < count then at # batches (at + MAX_WORKER) count else [])"
  by pat_completeness auto
termination by (relation "measure (\<lambda>(at, count). count - at)") (auto simp: MAX_WORKER_def)

declare batches.simps [simp del]

definition worker_count :: "nat \<Rightarrow> nat \<Rightarrow> nat" where
  "worker_count at count = min (count - at) MAX_WORKER"

text \<open>The first half of a round: a group of \<open>n\<close> workers, a GET request for each worker of \<open>is\<close>.\<close>

definition run_group :: "nat \<Rightarrow> nat list \<Rightarrow> (nat \<Rightarrow> string) \<Rightarrow> string \<Rightarrow> CurlGroup io" where
  "run_group n is path github_token =
     bd (begin_curl_group n) (\<lambda>grp.
     bd (foldp (\<lambda>i grp. bd (github_url (path i)) (\<lambda>url. assign_github_get grp i url github_token)) is grp)
        complete_all_works)"

definition user_path :: "string \<Rightarrow> string" where
  "user_path user = ''users/'' @ user"

definition github_users_exist :: "string list \<Rightarrow> string \<Rightarrow> bool list io" where
  "github_users_exist users github_token =
     foldp (\<lambda>at out.
       let n = worker_count at (length users) in
       bd (run_group n [0..<n] (\<lambda>i. user_path (users ! i)) github_token) (\<lambda>grp.
       pure (foldl (\<lambda>out i. out[at + i := worker_status (group_workers grp ! i) < 400]) out [0..<n])))
     (batches 0 (length users)) (replicate (length users) False)"

definition repo_path :: "string \<Rightarrow> string \<Rightarrow> string" where
  "repo_path organization repo = ''repos/'' @ organization @ ''/'' @ repo"

definition retrieve_creation_times :: "string list \<Rightarrow> string \<Rightarrow> string \<Rightarrow> int list io" where
  "retrieve_creation_times repos github_token organization =
     foldp (\<lambda>at out.
       let n = worker_count at (length repos) in
       bd (run_group n [0..<n] (\<lambda>i. repo_path organization (repos ! (at + i))) github_token) (\<lambda>grp.
       foldp (\<lambda>i out.
         bd (parse_response (get_response grp i)) (\<lambda>json.
         pure (case string_value (cJSON_GetObjectItemCaseSensitive json ''created_at'') of
                 Some s \<Rightarrow> out[at + i := parse_time linux_calender_time_to_time s TIME_ZONE_UTC0]
               | None \<Rightarrow> out))) [0..<n] out))
     (batches 0 (length repos)) (replicate (length repos) 0)"

text \<open>The message about a repository without a default branch names \<open>repos->elem[i]\<close>.\<close>

definition retrieve_default_branches :: "string list \<Rightarrow> string \<Rightarrow> string \<Rightarrow> string list io" where
  "retrieve_default_branches repos github_token organization =
     bd (foldp (\<lambda>at result.
       let n = worker_count at (length repos) in
       bd (run_group n [0..<n] (\<lambda>i. repo_path organization (repos ! (at + i))) github_token) (\<lambda>grp.
       foldp (\<lambda>i result.
         bd (parse_response (get_response grp i)) (\<lambda>json.
         case string_value (cJSON_GetObjectItemCaseSensitive json ''default_branch'') of
           Some s \<Rightarrow> pure (result @ [s])
         | None \<Rightarrow> sq (write_error (''Can'' @ [CHR 0x27] @ ''t find default branch for '' @ quoted (organization @ ''/'' @ repos ! i)))
                       (pure (result @ [[]])))) [0..<n] result))
     (batches 0 (length repos)) [])
     (\<lambda>result. sq (assertion (length result = length repos)) (pure result))"

definition retrieve_latest_commits ::
  "string list \<Rightarrow> string list \<Rightarrow> string \<Rightarrow> string \<Rightarrow> GitCommitHash list io" where
  "retrieve_latest_commits repos branches github_token organization =
     sq (assertion (length repos = length branches))
     (foldp (\<lambda>at out.
       let n = worker_count at (length repos) in
       bd (run_group n [0..<n] (\<lambda>i. repo_path organization (repos ! (at + i)) @ ''/branches/'' @ branches ! (at + i))
             github_token) (\<lambda>grp.
       foldp (\<lambda>i out.
         bd (parse_response (get_response grp i)) (\<lambda>json.
         let commit = cJSON_GetObjectItemCaseSensitive json ''commit'' in
         pure (case string_value (cJSON_GetObjectItemCaseSensitive commit ''sha'') of
                 Some s \<Rightarrow> out[at + i := init_git_commit_hash s]
               | None \<Rightarrow> out))) [0..<n] out))
     (batches 0 (length repos)) (replicate (length repos) zero_hash))"

definition retrieve_latest_commit ::
  "string \<Rightarrow> string \<Rightarrow> string \<Rightarrow> string option \<Rightarrow> GitCommitHash io" where
  "retrieve_latest_commit github_token organization repo branch =
     bd (case branch of
           Some b \<Rightarrow> pure [b]
         | None \<Rightarrow> bd (retrieve_default_branches [repo] github_token organization) (\<lambda>branches.
                    sq (assertion (length branches = 1)) (pure branches)))
     (\<lambda>branches. bd (retrieve_latest_commits [repo] branches github_token organization) (\<lambda>out. pure (hd out)))"

subsection \<open>The queries only read\<close>

lemma emits_single_get [emits_intros]:
  assumes "\<And>s. P (ErrorMsg s)" and "\<And>r. is_get r \<Longrightarrow> P (Http r)"
  shows "emits P (single_get url t)"
  unfolding single_get_def
  by (intro emits_bd_returns [OF emits_begin returns_begin [where Q = is_get]]
        emits_bd_returns [OF _ returns_assign_get(1)] emits_complete [where Q = is_get] assign_emits assms)

lemma emits_github_url [emits_intros]: "(\<And>s. P (ErrorMsg s)) \<Longrightarrow> emits P (github_url path)"
  unfolding github_url_def by (intro emits_intros)

lemma returns_True: "returns m (\<lambda>_. True)"
  by (simp add: returns_def)

lemma emits_run_group [emits_intros]:
  assumes "\<And>s. P (ErrorMsg s)" and "\<And>r. is_get r \<Longrightarrow> P (Http r)"
  shows "emits P (run_group n is path t)"
proof -
  let ?step = "\<lambda>i grp. bd (github_url (path i)) (\<lambda>url. assign_github_get grp i url t)"
  have step: "emits P (?step i g)" for i g
    by (intro emits_intros assms)
  have ret: "returns (foldp ?step is g) (workers_ok is_get)" if "workers_ok is_get g" for g
    using that by (intro returns_foldp returns_bd [OF returns_True] returns_assign_get)
  show ?thesis
    unfolding run_group_def
    by (intro emits_bd_returns [OF emits_begin returns_begin [where Q = is_get]]
          emits_bd_returns [OF _ ret] emits_foldp step emits_complete [where Q = is_get] assms)
qed

lemma emits_github_queries [emits_intros]:
  assumes "\<And>s. P (ErrorMsg s)" and "\<And>r. is_get r \<Longrightarrow> P (Http r)"
  shows "emits P (github_organization_exists t organization)"
    and "emits P (github_team_exists t organization team)"
    and "emits P (github_repository_exists t organization repo)"
    and "emits P (retrieve_username out n t)"
    and "emits P (github_users_exist users t)"
    and "emits P (retrieve_creation_times repos t organization)"
    and "emits P (retrieve_default_branches repos t organization)"
    and "emits P (retrieve_latest_commits repos branches t organization)"
  unfolding github_organization_exists_def github_team_exists_def github_repository_exists_def
    retrieve_username_def github_users_exist_def retrieve_creation_times_def retrieve_default_branches_def
    retrieve_latest_commits_def Let_def
  by (intro emits_intros assms; assumption?)+

lemma emits_latest_commit [emits_intros]:
  assumes "\<And>s. P (ErrorMsg s)" and "\<And>r. is_get r \<Longrightarrow> P (Http r)"
  shows "emits P (retrieve_latest_commit t organization repo branch)"
  unfolding retrieve_latest_commit_def by (intro emits_intros assms)

text \<open>The requests that change something, with what they send.\<close>

lemma emits_post:
  assumes "\<And>s. P (ErrorMsg s)"
    and "\<And>hd. P (Http \<lparr>req_url = url, req_header = hd, req_type = Some ty, req_data = d\<rparr>)"
  shows "emits P (bd (begin_curl_group n) (\<lambda>grp. bd (assign_github_post_like grp i url t ty d) (\<lambda>grp.
    bd (complete_all_works grp) (\<lambda>grp. pure (end_curl_group grp)))))"
proof -
  let ?Q = "\<lambda>r. \<exists>hd. r = \<lparr>req_url = url, req_header = hd, req_type = Some ty, req_data = d\<rparr>"
  have "emits P (complete_all_works g)" if "workers_ok ?Q g" for g
    using that assms(2) by (intro emits_complete [where Q = ?Q]) auto
  then show ?thesis
    by (intro emits_bd_returns [OF emits_begin returns_begin [where Q = ?Q]]
          emits_bd_returns [OF _ returns_assign_post [where Q = ?Q]] emits_bd emits_pure assign_emits assms) auto
qed

lemma returns_batches:
  assumes "\<And>at s. at < count \<Longrightarrow> I at s \<Longrightarrow> returns (step at s) (I (at + worker_count at count))"
  shows "I at s \<Longrightarrow> at \<le> count \<Longrightarrow> returns (foldp step (batches at count) s) (I count)"
proof (induction "count - at" arbitrary: at s rule: less_induct)
  case less
  show ?case
  proof (cases "at < count")
    case True
    have "returns (foldp step (batches (at + MAX_WORKER) count) s') (I count)"
      if I: "I (at + worker_count at count) s'" for s'
    proof (cases "at + MAX_WORKER < count")
      case more: True
      then have "worker_count at count = MAX_WORKER" by (simp add: worker_count_def)
      then show ?thesis using less.hyps [of "at + MAX_WORKER" s'] I more by (simp add: MAX_WORKER_def)
    next
      case False
      then have "at + worker_count at count = count" "batches (at + MAX_WORKER) count = []"
        using True by (auto simp: worker_count_def batches.simps)
      then show ?thesis using I by (simp add: returns_def)
    qed
    then show ?thesis
      using True assms less.prems by (subst batches.simps) (auto intro: returns_bd)
  qed (use less.prems in \<open>auto simp: batches.simps returns_def\<close>)
qed

subsection \<open>A network that answers\<close>

text \<open>
  \<open>answers e status body\<close>: every request gets a response, and the status and the body of a response
  depend on the URL only. \<open>assign_work\<close> sets \<open>CURLOPT_FAILONERROR\<close>: with a status of 400 or more
  the transfer ends with \<open>CURLE_HTTP_RETURNED_ERROR\<close> and no body is delivered. What the queries
  compute is stated for such a network.
\<close>

definition CURLE_HTTP_RETURNED_ERROR :: int where "CURLE_HTTP_RETURNED_ERROR = 22"

definition failonerror :: "int \<Rightarrow> int" where
  "failonerror status = (if status \<ge> 400 then CURLE_HTTP_RETURNED_ERROR else 0)"

lemma failonerror_0 [simp]: "failonerror status = 0 \<longleftrightarrow> status < 400"
  by (simp add: failonerror_def CURLE_HTTP_RETURNED_ERROR_def)

definition answers :: "env \<Rightarrow> (string \<Rightarrow> int) \<Rightarrow> (string \<Rightarrow> string) \<Rightarrow> bool" where
  "answers e status body \<longleftrightarrow>
     (\<forall>h. multi_init e h \<and> easy_init e h \<and> (\<forall>r. easy_setup e h r = None) \<and>
       (\<forall>i r. transfers e h i r = \<lparr>transfer_status = status (req_url r), transfer_body = body (req_url r),
                transfer_result = Some (failonerror (status (req_url r)))\<rparr>)) \<and>
     (\<forall>url. status url \<ge> 400 \<longrightarrow> body url = [])"

definition full_url :: "string \<Rightarrow> string" where
  "full_url path = ''https://api.github.com/'' @ path"

definition fits :: "string \<Rightarrow> bool" where
  "fits path \<longleftrightarrow> length (full_url path) < MAX_URL_LEN"

definition token_fits :: "string \<Rightarrow> bool" where
  "token_fits github_token \<longleftrightarrow> length (github_header github_token) < MAX_REST_HEADER_LEN"

definition get_request :: "string \<Rightarrow> string \<Rightarrow> request" where
  "get_request path github_token =
     \<lparr>req_url = full_url path, req_header = github_header github_token, req_type = None, req_data = []\<rparr>"

lemma req_url_get_request [simp]: "req_url (get_request path t) = full_url path"
  by (simp add: get_request_def)

lemma answersD:
  assumes "answers e status body"
  shows "multi_init e h" "easy_init e h" "easy_setup e h r = None"
    "transfers e h i r = \<lparr>transfer_status = status (req_url r), transfer_body = body (req_url r),
       transfer_result = Some (failonerror (status (req_url r)))\<rparr>"
  using assms by (auto simp: answers_def)

lemma github_url_fits: "fits path \<Longrightarrow> github_url path = pure (full_url path)"
  by (simp add: github_url_def fits_def full_url_def)

lemma assign_get_answers:
  assumes "answers e status body" and "token_fits t" and "group_handle g" and "i < length (group_workers g)"
  shows "assign_github_get g i (full_url path) t e h =
    (Done (g\<lparr>group_workers := (group_workers g)[i := (group_workers g ! i)\<lparr>worker_handle := Some (get_request path t)\<rparr>]\<rparr>), h)"
  using assms answersD [OF assms(1)]
  by (simp add: assign_github_get_def format_github_header_def token_fits_def assign_work_def sq_def get_request_def)

text \<open>A worker of a group after its transfer.\<close>

definition done_worker :: "(string \<Rightarrow> int) \<Rightarrow> (string \<Rightarrow> string) \<Rightarrow> string \<Rightarrow> string \<Rightarrow> CurlWorker" where
  "done_worker status body t path =
     \<lparr>worker_handle = Some (get_request path t), worker_status = status (full_url path),
      worker_response = body (full_url path),
      worker_result = Some (failonerror (status (full_url path)))\<rparr>"

lemma foldp_assign:
  assumes "answers e status body" and "token_fits t" and "group_handle g"
    and "\<forall>i \<in> set is. i < length (group_workers g) \<and> fits (path i)"
  shows "foldp (\<lambda>i grp. bd (github_url (path i)) (\<lambda>url. assign_github_get grp i url t)) is g e h =
    (Done (g\<lparr>group_workers := map (\<lambda>j. if j \<in> set is
        then (group_workers g ! j)\<lparr>worker_handle := Some (get_request (path j) t)\<rparr> else group_workers g ! j)
        [0..<length (group_workers g)]\<rparr>), h)"
  using assms(3,4)
proof (induction "is" arbitrary: g)
  case (Cons i "is")
  let ?g = "g\<lparr>group_workers := (group_workers g)[i := (group_workers g ! i)\<lparr>worker_handle := Some (get_request (path i) t)\<rparr>]\<rparr>"
  have step: "bd (github_url (path i)) (\<lambda>url. assign_github_get g i url t) e h = (Done ?g, h)"
    using Cons.prems assign_get_answers [OF assms(1,2)] by (simp add: github_url_fits)
  have "group_handle ?g" "\<forall>i \<in> set is. i < length (group_workers ?g) \<and> fits (path i)"
    using Cons.prems by simp_all
  from Cons.IH [OF this] show ?case
    using Cons.prems by (simp add: step) (intro arg_cong [where f = "\<lambda>ws. g\<lparr>group_workers := ws\<rparr>"]
        map_cong refl, auto simp: nth_list_update)
qed (simp add: map_nth)

lemma run_group_answers:
  assumes "answers e status body" and "token_fits t" and "\<forall>i \<in> set is. i < n \<and> fits (path i)"
  shows "\<exists>g h'. run_group n is path t e h = (Done g, h') \<and> length (group_workers g) = n \<and>
    (\<forall>i \<in> set is. group_workers g ! i = done_worker status body t (path i))"
proof -
  let ?g = "\<lparr>group_handle = True, group_workers = replicate n idle_worker\<rparr>"
  have start: "begin_curl_group n e h = (Done ?g, h)"
    using answersD [OF assms(1)] by (simp add: begin_curl_group_def)
  obtain g' where g': "foldp (\<lambda>i grp. bd (github_url (path i)) (\<lambda>url. assign_github_get grp i url t)) is ?g e h = (Done g', h)"
    and ws: "group_handle g'" "length (group_workers g') = n"
      "\<forall>j \<in> set is. group_workers g' ! j = idle_worker\<lparr>worker_handle := Some (get_request (path j) t)\<rparr>"
    using foldp_assign [OF assms(1,2), of ?g "is" path h] assms(3) by auto
  have sent: "\<exists>h'. each (\<lambda>r. emit (Http r)) rs e h = (Done (), h')" for rs h
    by (induction rs arbitrary: h) (simp_all add: sq_def)
  have run: "run_group n is path t e h = complete_all_works g' e h"
    by (simp add: run_group_def start g')
  obtain h' where "each (\<lambda>r. emit (Http r)) (group_requests g') e h = (Done (), h')"
    using sent by blast
  then have "complete_all_works g' e h =
      (Done (g'\<lparr>group_workers := map (\<lambda>(i, w). finish_worker e h' i w) (enumerate 0 (group_workers g'))\<rparr>), h')"
    using ws(1) by (simp add: complete_all_works_def)
  then show ?thesis
    using ws assms(3) answersD [OF assms(1)]
    by (auto simp: run finish_worker_def done_worker_def idle_worker_def nth_enumerate_eq)
qed

lemma get_response_done [simp]:
  "group_workers g ! i = done_worker status body t path \<Longrightarrow> get_response g i = cstr (body (full_url path))"
  by (simp add: get_response_def done_worker_def)

lemma parse_response_Done: "\<exists>h'. parse_response r e h = (Done (cJSON_Parse r), h')"
  by (cases "deref r \<noteq> NUL \<and> cJSON_Parse r = None") (auto simp: parse_response_def)

end
