(* ===== verification/GithubPages.thy ===== *)
theory GithubPages imports GithubApi begin

text \<open>
  The paged queries of \<open>code/hand_curl.c\<close>: the members, the invitations and the repositories, of
  which a few pages are asked for at a time until one is empty, and the numbers of the issues
  with a title, for which every repository of a batch has its own end.
\<close>

subsection \<open>Pages of a list\<close>

text \<open>
  One round asks for \<open>n\<close> pages from \<open>page\<close> on. The responses are read in order; the first empty
  page ends the round, and the result tells if there was one.
\<close>

fun read_pages ::
  "(string \<Rightarrow> cJSON list \<Rightarrow> string list \<Rightarrow> string list io) \<Rightarrow> CurlGroup \<Rightarrow> nat list \<Rightarrow> string list \<Rightarrow> (string list \<times> bool) io" where
  "read_pages collect grp [] result = pure (result, False)"
| "read_pages collect grp (i # is) result =
     (let response = get_response grp i in
      bd (parse_response response) (\<lambda>json.
      bd (collect response (cJSON_children json) result) (\<lambda>result.
      if cJSON_children json = [] then pure (result, True) else read_pages collect grp is result)))"

fun pages_loop ::
  "nat \<Rightarrow> (nat \<Rightarrow> string) \<Rightarrow> (string \<Rightarrow> cJSON list \<Rightarrow> string list \<Rightarrow> string list io) \<Rightarrow> string \<Rightarrow> nat \<Rightarrow> nat \<Rightarrow> string list \<Rightarrow> string list io" where
  "pages_loop n path collect github_token 0 page result = spent"
| "pages_loop n path collect github_token (Suc fuel) page result =
     bd (run_group n [0..<n] (\<lambda>i. path (page + i)) github_token) (\<lambda>grp.
     bd (read_pages collect grp [0..<n] result) (\<lambda>(result, empty).
     if empty then pure result
     else pages_loop n path collect github_token fuel (page + n) result))"

definition retrieve_pages ::
  "nat \<Rightarrow> (nat \<Rightarrow> string) \<Rightarrow> (string \<Rightarrow> cJSON list \<Rightarrow> string list \<Rightarrow> string list io) \<Rightarrow> string \<Rightarrow> string list io" where
  "retrieve_pages n path collect github_token =
     bd (ask (\<lambda>e h. loop_fuel e)) (\<lambda>fuel. pages_loop n path collect github_token fuel 1 [])"

definition members_path :: "string \<Rightarrow> string \<Rightarrow> nat \<Rightarrow> string" where
  "members_path organization team page =
     ''orgs/'' @ organization @ ''/teams/'' @ team @ ''/members?page='' @ show_nat page @ ''&per_page=100''"

definition collect_members :: "string \<Rightarrow> cJSON list \<Rightarrow> string list \<Rightarrow> string list io" where
  "collect_members response =
     foldp (\<lambda>member result.
       case string_value (cJSON_GetObjectItemCaseSensitive (Some member) ''login'') of
         Some username \<Rightarrow> pure (result @ [username])
       | None \<Rightarrow> pure result)"

definition retrieve_team_members :: "string \<Rightarrow> string \<Rightarrow> string \<Rightarrow> string list io" where
  "retrieve_team_members github_token organization team =
     retrieve_pages 4 (members_path organization team) collect_members github_token"

definition invitations_path :: "string \<Rightarrow> string \<Rightarrow> nat \<Rightarrow> string" where
  "invitations_path organization team page =
     ''orgs/'' @ organization @ ''/teams/'' @ team @ ''/invitations?page='' @ show_nat page @ ''&per_page=100''"

definition collect_invitations :: "string \<Rightarrow> cJSON list \<Rightarrow> string list \<Rightarrow> string list io" where
  "collect_invitations response =
     foldp (\<lambda>member result.
       case string_value (cJSON_GetObjectItemCaseSensitive (Some member) ''login'') of
         Some username \<Rightarrow> pure (result @ [username])
       | None \<Rightarrow> sq (write_error (''JSON corrupted: '' @ response)) (pure result))"

definition retrieve_existing_invitations :: "string \<Rightarrow> string \<Rightarrow> string \<Rightarrow> string list io" where
  "retrieve_existing_invitations github_token organization team =
     retrieve_pages 4 (invitations_path organization team) collect_invitations github_token"

definition repos_path :: "string \<Rightarrow> nat \<Rightarrow> string" where
  "repos_path organization page =
     ''orgs/'' @ organization @ ''/repos?page='' @ show_nat page @ ''&per_page=100''"

definition collect_repos :: "string \<Rightarrow> string \<Rightarrow> cJSON list \<Rightarrow> string list \<Rightarrow> string list io" where
  "collect_repos pre response =
     foldp (\<lambda>repo result.
       case string_value (cJSON_GetObjectItemCaseSensitive (Some repo) ''name'') of
         Some repo_name \<Rightarrow>
           pure (if compare_substring repo_name pre (string_len pre) then result @ [repo_name] else result)
       | None \<Rightarrow> pure result)"

definition retrieve_repos_by_prefix :: "string \<Rightarrow> string \<Rightarrow> string \<Rightarrow> string list io" where
  "retrieve_repos_by_prefix github_token organization pre =
     retrieve_pages 8 (repos_path organization) (collect_repos pre) github_token"

subsection \<open>Issues by title\<close>

text \<open>The search in one page: the number of the issue with the title, if it is found, and the
  number of issues before it.\<close>

fun find_issue :: "string \<Rightarrow> cJSON list \<Rightarrow> nat \<Rightarrow> int option \<times> nat" where
  "find_issue title [] issue_count = (None, issue_count)"
| "find_issue title (issue # issues) issue_count =
     (let id_json = cJSON_GetObjectItemCaseSensitive (Some issue) ''number'' in
      case (id_json, string_value (cJSON_GetObjectItemCaseSensitive (Some issue) ''title'')) of
        (Some number, Some issue_title) \<Rightarrow>
          if cJSON_IsNumber id_json \<and> compare_string issue_title title
          then (Some (valueint number), issue_count)
          else find_issue title issues (issue_count + 1)
      | _ \<Rightarrow> find_issue title issues (issue_count + 1))"

definition read_issues ::
  "string \<Rightarrow> nat \<Rightarrow> CurlGroup \<Rightarrow> nat \<Rightarrow> bool list \<times> int list \<Rightarrow> (bool list \<times> int list) io" where
  "read_issues title at grp i st =
     (case st of (worker_done, out) \<Rightarrow>
      if worker_done ! i then pure st
      else bd (parse_response (get_response grp i)) (\<lambda>json.
           case find_issue title (cJSON_children json) 0 of
             (Some number, _) \<Rightarrow> pure (worker_done[i := True], out[at + i := number])
           | (None, issue_count) \<Rightarrow>
               pure (if issue_count = 0 then worker_done[i := True] else worker_done, out)))"

definition issues_path :: "string \<Rightarrow> string \<Rightarrow> nat \<Rightarrow> string" where
  "issues_path organization repo page =
     repo_path organization repo @ ''/issues?state=all&per_page=100&page='' @ show_nat page"

fun issues_loop ::
  "string list \<Rightarrow> string \<Rightarrow> string \<Rightarrow> string \<Rightarrow> nat \<Rightarrow> nat \<Rightarrow> nat \<Rightarrow> nat \<Rightarrow> bool list \<times> int list \<Rightarrow> int list io" where
  "issues_loop repos github_token organization title at n 0 page st = spent"
| "issues_loop repos github_token organization title at n (Suc fuel) page st =
     (case st of (worker_done, out) \<Rightarrow>
      if true_for_all worker_done n then pure out
      else bd (run_group n (filter (\<lambda>i. \<not> worker_done ! i) [0..<n])
                 (\<lambda>i. issues_path organization (repos ! (at + i)) (page + 1)) github_token) (\<lambda>grp.
           bd (foldp (read_issues title at grp) [0..<n] st)
              (issues_loop repos github_token organization title at n fuel (page + 1))))"

definition retrieve_issue_numbers_by_title ::
  "string list \<Rightarrow> string \<Rightarrow> string \<Rightarrow> string \<Rightarrow> int list io" where
  "retrieve_issue_numbers_by_title repos github_token organization title =
     bd (ask (\<lambda>e h. loop_fuel e)) (\<lambda>fuel.
     foldp (\<lambda>at out.
       let n = worker_count at (length repos) in
       issues_loop repos github_token organization title at n fuel 0 (replicate n False, out))
     (batches 0 (length repos)) (replicate (length repos) 0))"

subsection \<open>The queries only read\<close>

lemma emits_read_pages:
  assumes "\<And>s. P (ErrorMsg s)" and "\<And>response items result. emits P (collect response items result)"
  shows "emits P (read_pages collect grp is result)"
proof (induction "is" arbitrary: result)
  case (Cons i "is")
  show ?case unfolding read_pages.simps Let_def by (intro emits_intros Cons.IH assms)
qed (simp add: emits_pure)

lemma emits_pages_loop:
  assumes "\<And>s. P (ErrorMsg s)" and "\<And>r. is_get r \<Longrightarrow> P (Http r)"
    and "\<And>response items result. emits P (collect response items result)"
  shows "emits P (pages_loop n path collect t fuel page result)"
proof (induction fuel arbitrary: page result)
  case (Suc fuel)
  show ?case unfolding pages_loop.simps by (intro emits_intros emits_read_pages Suc.IH assms)
qed (simp add: emits_ends)

lemma emits_pages [emits_intros]:
  assumes "\<And>s. P (ErrorMsg s)" and "\<And>r. is_get r \<Longrightarrow> P (Http r)"
  shows "emits P (retrieve_team_members t organization team)"
    and "emits P (retrieve_existing_invitations t organization team)"
    and "emits P (retrieve_repos_by_prefix t organization pre)"
  unfolding retrieve_team_members_def retrieve_existing_invitations_def retrieve_repos_by_prefix_def
    retrieve_pages_def collect_members_def collect_invitations_def collect_repos_def
  by (intro emits_intros emits_pages_loop assms; assumption?)+

lemma emits_issues_loop:
  assumes "\<And>s. P (ErrorMsg s)" and "\<And>r. is_get r \<Longrightarrow> P (Http r)"
  shows "emits P (issues_loop repos t organization title at n fuel page st)"
proof (induction fuel arbitrary: page st)
  case (Suc fuel)
  show ?case unfolding issues_loop.simps read_issues_def by (intro emits_intros Suc.IH assms)
qed (simp add: emits_ends)

lemma emits_issue_numbers [emits_intros]:
  assumes "\<And>s. P (ErrorMsg s)" and "\<And>r. is_get r \<Longrightarrow> P (Http r)"
  shows "emits P (retrieve_issue_numbers_by_title repos t organization title)"
  unfolding retrieve_issue_numbers_by_title_def Let_def by (intro emits_intros emits_issues_loop assms)

end
