(* ===== verification/Pushes.thy ===== *)
theory Pushes imports GithubApi begin

text \<open>
  Which commit of each repository is graded (\<open>retrieve_pushes_before_cutoff\<close> of
  \<open>code/hand_curl.c\<close>): the events of a repository are read page by page, newest first, until one
  before the cutoff is found or there are no more.

  The arrays the function keeps per repository are fields of a record; each repository of a batch
  has its own \<open>worker_done\<close>. The latest commit and the creation time are asked for before and
  stay as they are.
\<close>

record push_state =
  worker_done :: bool
  out_hash :: GitCommitHash
  out_push_time :: int
  latest_push_time :: int
  latest_push_hash :: GitCommitHash

definition initial_push_state :: push_state where
  "initial_push_state =
     \<lparr>worker_done = False, out_hash = zero_hash, out_push_time = 0, latest_push_time = 0,
      latest_push_hash = zero_hash\<rparr>"

lemma initial_not_done [simp]: "\<not> worker_done initial_push_state"
  by (simp add: initial_push_state_def)

subsection \<open>One event\<close>

definition event_string :: "cJSON \<Rightarrow> string \<Rightarrow> string option" where
  "event_string ev name = string_value (cJSON_GetObjectItemCaseSensitive (Some ev) name)"

definition payload_string :: "cJSON \<Rightarrow> string \<Rightarrow> string option" where
  "payload_string ev name =
     string_value (cJSON_GetObjectItemCaseSensitive (cJSON_GetObjectItemCaseSensitive (Some ev) ''payload'') name)"

definition is_text :: "string option \<Rightarrow> string \<Rightarrow> bool" where
  "is_text item s = (case item of Some t \<Rightarrow> compare_string t s | None \<Rightarrow> False)"

definition event_time :: "cJSON \<Rightarrow> int" where
  "event_time ev =
     (case event_string ev ''created_at'' of
        Some s \<Rightarrow> parse_time linux_calender_time_to_time s TIME_ZONE_UTC0
      | None \<Rightarrow> 0)"

definition is_push_event :: "string \<Rightarrow> cJSON \<Rightarrow> bool" where
  "is_push_event req_ref ev \<longleftrightarrow>
     is_text (event_string ev ''type'') ''PushEvent'' \<and> event_string ev ''created_at'' \<noteq> None \<and>
     payload_string ev ''head'' \<noteq> None \<and> is_text (payload_string ev ''ref'') req_ref"

definition is_branch_event :: "string \<Rightarrow> cJSON \<Rightarrow> bool" where
  "is_branch_event branch ev \<longleftrightarrow>
     is_text (event_string ev ''type'') ''CreateEvent'' \<and> event_string ev ''created_at'' \<noteq> None \<and>
     is_text (payload_string ev ''ref_type'') ''branch'' \<and> is_text (payload_string ev ''ref'') branch"

definition is_repository_event :: "string \<Rightarrow> cJSON \<Rightarrow> bool" where
  "is_repository_event branch ev \<longleftrightarrow>
     is_text (event_string ev ''type'') ''CreateEvent'' \<and> event_string ev ''created_at'' \<noteq> None \<and>
     is_text (payload_string ev ''ref_type'') ''repository'' \<and>
     is_text (payload_string ev ''master_branch'') branch"

text \<open>The commit of a push event.\<close>

definition event_hash :: "cJSON \<Rightarrow> GitCommitHash" where
  "event_hash ev = (case payload_string ev ''head'' of Some s \<Rightarrow> init_git_commit_hash s | None \<Rightarrow> zero_hash)"

subsection \<open>One page\<close>

definition found :: "int \<Rightarrow> GitCommitHash \<Rightarrow> push_state \<Rightarrow> push_state" where
  "found push_time hash st = st\<lparr>worker_done := True, out_push_time := push_time, out_hash := hash\<rparr>"

definition note_push :: "int \<Rightarrow> GitCommitHash \<Rightarrow> push_state \<Rightarrow> push_state" where
  "note_push push_time hash st =
     (if push_time > latest_push_time st
      then st\<lparr>latest_push_time := push_time, latest_push_hash := hash\<rparr> else st)"

fun scan_events :: "string \<Rightarrow> string \<Rightarrow> int \<Rightarrow> GitCommitHash \<Rightarrow> cJSON list \<Rightarrow> push_state \<Rightarrow> push_state" where
  "scan_events branch req_ref cutoff last_resort_hash [] st = st"
| "scan_events branch req_ref cutoff last_resort_hash (ev # evs) st =
     (if is_push_event req_ref ev
      then let push_time = event_time ev; hash = event_hash ev; st = note_push push_time hash st
           in if push_time < cutoff then found push_time hash st
              else scan_events branch req_ref cutoff last_resort_hash evs st
      else if is_branch_event branch ev \<or> is_repository_event branch ev
      then if event_time ev < cutoff then found (event_time ev) last_resort_hash st
           else scan_events branch req_ref cutoff last_resort_hash evs st
      else scan_events branch req_ref cutoff last_resort_hash evs st)"

text \<open>After the page: the latest commit if no event tells of it, and the last resort.\<close>

definition settle :: "int \<Rightarrow> GitCommitHash \<Rightarrow> int \<Rightarrow> push_state \<Rightarrow> push_state" where
  "settle cutoff last_resort_hash last_resort_time st =
     (let st = (if latest_push_time st \<noteq> 0 \<and> \<not> compare_hash (latest_push_hash st) last_resort_hash \<and>
                   latest_push_time st < cutoff
                then st\<lparr>out_hash := last_resort_hash, out_push_time := latest_push_time st\<rparr> else st)
      in if out_push_time st = 0
         then st\<lparr>out_hash := last_resort_hash, out_push_time := last_resort_time\<rparr> else st)"

definition read_page :: "string \<Rightarrow> string \<Rightarrow> int \<Rightarrow> GitCommitHash \<Rightarrow> int \<Rightarrow> cJSON list \<Rightarrow> push_state \<Rightarrow> push_state" where
  "read_page branch req_ref cutoff last_resort_hash last_resort_time evs st =
     (let st = settle cutoff last_resort_hash last_resort_time
                 (scan_events branch req_ref cutoff last_resort_hash evs st)
      in if evs = [] then st\<lparr>worker_done := True\<rparr> else st)"

subsection \<open>All repositories\<close>

definition events_path :: "string \<Rightarrow> string \<Rightarrow> nat \<Rightarrow> string" where
  "events_path organization repo page =
     repo_path organization repo @ ''/events?page='' @ show_nat page @ ''&per_page=100''"

definition read_events ::
  "string list \<Rightarrow> int \<Rightarrow> GitCommitHash list \<Rightarrow> int list \<Rightarrow> nat \<Rightarrow> CurlGroup \<Rightarrow> nat \<Rightarrow> push_state list \<Rightarrow> push_state list io" where
  "read_events req_branches cutoff last_resort_hashes last_resort_push_times at grp i sts =
     (if worker_done (sts ! (at + i)) then pure sts
      else bd (format_string 256 (''refs/heads/'' @ req_branches ! (at + i))) (\<lambda>req_ref.
           bd (parse_response (get_response grp i)) (\<lambda>json.
           pure (sts[at + i :=
             read_page (req_branches ! (at + i)) req_ref cutoff (last_resort_hashes ! (at + i))
               (last_resort_push_times ! (at + i)) (cJSON_children json) (sts ! (at + i))]))))"

fun events_loop ::
  "string list \<Rightarrow> string list \<Rightarrow> string \<Rightarrow> string \<Rightarrow> int \<Rightarrow> GitCommitHash list \<Rightarrow> int list \<Rightarrow> nat \<Rightarrow> nat \<Rightarrow> nat \<Rightarrow> nat \<Rightarrow> push_state list \<Rightarrow> push_state list io" where
  "events_loop repos req_branches github_token organization cutoff hashes created at n 0 page sts = spent"
| "events_loop repos req_branches github_token organization cutoff hashes created at n (Suc fuel) page sts =
     (if true_for_all (map worker_done (take n (drop at sts))) n then pure sts
      else bd (run_group n (filter (\<lambda>i. \<not> worker_done (sts ! (at + i))) [0..<n])
                 (\<lambda>i. events_path organization (repos ! (at + i)) page) github_token) (\<lambda>grp.
           bd (foldp (read_events req_branches cutoff hashes created at grp) [0..<n] sts)
              (events_loop repos req_branches github_token organization cutoff hashes created at n fuel (page + 1))))"

definition retrieve_pushes_before_cutoff ::
  "string list \<Rightarrow> string list \<Rightarrow> string \<Rightarrow> string \<Rightarrow> int \<Rightarrow> (GitCommitHash list \<times> int list) io" where
  "retrieve_pushes_before_cutoff repos req_branches github_token organization cutoff =
     bd (ask (\<lambda>e h. loop_fuel e)) (\<lambda>fuel.
     bd (retrieve_creation_times repos github_token organization) (\<lambda>created.
     bd (retrieve_latest_commits repos req_branches github_token organization) (\<lambda>hashes.
     bd (foldp (\<lambda>at sts.
           let n = worker_count at (length repos) in
           events_loop repos req_branches github_token organization cutoff hashes created at n fuel 1 sts)
         (batches 0 (length repos)) (replicate (length repos) initial_push_state)) (\<lambda>sts.
     pure (map out_hash sts, map out_push_time sts)))))"

subsection \<open>The query only reads\<close>

lemma emits_events_loop:
  assumes "\<And>s. P (ErrorMsg s)" and "\<And>r. is_get r \<Longrightarrow> P (Http r)"
  shows "emits P (events_loop repos branches t organization cutoff hashes created at n fuel page sts)"
proof (induction fuel arbitrary: page sts)
  case (Suc fuel)
  show ?case unfolding events_loop.simps read_events_def by (intro emits_intros Suc.IH assms)
qed (simp add: emits_ends)

lemma emits_pushes [emits_intros]:
  assumes "\<And>s. P (ErrorMsg s)" and "\<And>r. is_get r \<Longrightarrow> P (Http r)"
  shows "emits P (retrieve_pushes_before_cutoff repos branches t organization cutoff)"
  unfolding retrieve_pushes_before_cutoff_def Let_def by (intro emits_intros emits_events_loop assms)

subsection \<open>What is selected\<close>

text \<open>A push before the cutoff, or the last resort: the latest commit, as if pushed when the repository
  was created.\<close>

definition acceptable :: "int \<Rightarrow> GitCommitHash \<Rightarrow> int \<Rightarrow> push_state \<Rightarrow> bool" where
  "acceptable cutoff last_resort_hash last_resort_time st \<longleftrightarrow>
     out_push_time st < cutoff \<or> out_push_time st = last_resort_time \<and> out_hash st = last_resort_hash"

definition read_so_far :: "int \<Rightarrow> GitCommitHash \<Rightarrow> int \<Rightarrow> push_state \<Rightarrow> bool" where
  "read_so_far cutoff last_resort_hash last_resort_time st \<longleftrightarrow>
     acceptable cutoff last_resort_hash last_resort_time st \<or> out_push_time st = 0 \<and> \<not> worker_done st"

lemma scan_events_read:
  "read_so_far cutoff lh lt st \<Longrightarrow>
    acceptable cutoff lh lt (scan_events branch req_ref cutoff lh evs st) \<or>
    out_push_time (scan_events branch req_ref cutoff lh evs st) = 0"
  by (induction branch req_ref cutoff lh evs st rule: scan_events.induct)
    (auto simp: Let_def read_so_far_def acceptable_def found_def note_push_def)

lemma read_page_acceptable:
  "read_so_far cutoff lh lt st \<Longrightarrow> acceptable cutoff lh lt (read_page branch req_ref cutoff lh lt evs st)"
  using scan_events_read [of cutoff lh lt st branch req_ref evs]
  by (auto simp: read_page_def settle_def Let_def acceptable_def)

definition all_read :: "int \<Rightarrow> GitCommitHash list \<Rightarrow> int list \<Rightarrow> nat \<Rightarrow> push_state list \<Rightarrow> bool" where
  "all_read cutoff hashes created n sts \<longleftrightarrow>
     (\<forall>k < length sts. read_so_far cutoff (hashes ! k) (created ! k) (sts ! k)) \<and>
     (\<forall>k < n. worker_done (sts ! k))"

lemma returns_read_events:
  assumes "all_read cutoff hashes created n sts" and "length sts = N"
  shows "returns (read_events branches cutoff hashes created at g i sts)
    (\<lambda>sts. all_read cutoff hashes created n sts \<and> length sts = N)"
proof (cases "worker_done (sts ! (at + i))")
  case True
  then show ?thesis using assms by (simp add: read_events_def returns_def)
next
  case False
  have "all_read cutoff hashes created n (sts[at + i := read_page (branches ! (at + i)) req_ref cutoff
      (hashes ! (at + i)) (created ! (at + i)) evs (sts ! (at + i))])" for req_ref evs
    unfolding all_read_def
  proof (intro conjI allI impI)
    fix k assume k: "k < length (sts[at + i := read_page (branches ! (at + i)) req_ref cutoff
      (hashes ! (at + i)) (created ! (at + i)) evs (sts ! (at + i))])"
    show "read_so_far cutoff (hashes ! k) (created ! k) (sts[at + i := read_page (branches ! (at + i)) req_ref cutoff
      (hashes ! (at + i)) (created ! (at + i)) evs (sts ! (at + i))] ! k)"
      using k assms(1) by (cases "k = at + i") (auto simp: all_read_def read_so_far_def intro: read_page_acceptable)
  next
    fix k assume "k < n"
    then have "worker_done (sts ! k)" using assms(1) by (simp add: all_read_def)
    then show "worker_done (sts[at + i := read_page (branches ! (at + i)) req_ref cutoff
      (hashes ! (at + i)) (created ! (at + i)) evs (sts ! (at + i))] ! k)"
      using False by (cases "k = at + i") simp_all
  qed
  then show ?thesis
    using assms(2) False unfolding read_events_def by (auto intro!: returns_intros)
qed

lemma returns_events_loop:
  "all_read cutoff hashes created at sts \<Longrightarrow> length sts = N \<Longrightarrow> at + n \<le> N \<Longrightarrow>
    returns (events_loop repos branches t organization cutoff hashes created at n fuel page sts)
      (\<lambda>sts. all_read cutoff hashes created (at + n) sts \<and> length sts = N)"
proof (induction fuel arbitrary: page sts)
  case (Suc fuel)
  have done_all: "all_read cutoff hashes created (at + n) sts"
    if "true_for_all (map worker_done (take n (drop at sts))) n"
  proof -
    have len: "length (take n (drop at sts)) = n" using Suc.prems by simp
    then have all: "\<forall>b \<in> set (map worker_done (take n (drop at sts))). b"
      using that true_for_all_iff [of "map worker_done (take n (drop at sts))"] by (simp only: length_map len)
    have done_at: "worker_done (sts ! (at + i))" if "i < n" for i
    proof -
      have "take n (drop at sts) ! i \<in> set (take n (drop at sts))" using that len by (intro nth_mem) simp
      then have "worker_done (take n (drop at sts) ! i)" using all by simp
      then show ?thesis using that Suc.prems by simp
    qed
    have "worker_done (sts ! k)" if "k < at + n" for k
    proof (cases "k < at")
      case True
      then show ?thesis using Suc.prems(1) by (simp add: all_read_def)
    next
      case False
      then have "k - at < n" using that by simp
      from done_at [OF this] False show ?thesis by simp
    qed
    then show ?thesis using Suc.prems(1) by (simp add: all_read_def)
  qed
  have step: "returns (foldp (read_events branches cutoff hashes created at g) [0..<n] sts)
      (\<lambda>sts. all_read cutoff hashes created at sts \<and> length sts = N)" for g
    using Suc.prems by (intro returns_foldp) (auto intro: returns_read_events)
  show ?case
    unfolding events_loop.simps
    using done_all Suc.prems(2) Suc.IH [OF _ _ Suc.prems(3)]
    by (auto intro!: returns_intros returns_bd [OF step])
qed (simp add: returns_def)

lemma pushes_result:
  assumes "retrieve_pushes_before_cutoff repos branches t organization cutoff e h = (Done (hashes, push_times), h')"
  shows "\<exists>created latest h1 h2.
    retrieve_creation_times repos t organization e h = (Done created, h1) \<and>
    retrieve_latest_commits repos branches t organization e h1 = (Done latest, h2) \<and>
    length hashes = length repos \<and> length push_times = length repos \<and>
    (\<forall>k < length repos. push_times ! k < cutoff \<or> push_times ! k = created ! k \<and> hashes ! k = latest ! k)"
proof -
  let ?n = "length repos"
  obtain created h1 latest h2 sts where q: "retrieve_creation_times repos t organization e h = (Done created, h1)"
    "retrieve_latest_commits repos branches t organization e h1 = (Done latest, h2)"
    and loop: "foldp (\<lambda>at sts. events_loop repos branches t organization cutoff latest created at
      (worker_count at ?n) (loop_fuel e) 1 sts) (batches 0 ?n) (replicate ?n initial_push_state) e h2 = (Done sts, h')"
    and res: "hashes = map out_hash sts" "push_times = map out_push_time sts"
    using assms by (auto simp: retrieve_pushes_before_cutoff_def Let_def bd_eq_Done)
  have "returns (foldp (\<lambda>at sts. events_loop repos branches t organization cutoff latest created at
      (worker_count at ?n) (loop_fuel e) 1 sts) (batches 0 ?n) (replicate ?n initial_push_state))
      (\<lambda>sts. all_read cutoff latest created ?n sts \<and> length sts = ?n)"
  proof (rule returns_batches [where I = "\<lambda>at sts. all_read cutoff latest created at sts \<and> length sts = ?n"])
    fix at s
    assume "at < ?n" and "all_read cutoff latest created at s \<and> length s = ?n"
    then show "returns (events_loop repos branches t organization cutoff latest created at (worker_count at ?n)
        (loop_fuel e) 1 s) (\<lambda>sts. all_read cutoff latest created (at + worker_count at ?n) sts \<and> length sts = ?n)"
      by (intro returns_events_loop) (auto simp: worker_count_def)
  qed (simp_all add: all_read_def read_so_far_def initial_push_state_def)
  from returnsD [OF this loop] show ?thesis
    using q res by (auto simp: all_read_def read_so_far_def acceptable_def)
qed

subsection \<open>The pages of a repository\<close>

text \<open>The state after the first pages, the page \<open>p\<close> with the events \<open>items p\<close>: a repository that is done is left alone.\<close>

fun read_all :: "(cJSON list \<Rightarrow> push_state \<Rightarrow> push_state) \<Rightarrow> (nat \<Rightarrow> cJSON list) \<Rightarrow> nat \<Rightarrow> push_state" where
  "read_all rd items 0 = initial_push_state"
| "read_all rd items (Suc p) =
     (let st = read_all rd items p in if worker_done st then st else rd (items (Suc p)) st)"

lemma read_all_done: "worker_done (read_all rd items p) \<Longrightarrow> p \<le> q \<Longrightarrow> read_all rd items q = read_all rd items p"
  by (induction q) (auto simp: Let_def le_Suc_eq)

definition branch_ref :: "string \<Rightarrow> string" where
  "branch_ref branch = ''refs/heads/'' @ branch"

text \<open>The events that count: the pushes to the branch and the creation of the branch.\<close>

definition concerns :: "string \<Rightarrow> cJSON \<Rightarrow> bool" where
  "concerns branch ev \<longleftrightarrow>
     is_push_event (branch_ref branch) ev \<or> is_branch_event branch ev \<or> is_repository_event branch ev"

definition before_cutoff :: "string \<Rightarrow> int \<Rightarrow> cJSON \<Rightarrow> bool" where
  "before_cutoff branch cutoff ev \<longleftrightarrow> concerns branch ev \<and> event_time ev < cutoff"

text \<open>
  What is to be selected from all events, as GitHub lists them: the first one before the cutoff, with its
  own commit if it is a push, and the latest commit if it is not, or if it is the newest push of
  all and the latest commit is not the one it tells of. Without such an event it is the latest commit,
  with the creation of the repository as the time.
\<close>

definition selected :: "string \<Rightarrow> int \<Rightarrow> GitCommitHash \<Rightarrow> int \<Rightarrow> cJSON list \<Rightarrow> GitCommitHash \<times> int" where
  "selected branch cutoff latest created evs =
     (case find (before_cutoff branch cutoff) evs of
        None \<Rightarrow> (latest, created)
      | Some ev \<Rightarrow>
          (if is_push_event (branch_ref branch) ev \<and>
              (compare_hash (event_hash ev) latest \<or> find (is_push_event (branch_ref branch)) evs \<noteq> Some ev)
           then event_hash ev else latest, event_time ev))"

text \<open>The state when no event before the cutoff has been seen.\<close>

definition searching :: "string \<Rightarrow> int \<Rightarrow> cJSON list \<Rightarrow> push_state \<Rightarrow> bool" where
  "searching branch cutoff evs st \<longleftrightarrow>
     \<not> worker_done st \<and> find (before_cutoff branch cutoff) evs = None \<and>
     (if find (is_push_event (branch_ref branch)) evs = None then latest_push_time st = 0
      else cutoff \<le> latest_push_time st \<and> 0 < latest_push_time st)"

lemma find_append: "find P (xs @ ys) = (case find P xs of None \<Rightarrow> find P ys | Some x \<Rightarrow> Some x)"
  by (induction xs) auto

lemma find_SomeD: "find P xs = Some x \<Longrightarrow> x \<in> set xs \<and> P x"
  by (auto simp: find_Some_iff)

text \<open>The newest push known is the one found, and the latest commit is another.\<close>

definition unreported :: "string \<Rightarrow> GitCommitHash \<Rightarrow> cJSON list \<Rightarrow> cJSON \<Rightarrow> bool" where
  "unreported branch latest evs ev \<longleftrightarrow> is_push_event (branch_ref branch) ev \<and>
     find (is_push_event (branch_ref branch)) evs = Some ev \<and> \<not> compare_hash (event_hash ev) latest"

definition scan_ok :: "string \<Rightarrow> int \<Rightarrow> GitCommitHash \<Rightarrow> cJSON list \<Rightarrow> cJSON list \<Rightarrow> push_state \<Rightarrow> push_state \<Rightarrow> bool" where
  "scan_ok branch cutoff latest seen evs st st' \<longleftrightarrow>
     (case find (before_cutoff branch cutoff) evs of
        None \<Rightarrow> searching branch cutoff (seen @ evs) st' \<and> out_hash st' = out_hash st \<and> out_push_time st' = out_push_time st
      | Some ev \<Rightarrow> worker_done st' \<and> out_push_time st' = event_time ev \<and>
          out_hash st' = (if is_push_event (branch_ref branch) ev then event_hash ev else latest) \<and>
          (if unreported branch latest (seen @ evs) ev
           then latest_push_time st' = event_time ev \<and> latest_push_hash st' = event_hash ev
           else latest_push_time st' = 0 \<or> compare_hash (latest_push_hash st') latest \<or> cutoff \<le> latest_push_time st'))"

lemma scan_run:
  "searching branch cutoff seen st \<Longrightarrow> \<forall>ev \<in> set evs. concerns branch ev \<longrightarrow> 0 < event_time ev \<Longrightarrow>
    scan_ok branch cutoff latest seen evs st (scan_events branch (branch_ref branch) cutoff latest evs st)"
proof (induction evs arbitrary: seen st)
  case (Cons ev evs)
  let ?push = "is_push_event (branch_ref branch)"
  let ?st = "note_push (event_time ev) (event_hash ev) st"
  have pos: "concerns branch ev \<Longrightarrow> 0 < event_time ev" "\<forall>ev \<in> set evs. concerns branch ev \<longrightarrow> 0 < event_time ev"
    using Cons.prems(2) by simp_all
  have later: "scan_ok branch cutoff latest seen (ev # evs) st s" if "scan_ok branch cutoff latest (seen @ [ev]) evs st' s"
    "\<not> before_cutoff branch cutoff ev" "out_hash st' = out_hash st" "out_push_time st' = out_push_time st" for st' s
    using that by (cases "find (before_cutoff branch cutoff) evs") (simp_all add: scan_ok_def)
  consider (old) "?push ev" "event_time ev < cutoff" | (new) "?push ev" "cutoff \<le> event_time ev"
    | (created) "\<not> ?push ev" "is_branch_event branch ev \<or> is_repository_event branch ev" "event_time ev < cutoff"
    | (other) "\<not> ?push ev" "\<not> before_cutoff branch cutoff ev"
    unfolding before_cutoff_def concerns_def by linarith
  then show ?case
  proof cases
    case old
    then have b: "before_cutoff branch cutoff ev" and t: "0 < event_time ev"
      using pos(1) by (simp_all add: before_cutoff_def concerns_def)
    show ?thesis
    proof (cases "find ?push seen")
      case None
      then have "?st = st\<lparr>latest_push_time := event_time ev, latest_push_hash := event_hash ev\<rparr>"
        using Cons.prems(1) t by (simp add: note_push_def searching_def)
      then show ?thesis
        using old b None by (simp add: scan_ok_def found_def find_append unreported_def Let_def)
    next
      case (Some x)
      then have st: "?st = st" "cutoff \<le> latest_push_time st"
        using Cons.prems(1) old(2) by (simp_all add: note_push_def searching_def)
      have "x \<in> set seen" using find_SomeD [OF Some] by simp
      then have "x \<noteq> ev"
        using b Cons.prems(1) by (auto simp: searching_def find_None_iff)
      then show ?thesis
        using old b Some st by (simp add: scan_ok_def found_def find_append unreported_def Let_def)
    qed
  next
    case new
    then have n: "\<not> before_cutoff branch cutoff ev" and t: "0 < event_time ev"
      using pos(1) by (simp_all add: before_cutoff_def concerns_def)
    have "searching branch cutoff (seen @ [ev]) ?st"
      using Cons.prems(1) new n t by (auto simp: searching_def note_push_def find_append split: option.splits if_splits)
    from later [OF Cons.IH [OF this pos(2)] n] show ?thesis
      using new by (simp add: Let_def note_push_def)
  next
    case created
    then have b: "before_cutoff branch cutoff ev" by (auto simp: before_cutoff_def concerns_def)
    have "latest_push_time st = 0 \<or> cutoff \<le> latest_push_time st"
      using Cons.prems(1) by (auto simp: searching_def split: if_splits)
    then show ?thesis
      using created b by (auto simp: scan_ok_def found_def unreported_def)
  next
    case other
    have "searching branch cutoff (seen @ [ev]) st"
      using Cons.prems(1) other by (auto simp: searching_def find_append split: option.splits)
    from later [OF Cons.IH [OF this pos(2)] other(2)] other show ?thesis
      by (auto simp: before_cutoff_def concerns_def)
  qed
qed (simp add: scan_ok_def)

lemma read_page_run:
  assumes "searching branch cutoff seen st" and "\<forall>ev \<in> set evs. concerns branch ev \<longrightarrow> 0 < event_time ev"
    and "out_push_time st = 0 \<or> out_hash st = latest \<and> out_push_time st = created"
  defines "st' \<equiv> read_page branch (branch_ref branch) cutoff latest created evs st"
  shows "find (before_cutoff branch cutoff) evs = None \<Longrightarrow>
      out_hash st' = latest \<and> out_push_time st' = created \<and>
      (if evs = [] then worker_done st' else searching branch cutoff (seen @ evs) st')"
    and "find (before_cutoff branch cutoff) evs \<noteq> None \<Longrightarrow>
      worker_done st' \<and> (out_hash st', out_push_time st') = selected branch cutoff latest created (seen @ evs @ rest)"
proof -
  let ?s = "scan_events branch (branch_ref branch) cutoff latest evs st"
  note scan = scan_run [OF assms(1,2), of latest]
  show "out_hash st' = latest \<and> out_push_time st' = created \<and>
      (if evs = [] then worker_done st' else searching branch cutoff (seen @ evs) st')"
    if "find (before_cutoff branch cutoff) evs = None"
  proof -
    have s: "searching branch cutoff (seen @ evs) ?s" "out_hash ?s = out_hash st" "out_push_time ?s = out_push_time st"
      using scan that by (simp_all add: scan_ok_def)
    have "latest_push_time ?s = 0 \<or> cutoff \<le> latest_push_time ?s"
      using s(1) by (cases "find (is_push_event (branch_ref branch)) (seen @ evs)") (simp_all add: searching_def)
    then have settle: "settle cutoff latest created ?s = (if out_push_time st = 0
        then ?s\<lparr>out_hash := latest, out_push_time := created\<rparr> else ?s)"
      using s(3) by (auto simp: settle_def Let_def)
    have "searching branch cutoff (seen @ evs) (settle cutoff latest created ?s)"
      using s(1) by (simp add: settle searching_def)
    moreover have "out_hash (settle cutoff latest created ?s) = latest \<and> out_push_time (settle cutoff latest created ?s) = created"
      using s(2,3) assms(3) unfolding settle by auto
    moreover have "st' = (if evs = [] then (settle cutoff latest created ?s)\<lparr>worker_done := True\<rparr> else settle cutoff latest created ?s)"
      by (simp add: st'_def read_page_def Let_def)
    ultimately show ?thesis by (cases "evs = []") (simp_all del: scan_events.simps)
  qed
  assume "find (before_cutoff branch cutoff) evs \<noteq> None"
  then obtain ev where ev: "find (before_cutoff branch cutoff) evs = Some ev" by blast
  have mem: "ev \<in> set evs" and before: "before_cutoff branch cutoff ev" using find_SomeD [OF ev] by simp_all
  have t: "0 < event_time ev" "event_time ev < cutoff" using mem before assms(2) by (auto simp: before_cutoff_def)
  have nonempty: "evs \<noteq> []" using mem by auto
  have none: "find (before_cutoff branch cutoff) seen = None" using assms(1) by (simp add: searching_def)
  have first: "find (is_push_event (branch_ref branch)) (seen @ evs @ rest) = find (is_push_event (branch_ref branch)) (seen @ evs)"
    if "is_push_event (branch_ref branch) ev"
  proof -
    have "find (is_push_event (branch_ref branch)) evs \<noteq> None" using that mem by (auto simp: find_None_iff)
    then show ?thesis by (auto simp: find_append split: option.split)
  qed
  have found: "worker_done ?s" "out_push_time ?s = event_time ev"
      "out_hash ?s = (if is_push_event (branch_ref branch) ev then event_hash ev else latest)"
      "if unreported branch latest (seen @ evs) ev
       then latest_push_time ?s = event_time ev \<and> latest_push_hash ?s = event_hash ev
       else latest_push_time ?s = 0 \<or> compare_hash (latest_push_hash ?s) latest \<or> cutoff \<le> latest_push_time ?s"
    using scan ev by (simp_all add: scan_ok_def)
  have sel: "selected branch cutoff latest created (seen @ evs @ rest) =
      (if unreported branch latest (seen @ evs) ev then latest
       else if is_push_event (branch_ref branch) ev then event_hash ev else latest, event_time ev)"
    using ev none first by (simp add: selected_def find_append unreported_def)
  show "worker_done st' \<and> (out_hash st', out_push_time st') = selected branch cutoff latest created (seen @ evs @ rest)"
  proof (cases "unreported branch latest (seen @ evs) ev")
    case True
    then have "\<not> compare_hash (event_hash ev) latest" by (simp add: unreported_def)
    then show ?thesis
      using True found t nonempty unfolding st'_def sel by (simp add: read_page_def settle_def Let_def)
  next
    case False
    then show ?thesis
      using found t nonempty unfolding st'_def sel by (auto simp: read_page_def settle_def Let_def)
  qed
qed

text \<open>The events of the pages up to the first empty one.\<close>

definition all_events :: "(nat \<Rightarrow> cJSON list) \<Rightarrow> nat \<Rightarrow> cJSON list" where
  "all_events items stop = concat (takeWhile (\<lambda>evs. evs \<noteq> []) (map items [1..<stop]))"

lemma all_events_prefix:
  assumes "p < stop" and "\<forall>q. 1 \<le> q \<and> q \<le> p \<longrightarrow> items q \<noteq> []"
  shows "\<exists>rest. all_events items stop = concat (map items [1..<Suc p]) @ rest \<and>
    (items (Suc p) = [] \<longrightarrow> rest = [])"
proof -
  have "[1..<stop] = [1..<Suc p] @ [Suc p..<stop]"
    using assms(1) upt_add_eq_append [of 1 "Suc p" "stop - Suc p"] by (simp del: upt_Suc)
  then have split: "map items [1..<stop] = map items [1..<Suc p] @ map items [Suc p..<stop]"
    by (simp only: map_append)
  have "\<forall>evs \<in> set (map items [1..<Suc p]). evs \<noteq> []" using assms(2) by auto
  then have "all_events items stop =
      concat (map items [1..<Suc p]) @ concat (takeWhile (\<lambda>evs. evs \<noteq> []) (map items [Suc p..<stop]))"
    unfolding all_events_def split by (subst takeWhile_append2) auto
  moreover have "takeWhile (\<lambda>evs. evs \<noteq> []) (map items [Suc p..<stop]) = []" if "items (Suc p) = []"
    using that by (cases "Suc p < stop") (simp_all add: upt_conv_Cons)
  ultimately show ?thesis by auto
qed

lemma read_all_run:
  fixes items :: "nat \<Rightarrow> cJSON list" and created cutoff :: int and latest :: GitCommitHash
  assumes "1 \<le> stop" and "items stop = []"
    and "\<forall>ev \<in> set (all_events items stop). concerns branch ev \<longrightarrow> 0 < event_time ev"
  defines "S \<equiv> read_all (read_page branch (branch_ref branch) cutoff latest created) items"
  shows "worker_done (S stop)"
    and "(out_hash (S stop), out_push_time (S stop)) = selected branch cutoff latest created (all_events items stop)"
proof -
  let ?seen = "\<lambda>p. concat (map items [1..<Suc p])"
  let ?sel = "selected branch cutoff latest created (all_events items stop)"
  have "p \<le> stop \<Longrightarrow> if worker_done (S p) then (out_hash (S p), out_push_time (S p)) = ?sel
      else (\<forall>q. 1 \<le> q \<and> q \<le> p \<longrightarrow> items q \<noteq> []) \<and> searching branch cutoff (?seen p) (S p) \<and>
        (out_push_time (S p) = 0 \<or> out_hash (S p) = latest \<and> out_push_time (S p) = created)" for p
  proof (induction p)
    case 0
    then show ?case by (simp add: S_def searching_def) (simp add: initial_push_state_def)
  next
    case (Suc p)
    show ?case
    proof (cases "worker_done (S p)")
      case True
      then show ?thesis using Suc by (simp add: S_def Let_def)
    next
      case False
      then have ih: "\<forall>q. 1 \<le> q \<and> q \<le> p \<longrightarrow> items q \<noteq> []" "searching branch cutoff (?seen p) (S p)"
        "out_push_time (S p) = 0 \<or> out_hash (S p) = latest \<and> out_push_time (S p) = created"
        using Suc by (auto split: if_splits)
      have step: "S (Suc p) = read_page branch (branch_ref branch) cutoff latest created (items (Suc p)) (S p)"
        using False by (simp add: S_def Let_def)
      have p: "p < stop" using Suc.prems by simp
      obtain rest where rest: "all_events items stop = ?seen p @ items (Suc p) @ rest"
        "items (Suc p) = [] \<Longrightarrow> rest = []"
      proof (cases "items (Suc p) = []")
        case True
        then show thesis using all_events_prefix [OF p ih(1)] that by auto
      next
        case nonempty: False
        with assms(2) p have "Suc p < stop" by (cases "Suc p = stop") auto
        moreover have "\<forall>q. 1 \<le> q \<and> q \<le> Suc p \<longrightarrow> items q \<noteq> []" using ih(1) nonempty by (auto simp: le_Suc_eq)
        ultimately show thesis using all_events_prefix [of "Suc p" stop items] that nonempty by auto
      qed
      have pos: "\<forall>ev \<in> set (items (Suc p)). concerns branch ev \<longrightarrow> 0 < event_time ev"
        using assms(3) rest(1) by auto
      note page = read_page_run [OF ih(2) pos ih(3), folded step]
      show ?thesis
      proof (cases "find (before_cutoff branch cutoff) (items (Suc p))")
        case (Some ev)
        then show ?thesis using page(2) [of rest] rest(1) by simp
      next
        case None
        then have "find (before_cutoff branch cutoff) (?seen p @ items (Suc p)) = None"
          using ih(2) by (simp add: searching_def find_append)
        moreover have "\<not> worker_done (S (Suc p))" if "items (Suc p) \<noteq> []"
          using page(1) [OF None] that by (simp add: searching_def)
        ultimately show ?thesis
          using page(1) [OF None] rest ih(1) by (cases "items (Suc p) = []") (auto simp: selected_def le_Suc_eq)
      qed
    qed
  qed
  from this [of stop] show "worker_done (S stop)"
    "(out_hash (S stop), out_push_time (S stop)) = ?sel"
    using assms(1,2) by (auto split: if_splits)
qed

text \<open>Newest first: then the event found is the newest before the cutoff.\<close>

definition newest_first :: "cJSON list \<Rightarrow> bool" where
  "newest_first evs \<longleftrightarrow> sorted_wrt (\<lambda>a b. event_time b \<le> event_time a) evs"

lemma selected_newest:
  "newest_first evs \<Longrightarrow> ev \<in> set evs \<Longrightarrow> before_cutoff branch cutoff ev \<Longrightarrow>
    event_time ev \<le> snd (selected branch cutoff latest created evs) \<and> snd (selected branch cutoff latest created evs) < cutoff"
  unfolding newest_first_def
proof (induction evs)
  case (Cons x evs)
  have snd_sel: "snd (selected branch cutoff latest created zs) =
      (case find (before_cutoff branch cutoff) zs of None \<Rightarrow> created | Some ev \<Rightarrow> event_time ev)" for zs
    by (simp add: selected_def split: option.split)
  show ?case
  proof (cases "before_cutoff branch cutoff x")
    case True
    then show ?thesis using Cons.prems by (auto simp: snd_sel before_cutoff_def)
  next
    case False
    then show ?thesis using Cons by (auto simp: snd_sel)
  qed
qed simp

end
