(* ===== verification/GitRepo.thy ===== *)
theory GitRepo imports GithubApi begin

text \<open>
  Repositories (\<open>code/hand_git2.c\<close>): the cache of clones, one directory per repository and commit,
  and the push of the feedback. The calls of libgit2 are events; whether one succeeds is up to
  the environment. A sequence of calls joined by \<open>&&\<close> is \<open>all_of\<close>.
\<close>

definition MAX_PATH_LEN :: nat where "MAX_PATH_LEN = 65536"

unbundle bit_operations_syntax

subsection \<open>The callbacks of libgit2\<close>

text \<open>Every certificate is accepted.\<close>

definition git_certificate_no_check_callback :: "bool \<Rightarrow> string \<Rightarrow> int" where
  "git_certificate_no_check_callback valid host = 0"

datatype git_credential = Userpass_plaintext string string | Default_credential | Username string

definition GIT_CREDENTIAL_USERPASS_PLAINTEXT :: "32 word" where "GIT_CREDENTIAL_USERPASS_PLAINTEXT = 1"
definition GIT_CREDENTIAL_DEFAULT :: "32 word" where "GIT_CREDENTIAL_DEFAULT = 8"
definition GIT_CREDENTIAL_USERNAME :: "32 word" where "GIT_CREDENTIAL_USERNAME = 32"

text \<open>\<open>possible\<close>: whether libgit2 can make the credential; \<open>None\<close> is \<open>GIT_PASSTHROUGH\<close>.\<close>

definition git_acquire_credential_callback ::
  "(git_credential \<Rightarrow> bool) \<Rightarrow> 32 word \<Rightarrow> string \<Rightarrow> string \<Rightarrow> git_credential option" where
  "git_acquire_credential_callback possible allowed_types username github_token =
     (let attempt = (\<lambda>c. if possible c then Some c else None) in
      if allowed_types AND GIT_CREDENTIAL_USERPASS_PLAINTEXT \<noteq> 0 then attempt (Userpass_plaintext username github_token)
      else if allowed_types AND GIT_CREDENTIAL_DEFAULT \<noteq> 0 then attempt Default_credential
      else if allowed_types AND GIT_CREDENTIAL_USERNAME \<noteq> 0 then attempt (Username username)
      else None)"

text \<open>The credential is one the server allows.\<close>

lemma credential_allowed:
  assumes "git_acquire_credential_callback possible allowed username token = Some c"
  shows "possible c \<and> allowed AND (case c of Userpass_plaintext _ _ \<Rightarrow> GIT_CREDENTIAL_USERPASS_PLAINTEXT
    | Default_credential \<Rightarrow> GIT_CREDENTIAL_DEFAULT | Username _ \<Rightarrow> GIT_CREDENTIAL_USERNAME) \<noteq> 0"
  using assms by (auto simp: git_acquire_credential_callback_def Let_def split: if_splits)

subsection \<open>Repositories\<close>

text \<open>Called by libgit2 for each file that is not tracked.\<close>

definition git_reset_callback :: "string \<Rightarrow> string \<Rightarrow> unit io" where
  "git_reset_callback path parent =
     bd (format_string MAX_PATH_LEN (parent @ ''/'' @ path)) delete_file"

definition git_reset_hard :: "string \<Rightarrow> bool io" where
  "git_reset_hard parent =
     bd (ask (\<lambda>e h. git_reset_paths e h)) (\<lambda>paths.
     sq (each (\<lambda>path. git_reset_callback path parent) paths) (call_git Git_reset_hard))"

definition git_failed :: "string \<Rightarrow> bool io" where
  "git_failed what = bd git_error_last (\<lambda>message. sq (write_error (what @ '': '' @ message)) (pure False))"

definition clone_and_reset :: "string \<Rightarrow> string \<Rightarrow> GitCommitHash \<Rightarrow> bool io" where
  "clone_and_reset url temporary_dir hash =
     bd (call_git (Git_clone url temporary_dir)) (\<lambda>ok.
     if ok
     then bd (all_of [call_git (Git_oid_fromstrn (hash_full hash)), call_git (Git_commit_lookup (hash_full hash))]) (\<lambda>ok.
          if ok
          then bd (git_reset_hard temporary_dir) (\<lambda>ok. if ok then pure True else git_failed ''git_reset'')
          else git_failed ''libgit2'')
     else git_failed ''git_clone'')"

definition clone_repository ::
  "string \<Rightarrow> string \<Rightarrow> string \<Rightarrow> string \<Rightarrow> string \<Rightarrow> GitCommitHash \<Rightarrow> bool io" where
  "clone_repository dir username github_token organization repo hash =
     sq (assertion (hash_is_valid hash))
     (bd (format_string MAX_URL_LEN (''https://'' @ username @ '':'' @ github_token @ ''@github.com/'' @
            organization @ ''/'' @ repo @ ''.git'')) (\<lambda>url.
      bd (ask (\<lambda>e h. git_temporary_dir e)) (\<lambda>temporary_dir.
      sq (delete_directory temporary_dir)
      (bd (clone_and_reset url temporary_dir hash) (\<lambda>clone_and_reset_success.
       sq (whenp clone_and_reset_success
             (sq (delete_directory dir) (rename_directory dir temporary_dir)))
          (directory_exists dir))))))"

text \<open>The directory is written to the caller's buffer of \<open>size\<close> bytes, if there is a commit.\<close>

definition cache_repository ::
  "nat \<Rightarrow> string \<Rightarrow> string \<Rightarrow> string \<Rightarrow> string \<Rightarrow> GitCommitHash option \<Rightarrow> (string \<times> bool) io" where
  "cache_repository sz username github_token organization repo req_hash =
     bd (case req_hash of
           Some hash \<Rightarrow> pure hash
         | None \<Rightarrow> retrieve_latest_commit github_token organization repo None) (\<lambda>hash.
     if hash_is_valid hash
     then bd (ask (\<lambda>e h. cache_dir e)) (\<lambda>cache.
          bd (format_string sz (cache @ ''/'' @ repo @ ''_'' @ hash_full hash)) (\<lambda>dir.
          bd (directory_exists dir) (\<lambda>ok.
          if ok then pure (dir, True)
          else bd (clone_repository dir username github_token organization repo hash) (\<lambda>ok. pure (dir, ok)))))
     else pure ([], False))"

definition push_to_remote :: "string \<Rightarrow> string \<Rightarrow> string \<Rightarrow> string \<Rightarrow> string \<Rightarrow> bool io" where
  "push_to_remote dir github_token commit_message username email =
     bd (all_of (map call_git
           [Git_signature_now username email, Git_signature_dup, Git_repository_open dir, Git_repository_head,
            Git_branch_upstream, Git_reference_is_branch, Git_reference_is_remote, Git_repository_index,
            Git_index_add_all, Git_index_write_tree, Git_tree_lookup, Git_reference_peel,
            Git_commit_create commit_message])) (\<lambda>ok.
     if ok
     then bd (all_of (map call_git [Git_branch_remote_name, Git_remote_lookup])) (\<lambda>ok.
          if ok
          then bd (all_of (map call_git [Git_remote_push username github_token, Git_reset_soft])) (\<lambda>ok.
               if ok then pure True else git_failed ''libgit2'')
          else git_failed ''libgit2'')
     else git_failed ''libgit2'')"

subsection \<open>What they do to the outside\<close>

text \<open>
  \<open>keeps_remote\<close>: an event that changes nothing on GitHub or Google. What does is a request with
  a method of its own and a push.
\<close>

definition keeps_remote :: "event \<Rightarrow> bool" where
  "keeps_remote ev \<longleftrightarrow>
     (case ev of Http r \<Rightarrow> is_get r | Git (Git_remote_push _ _) \<Rightarrow> False | _ \<Rightarrow> True)"

lemma keeps_remote_simps [simp]:
  "keeps_remote (Output s)" "keeps_remote (ErrorMsg s)" "keeps_remote (Delete_directory s)"
  "keeps_remote (Create_directory s)" "keeps_remote (Rename_directory s t)" "keeps_remote (Copy_directory s t)"
  "keeps_remote (Delete_file s)" "keeps_remote (Open_write s)" "keeps_remote (Write_file s t)"
  "keeps_remote (Run_works n ws)" "keeps_remote (Sleep ms)" "keeps_remote (Http r) \<longleftrightarrow> is_get r"
  "keeps_remote (Git c) \<longleftrightarrow> (\<forall>u t. c \<noteq> Git_remote_push u t)"
  by (auto simp: keeps_remote_def split: git_call.split)

lemma emits_git_failed [emits_intros]: "(\<And>s. P (ErrorMsg s)) \<Longrightarrow> emits P (git_failed what)"
  unfolding git_failed_def by (intro emits_intros) simp_all

lemma emits_clone [emits_intros]: "emits keeps_remote (clone_repository dir username t organization repo hash)"
  unfolding clone_repository_def clone_and_reset_def git_reset_hard_def git_reset_callback_def
  by (intro emits_intros; auto intro: emits_intros)

lemma emits_cache [emits_intros]: "emits keeps_remote (cache_repository sz username t organization repo req_hash)"
  unfolding cache_repository_def by (intro emits_intros; simp)

end
