(* ===== verification/SheetApi.thy ===== *)
theory SheetApi imports CurlGroup begin

text \<open>
  Sheets: the struct \<open>Sheet\<close> and its accessors (\<open>code/hand_buffer.h\<close>, \<open>code/hand_buffer.c\<close>) and
  the Google queries of \<open>code/hand_curl.c\<close>. The first row of a sheet holds the labels, the others
  the values, row after row; a row that is too short is filled with empty strings.

  The content of a sheet is one buffer of NUL-terminated strings; \<open>labels\<close> and \<open>values\<close> are the C
  strings found by walking over it.
\<close>

record Sheet =
  sheet_width :: int
  sheet_height :: int
  sheet_labels :: "string list"
  sheet_values :: "string list"
  sheet_content :: string

definition empty_sheet :: Sheet where
  "empty_sheet = \<lparr>sheet_width = 0, sheet_height = 0, sheet_labels = [], sheet_values = [], sheet_content = []\<rparr>"

text \<open>\<open>allocate_sheet\<close>: all pointers NULL, no content; \<open>width * height\<close> is an \<open>int\<close>.\<close>

definition allocate_sheet :: "int \<Rightarrow> int \<Rightarrow> Sheet option" where
  "allocate_sheet width height =
     map_option (\<lambda>_. empty_sheet\<lparr>sheet_width := width, sheet_height := height\<rparr>) (c_int (width * height))"

definition free_sheet :: "Sheet \<Rightarrow> Sheet" where
  "free_sheet sheet = empty_sheet"

fun find_label_from :: "string list \<Rightarrow> string \<Rightarrow> int \<Rightarrow> int" where
  "find_label_from [] label i = - 1"
| "find_label_from (l # ls) label i = (if compare_string l label then i else find_label_from ls label (i + 1))"

definition find_label :: "Sheet \<Rightarrow> string \<Rightarrow> int" where
  "find_label sheet label = find_label_from (take (nat (sheet_width sheet)) (sheet_labels sheet)) label 0"

text \<open>\<open>None\<close> is the failed assertion, or an index outside the array.\<close>

definition get_value :: "Sheet \<Rightarrow> int \<Rightarrow> int \<Rightarrow> string option" where
  "get_value sheet x y =
     (if x < sheet_width sheet \<and> y < sheet_height sheet
      then let i = y * sheet_width sheet + x in
           if 0 \<le> i \<and> nat i < length (sheet_values sheet) then Some (sheet_values sheet ! nat i) else None
      else None)"

subsection \<open>Queries\<close>

definition google_token_is_valid :: "string \<Rightarrow> bool io" where
  "google_token_is_valid google_token =
     bd (begin_curl_group 1) (\<lambda>grp.
     bd (assign_sheet_get grp 0 ''https://sheets.googleapis.com/v4/spreadsheets/0'' google_token) (\<lambda>grp.
     bd (complete_all_works grp) (\<lambda>grp.
     pure (worker_status (group_workers grp ! 0) = 404))))"

definition sheet_title :: "cJSON \<Rightarrow> string option" where
  "sheet_title sheet =
     string_value (cJSON_GetObjectItemCaseSensitive
       (cJSON_GetObjectItemCaseSensitive (Some sheet) ''properties'') ''title'')"

definition retrieve_spreadsheet :: "string \<Rightarrow> string \<Rightarrow> (string list \<times> bool) io" where
  "retrieve_spreadsheet google_token spreadsheet_id =
     bd (format_string MAX_URL_LEN (''https://sheets.googleapis.com/v4/spreadsheets/'' @ spreadsheet_id)) (\<lambda>url.
     bd (begin_curl_group 1) (\<lambda>grp.
     bd (assign_sheet_get grp 0 url google_token) (\<lambda>grp.
     bd (complete_all_works grp) (\<lambda>grp.
     bd (parse_response (get_response grp 0)) (\<lambda>json.
     pure (List.map_filter sheet_title (cJSON_children (cJSON_GetObjectItemCaseSensitive json ''sheets'')),
           end_curl_group grp))))))"

text \<open>The escaping of the sheet's name in the URL.\<close>

definition hex_char :: string where
  "hex_char = ''0123456789abcdef''"

definition is_unreserved :: "char \<Rightarrow> bool" where
  "is_unreserved c \<longleftrightarrow>
     65 \<le> code c \<and> code c \<le> 90 \<or> 97 \<le> code c \<and> code c \<le> 122 \<or> 48 \<le> code c \<and> code c \<le> 57 \<or>
     c = CHR ''-'' \<or> c = CHR ''_'' \<or> c = CHR ''.'' \<or> c = CHR ''~''"

definition escape_name_char :: "char \<Rightarrow> string" where
  "escape_name_char c =
     (if is_unreserved c then [c]
      else [CHR 0x25, hex_char ! (code c div 16 mod 16), hex_char ! (code c mod 16)])"

definition escape_name :: "string \<Rightarrow> string" where
  "escape_name name = concat (map escape_name_char (cstr name))"

subsection \<open>The cells of a sheet\<close>

definition cell_text :: "cJSON \<Rightarrow> string" where
  "cell_text cell = (case string_value (Some cell) of Some s \<Rightarrow> s | None \<Rightarrow> [])"

definition rows_width :: "cJSON list \<Rightarrow> int" where
  "rows_width rows = foldl (\<lambda>width row. max width (cJSON_GetArraySize (Some row))) 0 rows"

definition row_content :: "int \<Rightarrow> cJSON \<Rightarrow> string" where
  "row_content width row =
     concat (map (\<lambda>cell. cell_text cell @ [NUL]) (cJSON_children (Some row))) @
     replicate (nat (width - cJSON_GetArraySize (Some row))) NUL"

text \<open>\<open>n\<close> strings from \<open>s\<close> on, and what follows them.\<close>

fun walk_strings :: "nat \<Rightarrow> string \<Rightarrow> string list \<times> string" where
  "walk_strings 0 s = ([], s)"
| "walk_strings (Suc n) s =
     (let (ss, rest) = walk_strings n (drop (string_len s + 1) s) in (cstr s # ss, rest))"

definition fill_sheet :: "Sheet \<Rightarrow> cJSON list \<Rightarrow> Sheet" where
  "fill_sheet sheet rows =
     (let content = concat (map (row_content (sheet_width sheet)) rows);
          (labels, rest) = walk_strings (nat (sheet_width sheet)) content;
          (values, after) = walk_strings (nat (sheet_width sheet * sheet_height sheet)) rest
      in sheet\<lparr>sheet_content := content, sheet_labels := labels, sheet_values := values\<rparr>)"

definition sheet_of :: "cJSON option \<Rightarrow> Sheet option" where
  "sheet_of rows =
     (let width = rows_width (cJSON_children rows); height = cJSON_GetArraySize rows - 1
      in if width > 0 \<and> height > 0
         then map_option (\<lambda>sheet. fill_sheet sheet (cJSON_children rows)) (allocate_sheet width height)
         else Some empty_sheet)"

definition retrieve_sheet :: "string \<Rightarrow> string \<Rightarrow> string \<Rightarrow> Sheet io" where
  "retrieve_sheet google_token spreadsheet name =
     bd (format_string MAX_URL_LEN
           (''https://sheets.googleapis.com/v4/spreadsheets/'' @ spreadsheet @ ''/values/'' @
            [CHR 0x27] @ escape_name name @ [CHR 0x27])) (\<lambda>url.
     bd (begin_curl_group 1) (\<lambda>grp.
     bd (assign_sheet_get grp 0 url google_token) (\<lambda>grp.
     bd (complete_all_works grp) (\<lambda>grp.
     bd (parse_response (get_response grp 0)) (\<lambda>json.
     defined (sheet_of (cJSON_GetObjectItemCaseSensitive json ''values'')))))))"

subsection \<open>The queries only read\<close>

lemma emits_sheet_get:
  assumes "\<And>s. P (ErrorMsg s)" and "\<And>r. is_get r \<Longrightarrow> P (Http r)" and "\<And>grp. emits P (f grp)"
  shows "emits P (bd (begin_curl_group n) (\<lambda>grp. bd (assign_sheet_get grp i url t) (\<lambda>grp.
    bd (complete_all_works grp) f)))"
  by (intro emits_bd_returns [OF emits_begin returns_begin [where Q = is_get]]
        emits_bd_returns [OF _ returns_assign_get(2)] emits_bd [OF emits_complete [where Q = is_get]]
        assign_emits assms)

lemma emits_google_queries [emits_intros]:
  assumes "\<And>s. P (ErrorMsg s)" and "\<And>r. is_get r \<Longrightarrow> P (Http r)"
  shows "emits P (google_token_is_valid t)"
    and "emits P (retrieve_spreadsheet t spreadsheet_id)"
    and "emits P (retrieve_sheet t spreadsheet name)"
  unfolding google_token_is_valid_def retrieve_spreadsheet_def retrieve_sheet_def
  by (intro emits_sheet_get emits_pure emits_defined emits_bd emits_format_string emits_libraries assms; assumption?)+

end
