(* ===== verification/Templates.thy ===== *)
theory Templates imports GitRepo SheetApi begin

text \<open>
  The two passes over a report template (\<open>code/hand.c\<close>): \<open>format_report_by_file_replacement\<close>
  replaces \<open>${./path}\<close> by the content of a file of the student's directory when the homework is
  graded, \<open>format_feedback_issues\<close> replaces \<open>${label}\<close> by the value in the student's row of the sheet
  when the grades are announced. The first pass keeps \<open>$$\<close> and \<open>${label}\<close> for the second.
\<close>

abbreviation dollar :: char where "dollar \<equiv> CHR 0x24"
abbreviation lbrace :: char where "lbrace \<equiv> CHR 0x7B"
abbreviation rbrace :: char where "rbrace \<equiv> CHR 0x7D"

subsection \<open>Files\<close>

text \<open>
  The replacement of the identifier that starts at offset \<open>identifier\<close> and ends before offset
  \<open>i\<close>, where the code has put a NUL for the time. \<open>identifier\<close> is \<open>None\<close> for the NULL pointer.
\<close>

definition report_piece :: "string \<Rightarrow> string \<Rightarrow> nat option \<Rightarrow> nat \<Rightarrow> string io" where
  "report_piece dir fmt identifier i =
     (case identifier of
        None \<Rightarrow> crash
      | Some start \<Rightarrow>
          let name = cstr (drop start (take i fmt)) in
          if char_at name 0 = CHR ''.'' \<and> char_at name 1 = CHR ''/''
          then bd (format_string MAX_PATH_LEN (dir @ ''/'' @ name)) read_file
          else pure ([dollar, lbrace] @ name @ [rbrace]))"

function report_loop :: "string \<Rightarrow> string \<Rightarrow> nat \<Rightarrow> nat \<Rightarrow> nat option \<Rightarrow> string \<Rightarrow> string io" where
  "report_loop dir fmt i depth identifier result =
     (if i < length fmt
      then if char_at fmt i = dollar \<and> char_at fmt (i + 1) = dollar
        then report_loop dir fmt (i + 2) depth identifier (result @ [dollar, dollar])
      else if char_at fmt i = dollar \<and> char_at fmt (i + 1) = lbrace
        then report_loop dir fmt (i + 2) (depth + 1) (if depth = 0 then Some (i + 2) else identifier) result
      else if char_at fmt i = rbrace
        then if depth - 1 = 0
             then bd (report_piece dir fmt identifier i) (\<lambda>piece.
                  report_loop dir fmt (i + 1) (depth - 1) identifier (result @ piece))
             else report_loop dir fmt (i + 1) (depth - 1) identifier result
      else report_loop dir fmt (i + 1) depth identifier (if depth = 0 then result @ [char_at fmt i] else result)
      else pure result)"
  by pat_completeness auto
termination by (relation "measure (\<lambda>(dir, fmt, i, depth, identifier, result). length fmt - i)") auto

declare report_loop.simps [simp del]

definition format_report_by_file_replacement :: "string \<Rightarrow> string \<Rightarrow> string io" where
  "format_report_by_file_replacement fmt dir = report_loop dir fmt 0 0 None []"

subsection \<open>Values of the sheet\<close>

text \<open>
  One report. \<open>label\<close> is the text read so far of the label, from its first \<open>${\<close> on. The result is
  the issue's body and whether every label was found; \<open>None\<close> is undefined behaviour in
  \<open>get_value\<close>. Only the first report complains about a label; the message is written when the brace
  is back in its place, so it has the rest of the report in it.
\<close>

definition label_piece :: "Sheet \<Rightarrow> string \<Rightarrow> int \<Rightarrow> string \<Rightarrow> string \<Rightarrow> (string \<times> bool) io" where
  "label_piece sheet sheet_name y label rest =
     (let x = find_label sheet label in
      if x \<ge> 0 then bd (defined (get_value sheet x y)) (\<lambda>replacement. pure (cstr replacement, True))
      else sq (whenp (y = 0) (write_error (''Label '' @ quoted (label @ rest) @ '' not found in sheet '' @ quoted sheet_name)))
              (pure ([], False)))"

fun issue_loop :: "Sheet \<Rightarrow> string \<Rightarrow> int \<Rightarrow> string \<Rightarrow> nat \<Rightarrow> string \<Rightarrow> string \<times> bool \<Rightarrow> (string \<times> bool) io" where
  "issue_loop sheet sheet_name y [] depth label st = pure st"
| "issue_loop sheet sheet_name y (c # s) depth label st =
     (if c = NUL then pure st
      else if c = dollar \<and> deref s = dollar
        then issue_loop sheet sheet_name y (tl s) depth (label @ [c, deref s]) (fst st @ [dollar], snd st)
      else if c = dollar \<and> deref s = lbrace
        then issue_loop sheet sheet_name y (tl s) (depth + 1) (if depth = 0 then [] else label @ [c, deref s]) st
      else if c = rbrace
        then if depth = 1
             then bd (label_piece sheet sheet_name y label (c # cstr s)) (\<lambda>(piece, found).
                  issue_loop sheet sheet_name y s (depth - 1) (label @ [c]) (fst st @ piece, snd st \<and> found))
             else issue_loop sheet sheet_name y s (depth - 1) (label @ [c]) st
      else issue_loop sheet sheet_name y s depth (label @ [c]) (if depth = 0 then (fst st @ [c], snd st) else st))"

definition format_feedback_issues :: "string list \<Rightarrow> Sheet \<Rightarrow> string \<Rightarrow> (string list \<times> bool) io" where
  "format_feedback_issues fmt sheet sheet_name =
     sq (assertion (int (length fmt) = sheet_height sheet))
     (bd (foldp (\<lambda>y (bodies, success).
            bd (issue_loop sheet sheet_name (int y) (fmt ! y) 0 [] ([], True)) (\<lambda>(body, ok).
            pure (bodies @ [body], success \<and> ok)))
          [0..<length fmt] ([], True)) (\<lambda>(bodies, success).
      pure (if success then bodies else [], success)))"

lemma emits_report_loop:
  assumes "\<And>s. P (ErrorMsg s)"
  shows "emits P (report_loop dir fmt i depth start out)"
proof (induction dir fmt i depth start out rule: report_loop.induct)
  case (1 dir fmt i depth start out)
  have piece: "emits P (report_piece dir fmt start i)"
    unfolding report_piece_def Let_def by (intro emits_intros assms)
  show ?case by (subst report_loop.simps) (intro emits_intros piece 1)
qed

lemma emits_issue_loop:
  assumes "\<And>s. P (ErrorMsg s)"
  shows "emits P (issue_loop sheet sheet_name y s depth label st)"
proof (induction sheet sheet_name y s depth label st rule: issue_loop.induct)
  case (2 sheet sheet_name y c s depth label st)
  have piece: "emits P (label_piece sheet sheet_name y label (c # cstr s))"
    unfolding label_piece_def Let_def by (intro emits_intros assms)
  show ?case by (subst issue_loop.simps) (intro emits_intros piece 2)
qed (simp only: issue_loop.simps emits_pure)

lemma emits_templates [emits_intros]:
  assumes "\<And>s. P (ErrorMsg s)"
  shows "emits P (format_report_by_file_replacement fmt dir)"
    and "emits P (format_feedback_issues fmts sheet sheet_name)"
  unfolding format_report_by_file_replacement_def format_feedback_issues_def
  by (intro emits_intros emits_report_loop emits_issue_loop assms)+

end
