(* ===== verification/Commands.thy ===== *)
theory Commands imports GithubPages Pushes Templates ConfigLang Deadline begin

text \<open>
  Four of the commands of \<open>code/hand.c\<close>: \<open>clean\<close>, \<open>config-check\<close>, \<open>invite-students\<close> and
  \<open>collect-homework\<close> with \<open>bulk-clone\<close>. Each is a program over the queries and the platform; its
  messages are those of the code, what goes to the log is left out.

  The counters of a loop and the parts of an array it changes are the state of a \<open>foldp\<close>.
\<close>

subsection \<open>Shared pieces\<close>

definition newline :: string where "newline = [CHR 0x0A]"

text \<open>\<open>%d-%02d-%02d %02d:%02d:%02d\<close> with a separator between date and time.\<close>

definition show_time :: "string \<Rightarrow> tm \<Rightarrow> string" where
  "show_time sep t =
     show_int (tm_year t + 1900) @ ''-'' @ show_int0 2 (tm_mon t + 1) @ ''-'' @ show_int0 2 (tm_mday t) @ sep @
     show_int0 2 (tm_hour t) @ '':'' @ show_int0 2 (tm_min t) @ '':'' @ show_int0 2 (tm_sec t)"

text \<open>\<open>atoi\<close>: blanks, a sign and digits; undefined (\<open>None\<close>) when the value is no \<open>int\<close>.\<close>

fun digits_value :: "string \<Rightarrow> int \<Rightarrow> int" where
  "digits_value [] n = n"
| "digits_value (c # s) n = (if is_digit c then digits_value s (n * 10 + (int (code c) - 48)) else n)"

fun atoi :: "string \<Rightarrow> int option" where
  "atoi [] = Some 0"
| "atoi (c # s) =
     (if c = CHR '' '' \<or> 9 \<le> code c \<and> code c \<le> 13 then atoi s
      else c_int (if c = CHR ''-'' then - digits_value s 0 else if c = CHR ''+'' then digits_value s 0
                  else digits_value (c # s) 0))"

text \<open>The index \<open>find_index_case_insensitive\<close> finds; \<open>None\<close> is -1.\<close>

definition find_name :: "string list \<Rightarrow> string \<Rightarrow> nat option" where
  "find_name names keyword = find (\<lambda>i. compare_case_insensitive (names ! i) keyword) [0..<length names]"

text \<open>The repositories a command works on: the one of \<open>--only-repo\<close>, if its latest commit is
  found, or those with the title as their prefix. \<open>what\<close> is the word of the message.\<close>

definition select_repos :: "string \<Rightarrow> string \<Rightarrow> string option \<Rightarrow> string \<Rightarrow> string \<Rightarrow> string list option io" where
  "select_repos what title only_repo github_token organization =
     (case only_repo of
        Some repo \<Rightarrow>
          sq (write_output (''Retrieving repository '' @ quoted repo @ ''...''))
          (bd (retrieve_latest_commit github_token organization repo None) (\<lambda>hash.
           if \<not> hash_is_valid hash
           then sq (write_error (''Unable to retrieve '' @ quoted (organization @ ''/'' @ repo))) (pure None)
           else pure (Some [cstr repo])))
      | None \<Rightarrow>
          sq (write_output (''Retrieving '' @ what @ '' with prefix '' @ quoted title @ ''...''))
          (bd (retrieve_repos_by_prefix github_token organization title) (\<lambda>repos. pure (Some repos))))"

definition write_deadlines :: "int \<Rightarrow> int \<Rightarrow> unit io" where
  "write_deadlines deadline cutoff =
     sq (write_output (''    Deadline: '' @ show_time '' '' (calendar_time deadline)))
        (write_output (''    Cutoff: '' @ show_time '' '' (calendar_time cutoff)))"

text \<open>A value of the sheet; \<open>get_value\<close> asserts its indices.\<close>

definition value_at :: "Sheet \<Rightarrow> int \<Rightarrow> nat \<Rightarrow> string io" where
  "value_at sheet x y = defined (get_value sheet x (int y))"

subsection \<open>clean\<close>

definition delete_cache_and_log :: "unit io" where
  "delete_cache_and_log =
     bd (ask (\<lambda>e h. (cache_dir e, log_dir e))) (\<lambda>(cache, logs).
     sq (write_output (''Deleting cache from '' @ quoted cache @ ''...''))
     (sq (delete_directory cache)
     (sq (write_output (''Deleting log from '' @ quoted logs @ ''...''))
         (delete_directory logs))))"

subsection \<open>config-check\<close>

text \<open>A value of the configuration, which is complete when a command runs.\<close>

definition conf :: "Config \<Rightarrow> config_key \<Rightarrow> string" where
  "conf config k = (case config ! key_index k of Some s \<Rightarrow> cstr s | None \<Rightarrow> [])"

type_synonym checks = "bool list"

definition set_check :: "checks \<Rightarrow> config_key \<Rightarrow> bool \<Rightarrow> checks" where
  "set_check oks k b = oks[key_index k := b]"

definition get_check :: "checks \<Rightarrow> config_key \<Rightarrow> bool" where
  "get_check oks k = oks ! key_index k"

definition check_github :: "Config \<Rightarrow> checks \<Rightarrow> (string \<times> checks) io" where
  "check_github config oks =
     (let github_token = conf config Config_github_token; organization = conf config Config_organization in
      bd (retrieve_username True MAX_URL_LEN github_token) (\<lambda>(username, b).
      let oks = set_check oks Config_github_token b in
      if b
      then bd (github_organization_exists github_token organization) (\<lambda>org.
           bd (github_team_exists github_token organization (conf config Config_ta_team)) (\<lambda>ta.
           bd (github_team_exists github_token organization (conf config Config_student_team)) (\<lambda>students.
           bd (github_repository_exists github_token organization (conf config Config_feedback_repo)) (\<lambda>feedback.
           pure (username,
             set_check (set_check (set_check (set_check oks Config_organization org)
               Config_ta_team ta) Config_student_team students) Config_feedback_repo feedback)))))
      else pure (username, oks)))"

definition check_google :: "Config \<Rightarrow> checks \<Rightarrow> (string list \<times> checks) io" where
  "check_google config oks =
     (let google_token = conf config Config_google_token in
      bd (google_token_is_valid google_token) (\<lambda>b.
      let oks = set_check oks Config_google_token b in
      if b
      then bd (retrieve_spreadsheet google_token (conf config Config_spreadsheet)) (\<lambda>(titles, found).
           pure (titles, set_check oks Config_spreadsheet found))
      else pure ([], oks)))"

definition check_numbers :: "Config \<Rightarrow> checks \<Rightarrow> checks io" where
  "check_numbers config oks =
     bd (defined (atoi (conf config Config_grade_thread_count))) (\<lambda>thread_count.
     pure (set_check (set_check (set_check oks Config_grade_thread_count (thread_count > 0))
       Config_penalty_per_day (is_number (conf config Config_penalty_per_day)))
       Config_weekends_as_one_day (is_number (conf config Config_weekends_as_one_day))))"

definition verdict :: "bool \<Rightarrow> string \<Rightarrow> string" where
  "verdict b bad = (if b then ''OK'' else bad)"

definition check_line :: "string \<Rightarrow> string \<Rightarrow> bool \<Rightarrow> unit io" where
  "check_line what value b = write_output (''    '' @ what @ value @ '' ... '' @ verdict b ''Not found'')"

definition report_github :: "Config \<Rightarrow> string \<Rightarrow> checks \<Rightarrow> unit io" where
  "report_github config username oks =
     each id
      ([write_output [], write_output ''[GitHub]'',
        check_line ''Token owner: '' username (get_check oks Config_github_token)] @
       (if get_check oks Config_github_token
        then [check_line ''Organization: '' (conf config Config_organization) (get_check oks Config_organization),
              check_line ''Teaching team: '' (conf config Config_ta_team) (get_check oks Config_ta_team),
              check_line ''Student team: '' (conf config Config_student_team) (get_check oks Config_student_team),
              check_line ''Feedback repository: '' (conf config Config_feedback_repo) (get_check oks Config_feedback_repo),
              write_output (''    Commit email: '' @ conf config Config_email @ '' ... nocheck'')]
        else []))"

text \<open>The line is used as the format of \<open>printf\<close>: only \<open>%%\<close> is defined without arguments.\<close>

fun as_format :: "string \<Rightarrow> string option" where
  "as_format [] = Some []"
| "as_format (c # s) =
     (if c \<noteq> CHR 0x25 then map_option ((#) c) (as_format s)
      else if deref s = CHR 0x25 then map_option ((#) c) (as_format (tl s)) else None)"

definition one_based :: "int \<Rightarrow> int" where
  "one_based x = (if x \<noteq> - 1 then x + 1 else - 1)"

definition check_sheet :: "Config \<Rightarrow> string \<Rightarrow> unit io" where
  "check_sheet config title =
     (let username_label = conf config Config_username_label; id_label = conf config Config_student_id_label in
      bd (retrieve_sheet (conf config Config_google_token) (conf config Config_spreadsheet) title) (\<lambda>sheet.
      let username_x = find_label sheet username_label; id_x = find_label sheet id_label in
      bd (format_string 4096
            (''    '' @ title @ '': '' @ username_label @ ''='' @ show_int (one_based username_x) @ '', '' @
             id_label @ ''='' @ show_int (one_based id_x) @ '' ... '' @
             verdict (username_x \<noteq> - 1 \<and> id_x \<noteq> - 1) ''Not a homework'')) (\<lambda>buffer.
      bd (defined (as_format buffer)) write_output)))"

definition report_sheets :: "Config \<Rightarrow> string list \<Rightarrow> checks \<Rightarrow> unit io" where
  "report_sheets config titles oks =
     sq (write_output [])
     (sq (write_output ''[Google Sheet]'')
     (sq (write_output (''    Token ... '' @ verdict (get_check oks Config_google_token) ''Not found''))
     (whenp (get_check oks Config_google_token)
       (sq (check_line ''Spreadsheet: '' (conf config Config_spreadsheet) (get_check oks Config_spreadsheet))
       (whenp (get_check oks Config_spreadsheet)
         (sq (write_output [])
         (sq (write_output ''[Homework sheet]'')
             (each (check_sheet config) titles))))))))"

definition report_misc :: "Config \<Rightarrow> checks \<Rightarrow> unit io" where
  "report_misc config oks =
     each write_output
      [[], ''[Misc]'',
       ''    Use '' @ conf config Config_grade_thread_count @ '' grading thread ... '' @
         verdict (get_check oks Config_grade_thread_count) ''Not a positive integer'',
       ''    Penalty per day is '' @ conf config Config_penalty_per_day @ [CHR 0x25] @ '' ... '' @
         verdict (get_check oks Config_penalty_per_day) ''Not a integer'',
       ''    Weekends as one day is '' @ conf config Config_weekends_as_one_day @ '' ... '' @
         verdict (get_check oks Config_weekends_as_one_day) ''Not a integer'',
       ''    Score read from: {hwdir}/'' @ conf config Config_score_relative_path @ '' ... nocheck'',
       ''    Grading command: '' @ conf config Config_grade_command @ '' ... nocheck'']"

definition report_summary :: "checks \<Rightarrow> unit io" where
  "report_summary oks =
     each write_output
      ([[], ''[Summary]''] @
       (if true_for_all oks Config_one_past_last then [''    Config is OK'']
        else map (\<lambda>i. ''    Invalid config: '' @ g_config_name ! i) (filter (\<lambda>i. \<not> oks ! i) [0..<Config_one_past_last])))"

definition config_check :: "Config \<Rightarrow> unit io" where
  "config_check config =
     bd (check_github config (replicate Config_one_past_last True)) (\<lambda>(username, oks).
     bd (check_google config oks) (\<lambda>(titles, oks).
     bd (check_numbers config oks) (\<lambda>oks.
     sq (report_github config username oks)
     (sq (report_sheets config titles oks)
     (sq (report_misc config oks)
         (report_summary oks))))))"

end
