(* ===== verification/Homework.thy ===== *)
theory Homework imports Commands StringArrays begin

text \<open>
  The commands \<open>invite-students\<close>, \<open>collect-homework\<close> and \<open>bulk-clone\<close> of \<open>code/hand.c\<close>.
\<close>

subsection \<open>invite-students\<close>

text \<open>\<open>students.elem[i]\<close> becomes NULL (\<open>None\<close>) for a student who needs no invitation.\<close>

record roster =
  pending :: "string option list"
  existing_count :: nat
  inviting_count :: nat
  invalid_count :: nat

definition empty_roster :: roster where
  "empty_roster = \<lparr>pending = [], existing_count = 0, inviting_count = 0, invalid_count = 0\<rparr>"

definition is_listed :: "string \<Rightarrow> string list \<Rightarrow> bool" where
  "is_listed student names = list_ex (compare_case_insensitive student) names"

text \<open>Each student with whether the user exists. The first user who does not exist ends the loop.\<close>

fun sort_students :: "string list \<Rightarrow> string list \<Rightarrow> (string \<times> bool) list \<Rightarrow> roster \<Rightarrow> roster io" where
  "sort_students members invitations [] r = pure r"
| "sort_students members invitations ((student, exist) # students) r =
     (if is_listed student members
      then sort_students members invitations students
             (r\<lparr>pending := pending r @ [None], existing_count := existing_count r + 1\<rparr>)
      else if is_listed student invitations
      then sort_students members invitations students
             (r\<lparr>pending := pending r @ [None], inviting_count := inviting_count r + 1\<rparr>)
      else if \<not> exist
      then sq (write_error (''GitHub user '' @ quoted student @ '' doesn'' @ [CHR 0x27] @ ''t exist''))
           (pure (r\<lparr>pending := pending r @ None # map (\<lambda>(s, _). Some s) students,
                    invalid_count := invalid_count r + 1\<rparr>))
      else sort_students members invitations students (r\<lparr>pending := pending r @ [Some student]\<rparr>))"

definition invite_student ::
  "string \<Rightarrow> string \<Rightarrow> string \<Rightarrow> string option \<Rightarrow> nat \<times> nat \<Rightarrow> (nat \<times> nat) io" where
  "invite_student github_token organization team student counts =
     (case (student, counts) of
        (None, _) \<Rightarrow> pure counts
      | (Some s, (success_count, failure_count)) \<Rightarrow>
          bd (invite_user_to_team github_token s organization team) (\<lambda>ok.
          if ok
          then sq (write_output (''Invite '' @ quoted s @ '' to '' @ quoted (organization @ ''/'' @ team)))
               (pure (success_count + 1, failure_count))
          else sq (write_error (''Can'' @ [CHR 0x27] @ ''t invite '' @ quoted s @ '' to '' @ quoted (organization @ ''/'' @ team)))
               (pure (success_count, failure_count + 1))))"

definition invite_pending :: "string \<Rightarrow> string \<Rightarrow> string \<Rightarrow> roster \<Rightarrow> unit io" where
  "invite_pending github_token organization team r =
     sq (write_output ''Inviting new members...'')
     (bd (foldp (invite_student github_token organization team) (pending r) (0, 0)) (\<lambda>(success_count, failure_count).
      each write_output
       [[], ''[Summary]'',
        ''    Student team: '' @ organization @ ''/'' @ team,
        ''    Total students: '' @ show_nat (length (pending r)),
        ''    New invitations (success): '' @ show_nat success_count,
        ''    New invitations (failure): '' @ show_nat failure_count,
        ''    Already in team: '' @ show_nat (existing_count r),
        ''    Already invited: '' @ show_nat (inviting_count r)]))"

text \<open>What is done once the team and the users are known.\<close>

definition invite_new ::
  "string list \<Rightarrow> string list \<Rightarrow> (string \<times> bool) list \<Rightarrow> string \<Rightarrow> string \<Rightarrow> string \<Rightarrow> unit io" where
  "invite_new members invitations students github_token organization team =
     bd (sort_students members invitations students empty_roster) (\<lambda>r.
     if invalid_count r = 0 then invite_pending github_token organization team r
     else write_output ''ABORT: some usernames are invalid'')"

definition invite_students :: "string \<Rightarrow> string \<Rightarrow> string \<Rightarrow> string \<Rightarrow> unit io" where
  "invite_students path github_token organization team =
     bd (read_file path) (\<lambda>file_content.
     let students = words file_content in
     if length students > 0
     then sq (write_output ''Retrieving existing members...'')
          (bd (retrieve_team_members github_token organization team) (\<lambda>members.
           sq (write_output ''Retrieving existing invitations...'')
           (bd (retrieve_existing_invitations github_token organization team) (\<lambda>invitations.
            sq (write_output ''Checking for valid usernames...'')
            (bd (github_users_exist students github_token) (\<lambda>exist.
             invite_new members invitations (zip students exist) github_token organization team))))))
     else write_error (''Input file '' @ quoted path @ '' is empty''))"

subsection \<open>collect-homework\<close>

text \<open>The share of the grade that is left, in \<open>int\<close> arithmetic.\<close>

definition share_left :: "int \<Rightarrow> int \<Rightarrow> int option" where
  "share_left penalty_per_day delay =
     (case c_int (penalty_per_day * delay) of
        None \<Rightarrow> None
      | Some penalty \<Rightarrow> map_option (\<lambda>x. max x 0) (c_int (100 - penalty)))"

definition late_header :: string where
  "late_header =
     pad_left 3 CHR '' '' ''#'' @ ''  '' @ pad_left 12 CHR '' '' ''delay (days)'' @ ''  '' @ pad_right 19 ''push_time'' @ ''  '' @
     pad_right 24 ''repository'' @ ''  '' @ pad_right 8 ''hash''"

definition late_line :: "nat \<Rightarrow> int \<Rightarrow> int \<Rightarrow> string \<Rightarrow> GitCommitHash \<Rightarrow> string" where
  "late_line n delay push_time repo hash =
     (let t = calendar_time push_time in
      pad_left 3 CHR '' '' (show_nat n) @ ''  '' @ pad_left 12 CHR '' '' (show_int delay) @ ''  '' @
      pad_left 4 CHR '' '' (show_int (tm_year t + 1900)) @ ''-'' @ show_int0 2 (tm_mon t + 1) @ ''-'' @
      show_int0 2 (tm_mday t) @ ''_'' @ show_int0 2 (tm_hour t) @ '':'' @ show_int0 2 (tm_min t) @ '':'' @
      show_int0 2 (tm_sec t) @ ''  '' @ pad_right 24 repo @ ''  '' @ pad_right 8 (hash_trim hash))"

text \<open>The delay of the repository at an index, reported if it is late, and the number of late ones.\<close>

definition late_submission ::
  "int \<Rightarrow> bool \<Rightarrow> string list \<Rightarrow> GitCommitHash list \<Rightarrow> int list \<Rightarrow> nat \<Rightarrow> nat \<Rightarrow> (int \<times> nat) io" where
  "late_submission deadline is_weekends_one_day repos hashes push_times index late_count =
     (if push_times ! index > deadline
      then bd (defined (calculate_late_submission_day deadline (push_times ! index) is_weekends_one_day)) (\<lambda>delay.
           sq (whenp (late_count = 0) (each write_output [[], ''[Late submission]'', late_header]))
           (sq (write_output (late_line (late_count + 1) delay (push_times ! index) (repos ! index) (hashes ! index)))
               (pure (delay, late_count + 1))))
      else pure (0, late_count))"

definition collect_row ::
  "string \<Rightarrow> string \<Rightarrow> int \<Rightarrow> int \<Rightarrow> bool \<Rightarrow> string option \<Rightarrow> string list \<Rightarrow> GitCommitHash list \<Rightarrow> int list \<Rightarrow>
   Sheet \<Rightarrow> int \<Rightarrow> nat \<Rightarrow> nat \<times> nat \<Rightarrow> (nat \<times> nat) io" where
  "collect_row title out_path deadline penalty_per_day is_weekends_one_day only_repo repos hashes push_times
     sheet student_x y counts =
     (case counts of (submission_count, late_count) \<Rightarrow>
      bd (value_at sheet student_x y) (\<lambda>student.
      bd (format_string 256 (title @ ''-'' @ student)) (\<lambda>req_repo.
      let index = find_name repos req_repo in
      bd (case index of
            Some i \<Rightarrow> late_submission deadline is_weekends_one_day repos hashes push_times i late_count
          | None \<Rightarrow> pure (0, late_count)) (\<lambda>(delay, late_count).
      sq (whenp (only_repo = None \<or> index \<noteq> None)
            (bd (defined (share_left penalty_per_day delay)) (\<lambda>share.
             write_file out_path (show_int share @ [CHR 0x25] @ newline))))
         (pure (if index \<noteq> None then submission_count + 1 else submission_count, late_count))))))"

definition collect_rows ::
  "string \<Rightarrow> string \<Rightarrow> int \<Rightarrow> int \<Rightarrow> bool \<Rightarrow> string option \<Rightarrow> string list \<Rightarrow> GitCommitHash list \<Rightarrow> int list \<Rightarrow>
   Sheet \<Rightarrow> string \<Rightarrow> string \<Rightarrow> (nat \<times> nat) io" where
  "collect_rows title out_path deadline penalty_per_day is_weekends_one_day only_repo repos hashes push_times
     sheet spreadsheet_id student_label =
     (if sheet_width sheet > 0 \<and> sheet_height sheet > 0
      then let student_x = find_label sheet student_label in
           if student_x \<ge> 0
           then foldp (collect_row title out_path deadline penalty_per_day is_weekends_one_day only_repo
                  repos hashes push_times sheet student_x) [0..<nat (sheet_height sheet)] (0, 0)
           else sq (write_error (''Label '' @ quoted student_label @ '' not found in sheet '' @ quoted title)) (pure (0, 0))
      else sq (write_error (''Sheet '' @ quoted title @ '' is empty in spreadsheet '' @ quoted spreadsheet_id)) (pure (0, 0)))"

definition collect_homework ::
  "string \<Rightarrow> string \<Rightarrow> int \<Rightarrow> int \<Rightarrow> int \<Rightarrow> bool \<Rightarrow> string option \<Rightarrow> string \<Rightarrow> string \<Rightarrow> string \<Rightarrow> string \<Rightarrow> string \<Rightarrow> unit io" where
  "collect_homework title out_path deadline cutoff penalty_per_day is_weekends_one_day only_repo
     github_token organization google_token spreadsheet_id student_label =
     bd (open_write out_path) (\<lambda>ok.
     if \<not> ok then write_error (''Unable to create '' @ quoted out_path)
     else bd (select_repos ''repositories'' title only_repo github_token organization) (\<lambda>selected.
     case selected of None \<Rightarrow> skip | Some repos \<Rightarrow>
       sq (write_output ''Retrieving default branches...'')
       (bd (retrieve_default_branches repos github_token organization) (\<lambda>branches.
        sq (assertion (length branches = length repos))
        (sq (write_output ''Retrieving pushes before deadline...'')
        (bd (retrieve_pushes_before_cutoff repos branches github_token organization cutoff) (\<lambda>(hashes, push_times).
         sq (write_output ''Retrieving sheet...'')
         (bd (retrieve_sheet google_token spreadsheet_id title) (\<lambda>sheet.
          bd (collect_rows title out_path deadline penalty_per_day is_weekends_one_day only_repo repos hashes push_times
                sheet spreadsheet_id student_label) (\<lambda>(submission_count, late_count).
          sq (each write_output
               [[], ''[Summary]'',
                ''    Total students in sheet: '' @ show_int (sheet_height sheet),
                ''    Total repositories: '' @ show_nat (length repos),
                ''    Total submitted students: '' @ show_nat submission_count,
                ''    Late submitted students: '' @ show_nat late_count])
             (write_deadlines deadline cutoff)))))))))))"

subsection \<open>bulk-clone\<close>

text \<open>The tests of the template replace those of the repository.\<close>

definition replace_tests :: "string \<Rightarrow> string \<Rightarrow> string \<Rightarrow> unit io" where
  "replace_tests dir template_test_dir template_docker_dir =
     bd (format_string MAX_PATH_LEN (dir @ ''/test'')) (\<lambda>test_dir.
     bd (format_string MAX_PATH_LEN (dir @ ''/docker'')) (\<lambda>docker_dir.
     sq (delete_directory test_dir)
     (sq (delete_directory docker_dir)
     (sq (copy_directory test_dir template_test_dir)
         (copy_directory docker_dir template_docker_dir)))))"

text \<open>The template's two directories; \<open>None\<close> if it cannot be retrieved.\<close>

definition bulk_template ::
  "string option \<Rightarrow> string option \<Rightarrow> string \<Rightarrow> string \<Rightarrow> string \<Rightarrow> (string \<times> string) option io" where
  "bulk_template template_repo template_branch username github_token organization =
     (case (template_repo, template_branch) of
        (Some repo, Some branch) \<Rightarrow>
          sq (write_output ''Retrieving homework template...'')
          (bd (retrieve_latest_commit github_token organization repo (Some branch)) (\<lambda>hash.
           bd (cache_repository MAX_PATH_LEN username github_token organization repo (Some hash)) (\<lambda>(dir, ok).
           if \<not> ok
           then sq (write_error (''Unable to retrieve '' @ quoted (organization @ ''/'' @ repo @ ''/'' @ branch))) (pure None)
           else bd (format_string MAX_PATH_LEN (dir @ ''/test'')) (\<lambda>test_dir.
                bd (format_string MAX_PATH_LEN (dir @ ''/docker'')) (\<lambda>docker_dir.
                pure (Some (test_dir, docker_dir)))))))
      | _ \<Rightarrow> pure (Some ([], [])))"

definition clone_homework ::
  "string \<Rightarrow> bool \<Rightarrow> string \<times> string \<Rightarrow> string \<Rightarrow> string \<Rightarrow> string \<Rightarrow> string \<times> GitCommitHash \<Rightarrow> unit io" where
  "clone_homework parent_dir has_template template_dirs username github_token organization homework =
     (case homework of (repo, hash) \<Rightarrow>
      bd (format_string MAX_PATH_LEN (parent_dir @ ''/'' @ repo)) (\<lambda>dir.
      sq (write_output (''Retrieving homework from '' @ quoted repo))
      (bd (clone_repository dir username github_token organization repo hash) (\<lambda>ok.
       whenp (ok \<and> has_template) (replace_tests dir (fst template_dirs) (snd template_dirs))))))"

definition bulk_clone ::
  "string \<Rightarrow> string \<Rightarrow> int \<Rightarrow> int \<Rightarrow> string option \<Rightarrow> string option \<Rightarrow> string \<Rightarrow> string \<Rightarrow> unit io" where
  "bulk_clone parent_dir title deadline cutoff template_repo template_branch github_token organization =
     bd (retrieve_username True MAX_URL_LEN github_token) (\<lambda>(username, ok).
     if \<not> ok then write_error ''Unable to retrieve username''
     else bd (bulk_template template_repo template_branch username github_token organization) (\<lambda>template.
     case template of None \<Rightarrow> skip | Some template_dirs \<Rightarrow>
       sq (create_directory parent_dir)
       (sq (write_output (''Retrieving repos with prefix '' @ quoted title @ ''...''))
       (bd (retrieve_repos_by_prefix github_token organization title) (\<lambda>repos.
        sq (write_output ''Retrieving default branches...'')
        (bd (retrieve_default_branches repos github_token organization) (\<lambda>branches.
         sq (assertion (length branches = length repos))
         (sq (write_output ''Retrieving pushes before deadline...'')
         (bd (retrieve_pushes_before_cutoff repos branches github_token organization cutoff) (\<lambda>(hashes, push_times).
          sq (write_output ''Retrieving student repositories...'')
          (sq (each (clone_homework parent_dir (template_repo \<noteq> None \<and> template_branch \<noteq> None) template_dirs
                 username github_token organization) (zip repos hashes))
          (sq (each write_output [[], ''[Summary]'', ''    Total repositories: '' @ show_nat (length repos)])
              (write_deadlines deadline cutoff)))))))))))))"

end
