(* ===== verification/Grading.thy ===== *)
theory Grading imports Homework begin

text \<open>
  The commands \<open>grade-homework\<close> and \<open>announce-grade\<close> of \<open>code/hand.c\<close>.

  The grading itself is \<open>wait_for_completion\<close> of the platform: the environment gives the calls of
  the two callbacks, and with them the exit codes. The score, a \<open>double\<close>, is only printed; the
  environment's \<open>score_text\<close> is \<open>atof\<close> followed by \<open>%f\<close>.
\<close>

subsection \<open>Running the works\<close>

definition zero_work :: work where
  "zero_work = \<lparr>exit_code = 0, work_command = [], work_dir = [], stdout_path = [], stderr_path = []\<rparr>"

text \<open>An empty directory is the NULL pointer for the callbacks, printed as such.\<close>

definition shown_dir :: "work list \<Rightarrow> nat \<Rightarrow> string" where
  "shown_dir works i = (if work_dir (works ! i) = [] then ''(null)'' else work_dir (works ! i))"

definition progress_label :: "work list \<Rightarrow> nat \<Rightarrow> string" where
  "progress_label works i = ''['' @ show_nat (i + 1) @ ''/'' @ show_nat (length works) @ ''] ''"

definition grade_homework_on_progression :: "work list \<Rightarrow> nat \<Rightarrow> unit io" where
  "grade_homework_on_progression works i =
     write_output (progress_label works i @ ''Grading '' @ quoted (shown_dir works i))"

definition grade_homework_on_completion :: "work list \<Rightarrow> nat \<Rightarrow> int \<Rightarrow> string \<Rightarrow> unit io" where
  "grade_homework_on_completion works i status stderr_content =
     whenp (status \<noteq> 0)
       (write_output (progress_label works i @ ''Fail '' @ quoted (shown_dir works i) @ newline @ stderr_content))"

definition run_callback :: "work list \<Rightarrow> callback \<Rightarrow> unit io" where
  "run_callback works cb =
     (case cb of
        Progression i \<Rightarrow> grade_homework_on_progression works i
      | Completion i c stderr_content \<Rightarrow> grade_homework_on_completion works i c (cstr stderr_content))"

definition complete_work :: "callback \<Rightarrow> work list \<Rightarrow> work list" where
  "complete_work cb works =
     (case cb of Progression i \<Rightarrow> works | Completion i c _ \<Rightarrow> works[i := (works ! i)\<lparr>exit_code := c\<rparr>])"

definition wait_for_completion :: "int \<Rightarrow> work list \<Rightarrow> work list io" where
  "wait_for_completion thread_count works =
     bd (ask (\<lambda>e h. run_works e h thread_count works)) (\<lambda>cbs.
     sq (emit (Run_works thread_count works))
     (sq (each (run_callback works) cbs)
         (pure (fold complete_work cbs works))))"

subsection \<open>grade-homework\<close>

definition prepare_work ::
  "string \<Rightarrow> string \<times> string \<Rightarrow> string \<Rightarrow> string \<Rightarrow> string \<Rightarrow> string \<times> GitCommitHash \<Rightarrow> work list \<Rightarrow> work list io" where
  "prepare_work command template_dirs username github_token organization homework works =
     (case homework of (repo, hash) \<Rightarrow>
      sq (write_output (''Retrieving homework from '' @ quoted repo))
      (bd (cache_repository MAX_PATH_LEN username github_token organization repo (Some hash)) (\<lambda>(dir, ok).
       if ok
       then sq (replace_tests dir (fst template_dirs) (snd template_dirs))
            (bd (format_string MAX_PATH_LEN command) (\<lambda>command.
             bd (format_string MAX_PATH_LEN dir) (\<lambda>dir.
             bd (ask (\<lambda>e h. log_dir e)) (\<lambda>logs.
             bd (format_string MAX_PATH_LEN (logs @ ''/'' @ repo @ ''_'' @ hash_trim hash @ ''_stdout.log'')) (\<lambda>out.
             bd (format_string MAX_PATH_LEN (logs @ ''/'' @ repo @ ''_'' @ hash_trim hash @ ''_stderr.log'')) (\<lambda>err.
             pure (works @ [\<lparr>exit_code = 0, work_command = command, work_dir = dir, stdout_path = out,
                             stderr_path = err\<rparr>])))))))
       else pure (works @ [zero_work]))))"

text \<open>The score starts at the first digit of the file.\<close>

definition read_score :: "string \<Rightarrow> string io" where
  "read_score path =
     bd (read_file path) (\<lambda>s.
     let at_digit = dropWhile (\<lambda>c. \<not> is_digit c) (cstr s) in
     if at_digit = [] then pure ''0.000000'' else ask (\<lambda>e h. score_text e at_digit))"

text \<open>The report and the score of a work that was graded.\<close>

definition write_report :: "string \<Rightarrow> string \<Rightarrow> string \<Rightarrow> string \<Rightarrow> work \<Rightarrow> string io" where
  "write_report report_dir report_template score_relative_path student_id wk =
     bd (format_string MAX_PATH_LEN (report_dir @ ''/'' @ student_id @ ''.md'')) (\<lambda>report_path.
     bd (format_string MAX_PATH_LEN (work_dir wk @ ''/'' @ score_relative_path)) (\<lambda>score_path.
     sq (delete_file report_path)
     (bd (read_score score_path) (\<lambda>score.
      bd (format_report_by_file_replacement report_template (work_dir wk)) (\<lambda>report.
      bd (open_write report_path) (\<lambda>ok.
      sq (whenp ok (write_file report_path report))
         (pure score)))))))"

text \<open>The counts: submissions, late ones, and failed ones.\<close>

definition grade_row ::
  "string \<Rightarrow> string \<Rightarrow> int \<Rightarrow> string option \<Rightarrow> string list \<Rightarrow> int list \<Rightarrow> work list \<Rightarrow> string \<Rightarrow> string \<Rightarrow> string \<Rightarrow>
   Sheet \<Rightarrow> int \<Rightarrow> int \<Rightarrow> nat \<Rightarrow> nat \<times> nat \<times> nat \<Rightarrow> (nat \<times> nat \<times> nat) io" where
  "grade_row title out_path deadline only_repo repos push_times works report_dir report_template score_relative_path
     sheet student_x id_x y counts =
     (case counts of (submission_count, late_count, failure_count) \<Rightarrow>
      bd (value_at sheet student_x y) (\<lambda>student.
      bd (value_at sheet id_x y) (\<lambda>student_id.
      bd (format_string 256 (title @ ''-'' @ student)) (\<lambda>req_name.
      case find_name repos req_name of
        None \<Rightarrow>
          sq (whenp (only_repo = None) (write_file out_path (''0.000000'' @ newline))) (pure counts)
      | Some i \<Rightarrow>
          bd (if exit_code (works ! i) = 0
              then write_report report_dir report_template score_relative_path student_id (works ! i)
              else pure ''0.000000'') (\<lambda>score.
          sq (write_file out_path (score @ newline))
             (pure (submission_count + 1,
                    if push_times ! i > deadline then late_count + 1 else late_count,
                    if exit_code (works ! i) \<noteq> 0 then failure_count + 1 else failure_count)))))))"

definition publish_reports ::
  "string \<Rightarrow> bool \<Rightarrow> string \<Rightarrow> string \<Rightarrow> string \<Rightarrow> string \<Rightarrow> string \<Rightarrow> string \<Rightarrow> unit io" where
  "publish_reports title dry feedback_dir dry_feedback_dir dry_feedback_report_dir github_token username email =
     (if dry
      then sq (delete_directory dry_feedback_dir)
           (sq (rename_directory dry_feedback_dir feedback_dir)
               (write_output (''DRY RUN: reports are not pushed, you can view the generated reports at '' @
                  quoted dry_feedback_report_dir)))
      else sq (write_output ''Pushing reports...'')
           (bd (format_string 64 (''update '' @ title @ '' report'')) (\<lambda>commit_message.
            bd (push_to_remote feedback_dir github_token commit_message username email) (\<lambda>ok.
            whenp (\<not> ok) (write_error ''Unable to push the reports'')))))"

definition label_missing :: "int \<Rightarrow> string \<Rightarrow> string \<Rightarrow> unit io" where
  "label_missing x label title =
     whenp (x < 0) (write_error (''Label '' @ quoted label @ '' not found in sheet '' @ quoted title))"

definition grade_rows ::
  "string \<Rightarrow> string \<Rightarrow> int \<Rightarrow> bool \<Rightarrow> string option \<Rightarrow> string list \<Rightarrow> int list \<Rightarrow> work list \<Rightarrow> string \<Rightarrow> string \<Rightarrow> string \<Rightarrow>
   unit io \<Rightarrow> Sheet \<Rightarrow> string \<Rightarrow> string \<Rightarrow> string \<Rightarrow> (nat \<times> nat \<times> nat) io" where
  "grade_rows title out_path deadline dry only_repo repos push_times works report_dir report_template score_relative_path
     publish sheet spreadsheet_id student_label id_label =
     (if sheet_width sheet > 0 \<and> sheet_height sheet > 0
      then let student_x = find_label sheet student_label; id_x = find_label sheet id_label in
           if student_x \<ge> 0 \<and> id_x \<ge> 0
           then sq (write_output ''Generating report...'')
                (bd (foldp (grade_row title out_path deadline only_repo repos push_times works report_dir report_template
                       score_relative_path sheet student_x id_x) [0..<nat (sheet_height sheet)] (0, 0, 0)) (\<lambda>counts.
                 sq publish (pure counts)))
           else sq (label_missing student_x student_label title)
                (sq (label_missing id_x id_label title) (pure (0, 0, 0)))
      else sq (write_error (''Sheet '' @ quoted title @ '' is empty in spreadsheet '' @ quoted spreadsheet_id))
              (pure (0, 0, 0)))"

text \<open>The repositories the command needs: the template's two directories and the feedback's.\<close>

definition grading_repositories ::
  "string \<Rightarrow> string \<Rightarrow> string \<Rightarrow> string \<Rightarrow> string \<Rightarrow> string \<Rightarrow> ((string \<times> string) \<times> string) option io" where
  "grading_repositories template_repo template_branch feedback_repo username github_token organization =
     sq (write_output ''Retrieving homework template...'')
     (bd (retrieve_latest_commit github_token organization template_repo (Some template_branch)) (\<lambda>hash.
      bd (cache_repository MAX_PATH_LEN username github_token organization template_repo (Some hash)) (\<lambda>(template_dir, ok).
      if \<not> ok
      then sq (write_error (''Unable to retrieve '' @ quoted (organization @ ''/'' @ template_repo @ ''/'' @ template_branch)))
              (pure None)
      else sq (write_output ''Retrieving feedback repository...'')
           (bd (cache_repository MAX_PATH_LEN username github_token organization feedback_repo None) (\<lambda>(feedback_dir, ok).
            if \<not> ok
            then sq (write_error (''Unable to retrieve '' @ quoted (organization @ ''/'' @ feedback_repo))) (pure None)
            else bd (format_string MAX_PATH_LEN (template_dir @ ''/test'')) (\<lambda>test_dir.
                 bd (format_string MAX_PATH_LEN (template_dir @ ''/docker'')) (\<lambda>docker_dir.
                 pure (Some ((test_dir, docker_dir), feedback_dir)))))))))"

definition grade_submissions ::
  "string \<Rightarrow> string \<Rightarrow> int \<Rightarrow> int \<Rightarrow> string \<Rightarrow> string \<Rightarrow> bool \<Rightarrow> int \<Rightarrow> string option \<Rightarrow> string \<Rightarrow> string \<Rightarrow> string \<Rightarrow> string \<Rightarrow>
   string \<Rightarrow> string \<Rightarrow> string \<Rightarrow> string \<times> string \<Rightarrow> string \<Rightarrow> string \<Rightarrow> unit io \<Rightarrow> string list \<Rightarrow> unit io" where
  "grade_submissions title out_path deadline cutoff command score_relative_path dry thread_count only_repo github_token
     organization google_token spreadsheet_id student_label id_label username template_dirs report_dir report_template
     publish repos =
     sq (write_output ''Retrieving default branches...'')
     (bd (retrieve_default_branches repos github_token organization) (\<lambda>branches.
      sq (assertion (length branches = length repos))
      (sq (write_output ''Retrieving pushes before deadline...'')
      (bd (retrieve_pushes_before_cutoff repos branches github_token organization cutoff) (\<lambda>(hashes, push_times).
       sq (write_output ''Retrieving student repositories...'')
       (bd (foldp (prepare_work command template_dirs username github_token organization) (zip repos hashes) []) (\<lambda>works.
        sq (write_output ''Start grading...'')
        (bd (wait_for_completion thread_count works) (\<lambda>works.
         sq (write_output ''Retrieving sheet...'')
         (bd (retrieve_sheet google_token spreadsheet_id title) (\<lambda>sheet.
          bd (grade_rows title out_path deadline dry only_repo repos push_times works report_dir report_template
                score_relative_path publish sheet spreadsheet_id student_label id_label)
             (\<lambda>(submission_count, late_count, failure_count).
          sq (each write_output
               [[], ''[Summary]'',
                ''    Total students in sheet: '' @ show_int (sheet_height sheet),
                ''    Total repositories: '' @ show_nat (length repos),
                ''    Total submitted students: '' @ show_nat submission_count,
                ''    Late submitted students: '' @ show_nat late_count,
                ''    Failed submitted students: '' @ show_nat failure_count])
             (write_deadlines deadline cutoff)))))))))))))"

definition grade_homework ::
  "string \<Rightarrow> string \<Rightarrow> int \<Rightarrow> int \<Rightarrow> string \<Rightarrow> string \<Rightarrow> string \<Rightarrow> string \<Rightarrow> string \<Rightarrow> bool \<Rightarrow> int \<Rightarrow> string option \<Rightarrow>
   string \<Rightarrow> string \<Rightarrow> string \<Rightarrow> string \<Rightarrow> string \<Rightarrow> string \<Rightarrow> string \<Rightarrow> unit io" where
  "grade_homework title out_path deadline cutoff template_repo template_branch feedback_repo command score_relative_path
     dry thread_count only_repo github_token organization email google_token spreadsheet_id student_label id_label =
     bd (retrieve_username True MAX_URL_LEN github_token) (\<lambda>(username, ok).
     if \<not> ok then write_error ''Unable to retrieve username''
     else bd (grading_repositories template_repo template_branch feedback_repo username github_token organization) (\<lambda>found.
     case found of None \<Rightarrow> skip | Some (template_dirs, feedback_dir) \<Rightarrow>
       bd (ask (\<lambda>e h. cache_dir e)) (\<lambda>cache.
       bd (format_string MAX_PATH_LEN (feedback_dir @ ''/'' @ title)) (\<lambda>feedback_homework_dir.
       bd (format_string MAX_PATH_LEN (feedback_dir @ ''/'' @ title @ ''/reports'')) (\<lambda>feedback_report_dir.
       bd (format_string MAX_PATH_LEN (cache @ ''/'' @ feedback_repo)) (\<lambda>dry_feedback_dir.
       bd (format_string MAX_PATH_LEN (dry_feedback_dir @ ''/'' @ title @ ''/reports'')) (\<lambda>dry_feedback_report_dir.
       bd (format_string MAX_PATH_LEN (feedback_dir @ ''/report_template_'' @ title @ ''.md'')) (\<lambda>report_template_path.
       bd (open_write out_path) (\<lambda>ok.
       if \<not> ok then write_error (''Unable to create '' @ quoted out_path)
       else
        sq (create_directory feedback_homework_dir)
        (sq (create_directory feedback_report_dir)
        (bd (read_file report_template_path) (\<lambda>report_template.
         bd (select_repos ''repos'' title only_repo github_token organization) (\<lambda>selected.
         case selected of None \<Rightarrow> skip | Some repos \<Rightarrow>
           grade_submissions title out_path deadline cutoff command score_relative_path dry thread_count only_repo
             github_token organization google_token spreadsheet_id student_label id_label username template_dirs
             feedback_report_dir report_template
             (publish_reports title dry feedback_dir dry_feedback_dir dry_feedback_report_dir github_token username email)
             repos)))))))))))))"

subsection \<open>announce-grade\<close>

definition dry_separator :: string where
  "dry_separator = replicate 64 CHR ''-''"

text \<open>The result tells if the announcement failed.\<close>

definition announce_one ::
  "bool \<Rightarrow> string \<Rightarrow> string \<Rightarrow> string \<Rightarrow> string \<Rightarrow> string \<Rightarrow> int \<Rightarrow> bool io" where
  "announce_one dry issue_title github_token organization repo body number =
     (if number \<noteq> 0
      then if dry
           then sq (each write_output
                     [''DRY RUN: attempt to edit issue '' @ quoted (issue_title @ '' #'' @ show_int number) @ '' to:'',
                      body, dry_separator])
                   (pure False)
           else bd (edit_issue github_token organization repo issue_title body number) (\<lambda>ok. pure (\<not> ok))
      else if dry
           then sq (each write_output
                     [''DRY RUN: attempt to create issue '' @ quoted (issue_title @ '' #'' @ show_int number) @ '' with content:'',
                      body, dry_separator])
                   (pure False)
           else bd (create_issue github_token organization repo issue_title body) (\<lambda>ok. pure (\<not> ok)))"

definition announce_row ::
  "string \<Rightarrow> bool \<Rightarrow> int \<Rightarrow> string \<Rightarrow> string \<Rightarrow> string \<Rightarrow> string list \<Rightarrow> int list \<Rightarrow> string list \<Rightarrow> Sheet \<Rightarrow> int \<Rightarrow>
   nat \<Rightarrow> nat \<times> nat \<Rightarrow> (nat \<times> nat) io" where
  "announce_row title dry issue_interval issue_title github_token organization repos numbers bodies sheet student_x y counts =
     (case counts of (announcement_count, failure_count) \<Rightarrow>
      bd (value_at sheet student_x y) (\<lambda>student.
      bd (format_string 256 (title @ ''-'' @ student)) (\<lambda>req_repo.
      case find_name repos req_repo of
        None \<Rightarrow> pure counts
      | Some i \<Rightarrow>
          sq (write_output (''Announce grade for '' @ quoted (repos ! i)))
          (bd (announce_one dry issue_title github_token organization (repos ! i) (bodies ! y) (numbers ! i)) (\<lambda>failed.
           sq (sleep issue_interval)
              (pure (announcement_count + 1, if failed then failure_count + 1 else failure_count)))))))"

definition read_reports :: "string \<Rightarrow> Sheet \<Rightarrow> int \<Rightarrow> string list io" where
  "read_reports report_dir sheet id_x =
     foldp (\<lambda>y reports.
       bd (value_at sheet id_x y) (\<lambda>student_id.
       bd (format_string MAX_PATH_LEN (report_dir @ ''/'' @ student_id @ ''.md'')) (\<lambda>report_path.
       bd (read_file report_path) (\<lambda>report.
       pure (reports @ [cstr report])))))
     [0..<nat (sheet_height sheet)] []"

definition announce_rows ::
  "string \<Rightarrow> bool \<Rightarrow> int \<Rightarrow> string \<Rightarrow> string \<Rightarrow> string \<Rightarrow> string \<Rightarrow> string list \<Rightarrow> int list \<Rightarrow> Sheet \<Rightarrow> string \<Rightarrow> string \<Rightarrow>
   string \<Rightarrow> (nat \<times> nat) io" where
  "announce_rows title dry issue_interval issue_title report_dir github_token organization repos numbers sheet spreadsheet_id
     student_label id_label =
     (if sheet_width sheet \<noteq> 0 \<and> sheet_height sheet \<noteq> 0
      then let student_x = find_label sheet student_label; id_x = find_label sheet id_label in
           if student_x \<ge> 0 \<and> id_x \<ge> 0
           then bd (read_reports report_dir sheet id_x) (\<lambda>reports.
                bd (format_feedback_issues reports sheet title) (\<lambda>(bodies, ok).
                if ok
                then foldp (announce_row title dry issue_interval issue_title github_token organization repos numbers bodies
                       sheet student_x) [0..<nat (sheet_height sheet)] (0, 0)
                else sq (write_output ''ABORT: some issue formats are invalid'') (pure (0, 0))))
           else sq (whenp (student_x < 0)
                   (write_error (''Label '' @ quoted student_label @ '' not found in sheet '' @ [CHR 0x27] @ title)))
                (sq (label_missing id_x id_label title) (pure (0, 0)))
      else sq (write_error (''Sheet '' @ quoted title @ '' is empty in spreadsheet '' @ quoted spreadsheet_id))
              (pure (0, 0)))"

definition announce_grade ::
  "string \<Rightarrow> string \<Rightarrow> bool \<Rightarrow> string option \<Rightarrow> int \<Rightarrow> string \<Rightarrow> string \<Rightarrow> string \<Rightarrow> string \<Rightarrow> string \<Rightarrow> string \<Rightarrow> unit io" where
  "announce_grade title feedback_repo dry only_repo issue_interval github_token organization google_token spreadsheet_id
     student_label id_label =
     bd (retrieve_username True MAX_URL_LEN github_token) (\<lambda>(username, ok).
     if \<not> ok then write_error ''Unable to retrieve username''
     else
       sq (write_output ''Retrieving feedback repository...'')
       (bd (cache_repository MAX_PATH_LEN username github_token organization feedback_repo None) (\<lambda>(feedback_dir, ok).
        if \<not> ok then write_error (''Unable to retrieve '' @ quoted (organization @ ''/'' @ feedback_repo))
        else
          bd (format_string 256 (''Grade for '' @ title)) (\<lambda>issue_title.
          bd (format_string MAX_PATH_LEN (feedback_dir @ ''/'' @ title @ ''/reports'')) (\<lambda>report_dir.
          bd (select_repos ''repos'' title only_repo github_token organization) (\<lambda>selected.
          case selected of None \<Rightarrow> skip | Some repos \<Rightarrow>
            sq (write_output (''Retrieving issue '' @ quoted issue_title @ ''...''))
            (bd (retrieve_issue_numbers_by_title repos github_token organization issue_title) (\<lambda>numbers.
             sq (write_output ''Retrieving sheet...'')
             (bd (retrieve_sheet google_token spreadsheet_id title) (\<lambda>sheet.
              bd (announce_rows title dry issue_interval issue_title report_dir github_token organization repos numbers sheet
                    spreadsheet_id student_label id_label) (\<lambda>(announcement_count, failure_count).
              each write_output
               [[], ''[Summary]'',
                ''    Total students in sheet: '' @ show_int (sheet_height sheet),
                ''    Total repositories: '' @ show_nat (length repos),
                ''    Total announced students: '' @ show_nat announcement_count,
                ''    Failed announced students: '' @ show_nat failure_count])))))))))))"

end
