(* ===== verification/RunHand.thy ===== *)
theory RunHand imports Grading begin

text \<open>
  The entry of the program (\<open>run_hand\<close> of \<open>code/hand.c\<close>): the options, the configuration, the
  command with its options and arguments, and the call of the command. Also
  \<open>ensure_config_exists\<close> of \<open>code/hand_config.c\<close> and the messages of \<open>load_config\<close>.
\<close>

subsection \<open>Usage\<close>

definition usage_text :: "string list \<Rightarrow> string" where
  "usage_text ls = concat (map (\<lambda>l. l @ newline) ls)"

definition hand_usage :: string where
  "hand_usage = usage_text
    [''usage: hand [--options] ... command [--command-options] ... [args] ...'',
     ''[options]'',
     ''    --help    show this message'',
     ''    --log     log to log/YYYY-MM-DD_hh-mm-ss.log'',
     ''[command]'',
     ''    config-check       check if the config is valid'',
     ''    invite-students    invite student into github organization'',
     ''    collect-homework   collect homework and retrieve late submission info'',
     ''    bulk-clone         clone students'' @ [CHR 0x27] @ '' repositories for a specific homework'',
     ''    grade-homework     grade homework and generate feedbacks'',
     ''    announce-grade     announce grade in students'' @ [CHR 0x27] @ '' repository issues'',
     ''    clean              delete unrelated files such as logs and caches'',
     ''[common-command-options]'',
     ''    --help             show the help message regards to the command'']"

definition clean_usage :: string where
  "clean_usage = usage_text
    [''usage: hand clean'',
     [],
     ''[arguments]'',
     [],
     ''[command-options]'']"

definition config_check_usage :: string where
  "config_check_usage = usage_text
    [''usage: hand config-check'',
     [],
     ''[arguments]'',
     ''[command-options]'']"

definition invite_students_usage :: string where
  "invite_students_usage = usage_text
    [''usage: hand invite-students [--command-options] ... path'',
     [],
     ''[arguments]'',
     ''    path    path to the file containing GitHub username to invite'',
     ''[command-options]'']"

definition collect_homework_usage :: string where
  "collect_homework_usage = usage_text
    [''usage: hand collect-homework [--command-options] ... title deadline cutoff_days out_path'',
     [],
     ''[arguments]'',
     ''    title                 title of the homework'',
     ''    deadline              deadline of the homework in YYYY-MM-DD-hh-mm-ss'',
     ''    cutoff_days           max late submission days after deadline'',
     ''    out_path              output file that lists penalty for all students (in the same order of'',
     ''                          the spreadsheet)'',
     ''[command-options]'',
     ''    --only-repo <name>    only collect homework for the repository named <name>'']"

definition bulk_clone_usage :: string where
  "bulk_clone_usage = usage_text
    [''usage: hand bulk-clone [--command-options] ... out_dir title deadline cutoff_days [template_repo template_branch]'',
     [],
     ''[arguments]'',
     ''    out_dir            parent directory that the repositories clone into'',
     ''    title              title of the homework'',
     ''    deadline           deadline of the homework in YYYY-MM-DD-hh-mm-ss'',
     ''    cutoff_days        max late submission days after deadline'',
     ''    template_repo      (optional) repository name of the homework template'',
     ''    template_branch    (optional) the branch of template_repo that contains all testcases'',
     ''[command-options]'']"

definition grade_homework_usage :: string where
  "grade_homework_usage = usage_text
    [''usage: hand grade-homework [--command-options] ... title template_repo template_branch deadline cutoff_days out_path'',
     [],
     ''[arguments]'',
     ''    title                 title of the homework'',
     ''    template_repo         repository name of the homework template'',
     ''    template_branch       the branch of template_repo that contains all testcases'',
     ''    deadline              deadline of the homework in YYYY-MM-DD-hh-mm-ss'',
     ''    cutoff_days           max late submission days after deadline'',
     ''    out_path              output file that lists score for all students (in the same order of the spreadsheet)'',
     ''[command-options]'',
     ''    --dry                 perform a trial run without making any remote changes'',
     ''    --only-repo <name>    only grade homework for the repository named <name>'']"

definition announce_grade_usage :: string where
  "announce_grade_usage = usage_text
    [''usage: hand announce-grade [--command-options] ... title'',
     [],
     ''[arguments]'',
     ''    title    title of the homework'',
     ''[command-options]'',
     ''    --dry                        perform a trial run without making any remote changes'',
     ''    --interval <milliseconds>    milliseconds between issue creation to bypass GitHub rate'',
     ''                                 limit (default is 3500)'',
     ''    --only-repo <name>           only announce grade for the repository named <name>'']"

subsection \<open>The configuration\<close>

definition ensure_config_exists :: "string \<Rightarrow> bool io" where
  "ensure_config_exists path =
     bd (ask (\<lambda>e h. fopen_read e h path)) (\<lambda>source.
     if source \<noteq> None then pure True
     else bd (open_write path) (\<lambda>ok. sq (whenp ok (write_file path g_default_config)) (pure False)))"

fun message_text :: "string \<Rightarrow> message \<Rightarrow> string" where
  "message_text path (String_not_terminated s) = ''Config: string not terminated: '' @ quoted (cstr s)"
| "message_text path (Unrecognized_char c) = ''Config: unrecognized char '' @ quoted [c]"
| "message_text path (Unexpected_token s) = ''Unexpected token: '' @ quoted (cstr s)"
| "message_text path (Unrecognized_config s) = ''Unrecognized config '' @ quoted (cstr s)"
| "message_text path Read_failed = ''Read file '' @ quoted path @ '' failed''"
| "message_text path (Incomplete_config s) =
     ''Config: incomplete config, key '' @ quoted s @ '' not found''"

definition load_config_file :: "string \<Rightarrow> (Config \<times> bool) io" where
  "load_config_file path =
     bd (ask (\<lambda>e h. load_config (fopen_read e h path))) (\<lambda>loaded.
     case loaded of
       None \<Rightarrow> spent
     | Some (config, ok, ms) \<Rightarrow> sq (each (\<lambda>m. write_error (message_text path m)) ms) (pure (config, ok)))"

subsection \<open>Options and arguments\<close>

definition args_left :: "ArgParser \<Rightarrow> nat" where
  "args_left parser = length (args parser) - arg_at parser"

lemma next_option_left: "next_option parser = (Some opt, parser') \<Longrightarrow> args_left parser' < args_left parser"
  by (auto simp: next_option_def args_left_def Let_def split: if_splits)

lemma next_arg_left: "next_arg parser = (arg, parser') \<Longrightarrow> args_left parser' \<le> args_left parser"
  by (auto simp: next_arg_def args_left_def split: if_splits)

text \<open>The options before the command; the result tells if the usage is to be shown.\<close>

function main_options :: "string \<Rightarrow> ArgParser \<Rightarrow> bool \<Rightarrow> (bool \<times> ArgParser) io" where
  "main_options log_path parser show_usage =
     (case next_option parser of
        (None, parser') \<Rightarrow> pure (show_usage, parser')
      | (Some opt, parser') \<Rightarrow>
          if compare_string opt ''--help'' then main_options log_path parser' True
          else if compare_string opt ''--log''
          then bd (ask (\<lambda>e h. log_dir e)) (\<lambda>logs.
               sq (create_directory logs)
               (bd (open_write log_path) (\<lambda>_. main_options log_path parser' show_usage)))
          else sq (write_error (''Unknown option '' @ quoted opt)) (main_options log_path parser' True))"
  by pat_completeness auto
termination
  by (relation "measure (\<lambda>(log_path, parser, show_usage). args_left parser)") (auto dest!: next_option_left [OF sym])

declare main_options.simps [simp del]

text \<open>The options of a command. \<open>allowed\<close> are those it has besides \<open>--help\<close>.\<close>

record options =
  show_command_usage :: bool
  dry_run :: bool
  only_repo :: "string option"
  issue_interval :: int

definition no_options :: options where
  "no_options = \<lparr>show_command_usage = False, dry_run = False, only_repo = None, issue_interval = 3500\<rparr>"

function command_options :: "string list \<Rightarrow> ArgParser \<Rightarrow> options \<Rightarrow> (options \<times> ArgParser) io" where
  "command_options allowed parser opts =
     (case next_option parser of
        (None, parser') \<Rightarrow> pure (opts, parser')
      | (Some opt, parser') \<Rightarrow>
          if compare_string opt ''--help''
          then command_options allowed parser' (opts\<lparr>show_command_usage := True\<rparr>)
          else if ''--dry'' \<in> set allowed \<and> compare_string opt ''--dry''
          then command_options allowed parser' (opts\<lparr>dry_run := True\<rparr>)
          else if ''--only-repo'' \<in> set allowed \<and> compare_string opt ''--only-repo''
          then (case next_arg parser' of (arg, parser'') \<Rightarrow>
                command_options allowed parser'' (opts\<lparr>only_repo := arg\<rparr>))
          else if ''--interval'' \<in> set allowed \<and> compare_string opt ''--interval''
          then (case next_arg parser' of (arg, parser'') \<Rightarrow>
                bd (case arg of None \<Rightarrow> crash | Some s \<Rightarrow> defined (atoi s)) (\<lambda>interval.
                command_options allowed parser'' (opts\<lparr>issue_interval := interval\<rparr>)))
          else sq (write_error (''Unrecognized option: '' @ opt))
                  (command_options allowed parser' (opts\<lparr>show_command_usage := True\<rparr>)))"
  by pat_completeness auto
termination
  by (relation "measure (\<lambda>(allowed, parser, opts). args_left parser)")
    (auto dest!: next_option_left [OF sym] next_arg_left [OF sym])

declare command_options.simps [simp del]

fun next_args :: "nat \<Rightarrow> ArgParser \<Rightarrow> string option list \<times> ArgParser" where
  "next_args 0 parser = ([], parser)"
| "next_args (Suc n) parser =
     (let (arg, parser') = next_arg parser; (rest, parser'') = next_args n parser' in (arg # rest, parser''))"

text \<open>The options and the \<open>n\<close> arguments of a command; one more argument is an error.\<close>

definition command_line :: "string list \<Rightarrow> nat \<Rightarrow> ArgParser \<Rightarrow> (options \<times> string option list) io" where
  "command_line allowed n parser =
     bd (command_options allowed parser no_options) (\<lambda>(opts, parser).
     let (xs, parser) = next_args n parser in
     if fst (next_arg parser) \<noteq> None
     then sq (write_error ''Too many arguments'') (pure (opts\<lparr>show_command_usage := True\<rparr>, xs))
     else pure (opts, xs))"

subsection \<open>Commands\<close>

definition TIME_ZONE_UTC8 :: int where "TIME_ZONE_UTC8 = 8"

text \<open>The deadline and the cutoff, or a message that the deadline has the wrong format.\<close>

definition with_deadline :: "Config \<Rightarrow> string \<Rightarrow> string \<Rightarrow> (int \<Rightarrow> int \<Rightarrow> bool \<Rightarrow> unit io) \<Rightarrow> unit io" where
  "with_deadline config in_deadline cutoff_days command =
     (let deadline = parse_time linux_calender_time_to_time in_deadline TIME_ZONE_UTC8 in
      bd (defined (atoi cutoff_days)) (\<lambda>days.
      bd (defined (atoi (conf config Config_weekends_as_one_day))) (\<lambda>weekends.
      bd (defined (calculate_cutoff deadline days (weekends \<noteq> 0))) (\<lambda>cutoff.
      if deadline = 0
      then write_error (''Invalid time format: '' @ in_deadline @ '', requires YYYY-MM-DD-hh-mm-ss'')
      else command deadline cutoff (weekends \<noteq> 0)))))"

definition run_clean :: "ArgParser \<Rightarrow> unit io" where
  "run_clean parser =
     bd (command_line [] 0 parser) (\<lambda>(opts, xs).
     if show_command_usage opts then write_output clean_usage else delete_cache_and_log)"

definition run_config_check :: "Config \<Rightarrow> ArgParser \<Rightarrow> unit io" where
  "run_config_check config parser =
     bd (command_line [] 0 parser) (\<lambda>(opts, xs).
     if show_command_usage opts then write_output config_check_usage else config_check config)"

definition run_invite_students :: "Config \<Rightarrow> ArgParser \<Rightarrow> unit io" where
  "run_invite_students config parser =
     bd (command_line [] 1 parser) (\<lambda>(opts, xs).
     case xs of
       [Some input_path] \<Rightarrow>
         if show_command_usage opts then write_output invite_students_usage
         else invite_students input_path (conf config Config_github_token) (conf config Config_organization)
                (conf config Config_student_team)
     | _ \<Rightarrow> write_output invite_students_usage)"

definition run_collect_homework :: "Config \<Rightarrow> ArgParser \<Rightarrow> unit io" where
  "run_collect_homework config parser =
     bd (command_line [''--only-repo''] 4 parser) (\<lambda>(opts, xs).
     case xs of
       [Some title, Some in_deadline, Some cutoff_days, Some out_path] \<Rightarrow>
         if show_command_usage opts then write_output collect_homework_usage
         else bd (defined (atoi (conf config Config_penalty_per_day))) (\<lambda>penalty_per_day.
              with_deadline config in_deadline cutoff_days (\<lambda>deadline cutoff weekends.
                collect_homework title out_path deadline cutoff penalty_per_day weekends (only_repo opts)
                  (conf config Config_github_token) (conf config Config_organization) (conf config Config_google_token)
                  (conf config Config_spreadsheet) (conf config Config_username_label)))
     | _ \<Rightarrow> write_output collect_homework_usage)"

text \<open>A final separator of the directory is dropped.\<close>

definition trim_separator :: "string \<Rightarrow> string" where
  "trim_separator dir =
     (if dir \<noteq> [] \<and> (last dir = CHR ''/'' \<or> last dir = CHR 0x5C) then butlast dir else dir)"

definition run_bulk_clone :: "Config \<Rightarrow> ArgParser \<Rightarrow> unit io" where
  "run_bulk_clone config parser =
     bd (command_line [] 6 parser) (\<lambda>(opts, xs).
     case xs of
       [Some out_dir, Some title, Some in_deadline, Some cutoff_days, template_repo, template_branch] \<Rightarrow>
         if (template_repo = None) \<noteq> (template_branch = None) \<or> show_command_usage opts
         then write_output bulk_clone_usage
         else with_deadline config in_deadline cutoff_days (\<lambda>deadline cutoff weekends.
                bulk_clone (trim_separator (cstr out_dir)) title deadline cutoff template_repo template_branch
                  (conf config Config_github_token) (conf config Config_organization))
     | _ \<Rightarrow> write_output bulk_clone_usage)"

definition run_grade_homework :: "Config \<Rightarrow> ArgParser \<Rightarrow> unit io" where
  "run_grade_homework config parser =
     bd (command_line [''--dry'', ''--only-repo''] 6 parser) (\<lambda>(opts, xs).
     case xs of
       [Some title, Some template_repo, Some template_branch, Some in_deadline, Some cutoff_days, Some out_path] \<Rightarrow>
         if show_command_usage opts then write_output grade_homework_usage
         else bd (defined (atoi (conf config Config_grade_thread_count))) (\<lambda>thread_count.
              with_deadline config in_deadline cutoff_days (\<lambda>deadline cutoff weekends.
                grade_homework title out_path deadline cutoff template_repo template_branch
                  (conf config Config_feedback_repo) (conf config Config_grade_command)
                  (conf config Config_score_relative_path) (dry_run opts) thread_count (only_repo opts)
                  (conf config Config_github_token) (conf config Config_organization) (conf config Config_email)
                  (conf config Config_google_token) (conf config Config_spreadsheet)
                  (conf config Config_username_label) (conf config Config_student_id_label)))
     | _ \<Rightarrow> write_output grade_homework_usage)"

definition run_announce_grade :: "Config \<Rightarrow> ArgParser \<Rightarrow> unit io" where
  "run_announce_grade config parser =
     bd (command_line [''--dry'', ''--only-repo'', ''--interval''] 1 parser) (\<lambda>(opts, xs).
     case xs of
       [Some title] \<Rightarrow>
         if show_command_usage opts then write_output announce_grade_usage
         else announce_grade title (conf config Config_feedback_repo) (dry_run opts) (only_repo opts)
                (issue_interval opts) (conf config Config_github_token) (conf config Config_organization)
                (conf config Config_google_token) (conf config Config_spreadsheet)
                (conf config Config_username_label) (conf config Config_student_id_label)
     | _ \<Rightarrow> write_output announce_grade_usage)"

definition run_command :: "Config \<Rightarrow> string \<Rightarrow> ArgParser \<Rightarrow> unit io" where
  "run_command config command parser =
     (if compare_string command ''clean'' then run_clean parser
      else if compare_string command ''config-check'' then run_config_check config parser
      else if compare_string command ''invite-students'' then run_invite_students config parser
      else if compare_string command ''collect-homework'' then run_collect_homework config parser
      else if compare_string command ''bulk-clone'' then run_bulk_clone config parser
      else if compare_string command ''grade-homework'' then run_grade_homework config parser
      else if compare_string command ''announce-grade'' then run_announce_grade config parser
      else write_error (''Unrecognized command: '' @ command))"

definition log_time :: "tm \<Rightarrow> string" where
  "log_time t =
     show_int (tm_year t + 1900) @ ''-'' @ show_int0 2 (tm_mon t + 1) @ ''-'' @ show_int0 2 (tm_mday t) @ ''_'' @
     show_int0 2 (tm_hour t) @ ''-'' @ show_int0 2 (tm_min t) @ ''-'' @ show_int0 2 (tm_sec t)"

definition run_hand :: "string list \<Rightarrow> unit io" where
  "run_hand xs =
     bd (ask (\<lambda>e h. (root_dir e, log_dir e, calendar_time (now e h)))) (\<lambda>(root, logs, time).
     bd (format_string MAX_PATH_LEN (root @ ''/config.txt'')) (\<lambda>config_path.
     bd (format_string MAX_PATH_LEN (logs @ ''/'' @ log_time time @ ''.log'')) (\<lambda>log_path.
     bd (main_options log_path (init_arg_parser xs) False) (\<lambda>(show_usage, parser).
     let (command, parser) = next_arg parser in
     bd (if command = None then pure True else ensure_config_exists config_path) (\<lambda>config_exists.
     sq (whenp (\<not> config_exists)
           (each write_output [''Config not found, default config created at '' @ quoted config_path, []]))
     (case command of
        None \<Rightarrow> write_output hand_usage
      | Some command \<Rightarrow>
          if show_usage \<or> \<not> config_exists then write_output hand_usage
          else bd (load_config_file config_path) (\<lambda>(config, ok).
               if \<not> ok then write_error (''Unable to load config '' @ quoted config_path)
               else run_command config command parser)))))))"

end
