(* ===== verification/RemoteSafety.thy ===== *)
theory RemoteSafety imports RunHand begin

text \<open>
  What the commands can change on GitHub: all but \<open>invite-students\<close>, and \<open>grade-homework\<close> and
  \<open>announce-grade\<close> without \<open>--dry\<close>, only read. And what happens before a command runs: without a
  complete configuration nothing is sent.
\<close>

subsection \<open>Commands that only read\<close>

lemma emits_write_deadlines [emits_intros]: "(\<And>s. P (Output s)) \<Longrightarrow> emits P (write_deadlines deadline cutoff)"
  unfolding write_deadlines_def by (intro emits_intros)

lemma emits_value_at [emits_intros]: "emits P (value_at sheet x y)"
  unfolding value_at_def by (intro emits_intros)

lemma emits_select_repos [emits_intros]: "emits keeps_remote (select_repos what title only t organization)"
  unfolding select_repos_def by (intro emits_intros; simp)

lemma emits_clean [emits_intros]: "emits keeps_remote delete_cache_and_log"
  unfolding delete_cache_and_log_def by (intro emits_intros; simp)

lemma emits_checks [emits_intros]:
  "emits keeps_remote (check_github config oks)"
  "emits keeps_remote (check_google config oks)"
  "emits keeps_remote (check_numbers config oks)"
  unfolding check_github_def check_google_def check_numbers_def Let_def
  by (intro emits_intros; simp)+

lemma emits_config_reports [emits_intros]:
  "emits keeps_remote (report_github config username oks)"
  "emits keeps_remote (report_sheets config titles oks)"
  "emits keeps_remote (report_misc config oks)"
  "emits keeps_remote (report_summary oks)"
proof -
  have line: "emits keeps_remote (write_output s)" for s by (intro emits_intros) simp
  show "emits keeps_remote (report_github config username oks)"
    unfolding report_github_def check_line_def
    by (intro emits_each) (auto intro: line split: if_splits)
  show "emits keeps_remote (report_sheets config titles oks)"
    unfolding report_sheets_def check_line_def check_sheet_def Let_def
    by (intro emits_intros; simp)
  show "emits keeps_remote (report_misc config oks)" "emits keeps_remote (report_summary oks)"
    unfolding report_misc_def report_summary_def by (intro emits_each line)+
qed

lemma emits_config_check [emits_intros]: "emits keeps_remote (config_check config)"
  unfolding config_check_def by (intro emits_intros)

lemma emits_late_submission [emits_intros]:
  "emits keeps_remote (late_submission deadline weekends repos hashes push_times index late_count)"
  unfolding late_submission_def by (intro emits_intros; simp)

lemma emits_collect_rows [emits_intros]:
  "emits keeps_remote (collect_rows title out_path deadline penalty weekends only repos hashes push_times
     sheet spreadsheet_id label)"
  unfolding collect_rows_def collect_row_def Let_def by (intro emits_intros; simp)

lemma emits_collect_homework [emits_intros]:
  "emits keeps_remote (collect_homework title out_path deadline cutoff penalty weekends only t organization gt
     spreadsheet_id label)"
  unfolding collect_homework_def by (intro emits_intros; simp)

lemma emits_replace_tests [emits_intros]: "emits keeps_remote (replace_tests dir a b)"
  unfolding replace_tests_def by (intro emits_intros; simp)

lemma emits_bulk_clone [emits_intros]:
  "emits keeps_remote (bulk_clone dir title deadline cutoff repo branch t organization)"
  unfolding bulk_clone_def bulk_template_def clone_homework_def by (intro emits_intros; simp)

lemma emits_wait [emits_intros]: "emits keeps_remote (wait_for_completion n works)"
  unfolding wait_for_completion_def run_callback_def grade_homework_on_progression_def
    grade_homework_on_completion_def
  by (intro emits_intros; simp split: callback.split; intro conjI allI impI; intro emits_intros; simp)

lemma emits_prepare_work [emits_intros]: "emits keeps_remote (prepare_work command dirs username t organization hw works)"
  unfolding prepare_work_def by (intro emits_intros; simp)

lemma emits_write_report [emits_intros]: "emits keeps_remote (write_report dir template path student_id wk)"
  unfolding write_report_def read_score_def Let_def by (intro emits_intros; simp)

lemma emits_label_missing [emits_intros]: "emits keeps_remote (label_missing x label title)"
  unfolding label_missing_def by (intro emits_intros; simp)

lemma emits_grade_rows [emits_intros]:
  assumes "emits keeps_remote publish"
  shows "emits keeps_remote (grade_rows title out_path deadline dry only repos push_times works report_dir template path
     publish sheet spreadsheet_id student_label id_label)"
  unfolding grade_rows_def grade_row_def Let_def by (intro emits_intros assms; simp)

lemma emits_publish_dry [emits_intros]:
  "emits keeps_remote (publish_reports title True feedback_dir dry_dir report_dir t username email)"
  unfolding publish_reports_def by (simp only: if_True) (intro emits_intros; simp)

lemma emits_grading_repositories [emits_intros]:
  "emits keeps_remote (grading_repositories repo branch feedback username t organization)"
  unfolding grading_repositories_def by (intro emits_intros; simp)

lemma emits_grade_submissions [emits_intros]:
  assumes "emits keeps_remote publish"
  shows "emits keeps_remote (grade_submissions title out_path deadline cutoff command path dry threads only t organization gt
     spreadsheet_id student_label id_label username dirs report_dir template publish repos)"
  unfolding grade_submissions_def by (intro emits_intros assms; simp)

lemma emits_grade_dry [emits_intros]:
  "emits keeps_remote (grade_homework title out_path deadline cutoff repo branch feedback command path True threads only
     t organization email gt spreadsheet_id student_label id_label)"
  unfolding grade_homework_def by (intro emits_intros; simp)

lemma emits_announce_dry [emits_intros]:
  "emits keeps_remote (announce_grade title feedback True only interval t organization gt spreadsheet_id
     student_label id_label)"
proof -
  have one: "emits keeps_remote (announce_one True issue_title t organization repo body number)"
    for issue_title repo body number
    unfolding announce_one_def by (simp only: if_True) (intro emits_intros; simp)
  have "emits keeps_remote (announce_rows title True interval issue_title report_dir t organization repos numbers sheet
     spreadsheet_id student_label id_label)" for issue_title report_dir repos numbers sheet
    unfolding announce_rows_def announce_row_def read_reports_def Let_def by (intro emits_intros one; simp)
  then show ?thesis
    unfolding announce_grade_def by (intro emits_intros; simp)
qed

subsection \<open>The command line\<close>

lemma emits_main_options [emits_intros]: "emits keeps_remote (main_options log_path parser show_usage)"
proof (induction "args_left parser" arbitrary: parser show_usage rule: less_induct)
  case less
  show ?case
    by (subst main_options.simps) (intro emits_intros less; auto dest!: next_option_left)
qed

lemma emits_command_options [emits_intros]: "emits keeps_remote (command_options allowed parser opts)"
proof (induction "args_left parser" arbitrary: parser opts rule: less_induct)
  case less
  show ?case
    by (subst command_options.simps) (intro emits_intros less; auto dest!: next_option_left next_arg_left)
qed

lemma emits_command_line [emits_intros]: "emits keeps_remote (command_line allowed n parser)"
  unfolding command_line_def Let_def by (intro emits_intros; simp)

lemma emits_ensure_config [emits_intros]: "emits keeps_remote (ensure_config_exists path)"
  unfolding ensure_config_exists_def by (intro emits_intros; simp)

lemma emits_load_config_file [emits_intros]: "emits keeps_remote (load_config_file path)"
  unfolding load_config_file_def by (intro emits_intros; simp)

lemma emits_with_deadline [emits_intros]:
  "(\<And>d c w. emits keeps_remote (command d c w)) \<Longrightarrow> emits keeps_remote (with_deadline config s days command)"
  unfolding with_deadline_def Let_def by (intro emits_intros; simp)

lemma returns_main_options:
  "returns (main_options log_path parser show_usage) (\<lambda>(_, parser'). args parser' = args parser)"
proof (induction "args_left parser" arbitrary: parser show_usage rule: less_induct)
  case less
  have step: "returns (main_options log_path parser' b) (\<lambda>(_, p). args p = args parser)"
    if "next_option parser = (Some opt, parser')" for opt parser' b
    using less [OF next_option_left [OF that], of b] that
    by (auto simp: next_option_def Let_def split: if_splits)
  show ?case
    by (subst main_options.simps)
      (intro returns_intros; auto intro: step returns_intros simp: next_option_def Let_def split: if_splits)
qed

lemma returns_dry: "dry_run opts \<Longrightarrow> returns (command_options allowed parser opts) (\<lambda>(opts', _). dry_run opts')"
proof (induction "args_left parser" arbitrary: parser opts rule: less_induct)
  case less
  show ?case
    by (subst command_options.simps)
      (intro returns_intros less; auto simp: less.prems dest!: next_option_left next_arg_left)
qed

lemma returns_command_line_dry:
  assumes "next_option parser = (Some ''--dry'', parser')" and "''--dry'' \<in> set allowed"
  shows "returns (command_line allowed n parser) (\<lambda>(opts, _). dry_run opts)"
proof -
  have dry: "compare_string ''--dry'' ''--dry''" "\<not> compare_string ''--dry'' ''--help''"
    by code_simp+
  have "command_options allowed parser no_options = command_options allowed parser' (no_options\<lparr>dry_run := True\<rparr>)"
    by (subst command_options.simps) (simp add: assms dry)
  then have "returns (command_options allowed parser no_options) (\<lambda>(opts, _). dry_run opts)"
    by (simp only:) (rule returns_dry, simp)
  then show ?thesis
    unfolding command_line_def Let_def
    by (rule returns_bd) (auto intro!: returns_intros)
qed

lemma main_options_command:
  "c \<noteq> [] \<Longrightarrow> hd c \<noteq> CHR ''-'' \<Longrightarrow> c \<noteq> [NUL] \<Longrightarrow>
    main_options log_path (init_arg_parser (c # xs)) False = pure (False, init_arg_parser (c # xs))"
  by (subst main_options.simps) (cases c; simp add: next_option_def init_arg_parser_def Let_def)

lemma emits_run_hand:
  assumes "\<And>config command parser. args parser = xs \<Longrightarrow> command \<in> set xs \<Longrightarrow>
    emits keeps_remote (run_command config command parser)"
  shows "emits keeps_remote (run_hand xs)"
  unfolding run_hand_def Let_def
  by (intro emits_intros emits_bd_returns [OF emits_main_options returns_main_options];
      auto intro!: emits_intros assms simp: next_arg_def init_arg_parser_def split: if_splits)

lemma emits_reading_commands [emits_intros]:
  "emits keeps_remote (run_clean parser)"
  "emits keeps_remote (run_config_check config parser)"
  "emits keeps_remote (run_collect_homework config parser)"
  "emits keeps_remote (run_bulk_clone config parser)"
  unfolding run_clean_def run_config_check_def run_collect_homework_def run_bulk_clone_def
  by (intro emits_intros; simp)+

lemma emits_dry_commands:
  assumes "next_option parser = (Some ''--dry'', parser')"
  shows "emits keeps_remote (run_grade_homework config parser)"
    and "emits keeps_remote (run_announce_grade config parser)"
proof -
  have dry: "returns (command_line [''--dry'', ''--only-repo''] 6 parser) (\<lambda>(opts, _). dry_run opts)"
    "returns (command_line [''--dry'', ''--only-repo'', ''--interval''] 1 parser) (\<lambda>(opts, _). dry_run opts)"
    by (rule returns_command_line_dry [OF assms], simp)+
  show "emits keeps_remote (run_grade_homework config parser)"
    unfolding run_grade_homework_def
    by (intro emits_bd_returns [OF emits_command_line dry(1)]; clarsimp; intro emits_intros; simp add: emits_grade_dry)
  show "emits keeps_remote (run_announce_grade config parser)"
    unfolding run_announce_grade_def
    by (intro emits_bd_returns [OF emits_command_line dry(2)]; clarsimp; intro emits_intros; simp add: emits_announce_dry)
qed

subsection \<open>Before the command\<close>

text \<open>What is done to set the program up: messages, the log and the default configuration.\<close>

definition sets_up :: "event \<Rightarrow> bool" where
  "sets_up ev \<longleftrightarrow>
     (case ev of Output _ \<Rightarrow> True | ErrorMsg _ \<Rightarrow> True | Create_directory _ \<Rightarrow> True | Open_write _ \<Rightarrow> True
       | Write_file _ _ \<Rightarrow> True | _ \<Rightarrow> False)"

lemma sets_up_simps [simp]:
  "sets_up (Output s)" "sets_up (ErrorMsg s)" "sets_up (Create_directory s)" "sets_up (Open_write s)"
  "sets_up (Write_file s t)"
  by (simp_all add: sets_up_def)

definition config_complete :: "env \<Rightarrow> history \<Rightarrow> bool" where
  "config_complete e h \<longleftrightarrow>
     (case load_config (fopen_read e h (root_dir e @ ''/config.txt'')) of Some (_, ok, _) \<Rightarrow> ok | None \<Rightarrow> False)"

lemma sets_up_main_options: "emits sets_up (main_options log_path parser show_usage)"
proof (induction "args_left parser" arbitrary: parser show_usage rule: less_induct)
  case less
  show ?case
    by (subst main_options.simps) (intro emits_intros less; auto dest!: next_option_left)
qed

lemma sets_up_config:
  "emits sets_up (ensure_config_exists path)"
  "emits sets_up (load_config_file path)"
  unfolding ensure_config_exists_def load_config_file_def by (intro emits_intros; simp)+

lemma load_config_file_ok:
  "load_config_file (root_dir e @ ''/config.txt'') e h = (Done (config, True), h') \<Longrightarrow> config_complete e h"
  by (auto simp: load_config_file_def config_complete_def bd_eq_Done sq_def split: option.splits)

subsection \<open>Properties\<close>

text \<open>C14: whatever the network, the file system and libgit2 answer, and however the run ends, a command
  line that does not name \<open>invite-students\<close>, \<open>grade-homework\<close> or \<open>announce-grade\<close> changes nothing on
  GitHub or Google: every request it sends is a GET request and it never pushes.\<close>

theorem reading_commands_keep_remote:
  assumes "\<forall>x \<in> set xs. cstr x \<notin> {''invite-students'', ''grade-homework'', ''announce-grade''}"
  shows "emits keeps_remote (run_hand xs)"
  by (rule emits_run_hand, unfold run_command_def, intro emits_intros)
    (use assms in \<open>auto simp: compare_string_eq\<close>)

theorem reading_commands_keep_remote_witness:
  "emits keeps_remote (run_hand [''--log'', ''collect-homework'', ''hw1'', ''2024-03-01'', ''3'', ''penalty.txt''])"
  by (rule reading_commands_keep_remote) simp

text \<open>C15: \<open>grade-homework --dry\<close> and \<open>announce-grade --dry\<close> change nothing on GitHub or Google, with any
  further options and arguments: no issue is created or edited and no report is pushed.\<close>

theorem dry_run_keeps_remote:
  "emits keeps_remote (run_hand (''grade-homework'' # ''--dry'' # xs))
   \<and> emits keeps_remote (run_hand (''announce-grade'' # ''--dry'' # xs))"
proof -
  have "emits keeps_remote (run_hand (c # ''--dry'' # xs))"
    if c: "c = ''grade-homework'' \<or> c = ''announce-grade''" for c
  proof -
    let ?parser = "(init_arg_parser (c # ''--dry'' # xs))\<lparr>arg_at := 1\<rparr>"
    have main: "main_options log_path (init_arg_parser (c # ''--dry'' # xs)) False =
        pure (False, init_arg_parser (c # ''--dry'' # xs))" for log_path
      using c by (intro main_options_command) auto
    have arg: "next_arg (init_arg_parser (c # ''--dry'' # xs)) = (Some c, ?parser)"
      by (simp add: next_arg_def init_arg_parser_def)
    have opt: "next_option ?parser = (Some ''--dry'', ?parser\<lparr>arg_at := 2\<rparr>)"
      by (simp add: next_option_def init_arg_parser_def Let_def numeral_2_eq_2)
    have "emits keeps_remote (run_command config c ?parser)" for config
      using c emits_dry_commands [OF opt] unfolding run_command_def
      by (auto simp: compare_string_eq intro: emits_intros)
    then show ?thesis
      unfolding run_hand_def main by (simp add: arg Let_def) (intro emits_intros; simp)
  qed
  then show ?thesis by simp
qed

text \<open>C18: without a complete configuration the program talks to nobody: it neither sends a request nor
  calls libgit2, deletes or moves nothing and runs no work. It writes messages, the log and the
  default configuration.\<close>

theorem no_config_no_command:
  assumes "\<And>h. \<not> config_complete e h"
  shows "\<exists>t. snd (run_hand xs e h) = h @ t \<and> (\<forall>ev \<in> set t. sets_up ev)"
proof -
  have no: "load_config_file (root_dir e @ ''/config.txt'') e h \<noteq> (Done (config, True), h')" for config h h'
    using assms load_config_file_ok by blast
  have load: "emits_in e sets_up (bd (load_config_file (root_dir e @ ''/config.txt'')) (\<lambda>(config, ok).
      if \<not> ok then write_error message else run_command config command parser))" for message command parser
    by (intro emits_in_bd [OF sets_up_config(2)]) (auto simp: no intro!: emits_emits_in emits_intros)
  have rest: "emits_in e sets_up (sq (whenp b (each write_output ss))
      (case command of None \<Rightarrow> write_output hand_usage
       | Some command \<Rightarrow> if c then write_output hand_usage
           else bd (load_config_file (root_dir e @ ''/config.txt'')) (\<lambda>(config, ok).
             if \<not> ok then write_error message else run_command config command parser)))"
    for b ss command c message parser
    by (intro emits_in_sq) (auto intro!: emits_intros load emits_emits_in split: option.split)
  have "emits_in e sets_up (run_hand xs)"
    unfolding run_hand_def Let_def
    apply (rule emits_in_bd, rule emits_ask, unfold ask_apply, clarify)
    apply (rule emits_in_bd, rule emits_format_string, simp)
    apply (drule returnsD [OF returns_format_string], clarify)
    apply (rule emits_in_bd, rule emits_format_string, simp)
    apply (rule emits_in_bd, rule sets_up_main_options)
    apply (intro emits_in_prod)
    apply (rule emits_in_bd, intro emits_intros sets_up_config(1))
    apply (rule rest)
    done
  then show ?thesis by (auto simp: emits_in_def)
qed

theorem no_config_no_command_witness:
  "\<exists>t. snd (run_hand [''clean''] (sample_env id (\<lambda>_. None)) []) = [] @ t \<and> (\<forall>ev \<in> set t. sets_up ev)"
proof (rule no_config_no_command)
  have "incomplete (replicate Config_one_past_last None) \<noteq> []" by code_simp
  then show "\<not> config_complete (sample_env id (\<lambda>_. None)) h" for h
    by (simp add: config_complete_def sample_env_def load_config_def Let_def)
qed

end
