(* ===== verification/JsonSpec.thy ===== *)
theory JsonSpec imports JsonParser begin

text \<open>
  What the parser of cJSON does with any text: it ends, reads nothing outside the text, and what it
  returns is well typed (first part); it returns the value of every JSON text (second part).

  The locale \<open>value_parser\<close> is what the loops over elements and members need of the parser of one
  value; it is interpreted on \<open>parse_value\<close>.
\<close>

subsection \<open>Values a parser may return\<close>

fun well_typed :: "cJSON \<Rightarrow> bool" where
  "well_typed (CJSON t children s n name) \<longleftrightarrow>
     (children = [] \<or> t = cJSON_Array \<or> t = cJSON_Object) \<and>
     (s = [] \<or> t = cJSON_String) \<and> NUL \<notin> set s \<and>
     (n = 0 \<or> t = cJSON_Number \<or> t = cJSON_True) \<and> - (2 ^ 31) \<le> n \<and> n < 2 ^ 31 \<and>
     (\<forall>j \<in> set children. well_typed j \<and> (t = cJSON_Object \<longleftrightarrow> json_name j \<noteq> None))"

text \<open>How deep arrays and objects are nested in a value, it included.\<close>

fun nesting :: "cJSON \<Rightarrow> nat" where
  "nesting (CJSON t children s n name) =
     (if t = cJSON_Array \<or> t = cJSON_Object then Suc (fold max (map nesting children) 0) else 0)"

lemma fold_max_le: "fold max xs (k :: nat) \<le> m \<longleftrightarrow> k \<le> m \<and> (\<forall>x \<in> set xs. x \<le> m)"
  by (induction xs arbitrary: k) auto

lemma well_typed_named [simp]: "well_typed (named n j) = well_typed j" "nesting (named n j) = nesting j"
  "json_name (named n j) = Some n"
  by (cases j; simp add: named_def)+

subsection \<open>The bounds of the buffer\<close>

definition in_buffer :: "parse_buffer \<Rightarrow> bool" where
  "in_buffer b \<longleftrightarrow> buf_content b \<noteq> [] \<and> last (buf_content b) = NUL \<and> buf_offset b < length (buf_content b)"

text \<open>\<open>b'\<close> is further in the same text.\<close>

definition grown :: "nat \<Rightarrow> parse_buffer \<Rightarrow> parse_buffer \<Rightarrow> bool" where
  "grown k b b' \<longleftrightarrow> in_buffer b' \<and> buf_content b' = buf_content b \<and> buf_depth b' = buf_depth b \<and>
     buf_offset b + k \<le> buf_offset b'"

definition sound :: "('a \<Rightarrow> bool) \<Rightarrow> parse_buffer \<Rightarrow> ('a \<times> parse_buffer) parsed \<Rightarrow> bool" where
  "sound P b r \<longleftrightarrow> r = Failed \<or> (\<exists>x b'. r = Parsed (x, b') \<and> grown 1 b b' \<and> P x)"

lemma advance_simps [simp]:
  "buf_content (advance n b) = buf_content b" "buf_depth (advance n b) = buf_depth b"
  "buf_offset (advance n b) = buf_offset b + n" "advance 0 b = b" "advance n (advance m b) = advance (m + n) b"
  by (simp_all add: advance_def)

lemma step_back_simps [simp]:
  "buf_content (step_back b) = buf_content b" "buf_depth (step_back b) = buf_depth b"
  "buf_offset (step_back b) = buf_offset b - 1"
  by (simp_all add: step_back_def)

lemma grown_trans: "grown k b b' \<Longrightarrow> grown m b' b'' \<Longrightarrow> grown (k + m) b b''"
  by (auto simp: grown_def)

lemma grown_mono: "grown k b b' \<Longrightarrow> m \<le> k \<Longrightarrow> grown m b b'"
  by (auto simp: grown_def)

lemma soundI: "grown (Suc 0) b b' \<Longrightarrow> P x \<Longrightarrow> sound P b (Parsed (x, b'))"
  by (auto simp: sound_def)

lemma sound_Failed [simp]: "sound P b Failed"
  by (simp add: sound_def)

lemma sound_and_then:
  assumes "sound P b r" and "\<And>x b'. grown 1 b b' \<Longrightarrow> P x \<Longrightarrow> sound Q b (f (x, b'))"
  shows "sound Q b (and_then r f)"
proof (cases r)
  case (Parsed xb)
  then show ?thesis using assms by (cases xb) (auto simp: sound_def [of P])
qed (use assms(1) in \<open>auto simp: sound_def\<close>)

lemma sound_grown: "sound P b' r \<Longrightarrow> grown k b b' \<Longrightarrow> sound P b r"
  by (auto simp: sound_def grown_def)

lemma sound_mono: "sound P b r \<Longrightarrow> (\<And>x. P x \<Longrightarrow> Q x) \<Longrightarrow> sound Q b r"
  by (auto simp: sound_def)

lemma skip_loop_grown:
  "buf_content (skip_loop b) = buf_content b \<and> buf_depth (skip_loop b) = buf_depth b \<and> buf_offset b \<le> buf_offset (skip_loop b) \<and>
   (buf_offset b \<le> length (buf_content b) \<longrightarrow> buf_offset (skip_loop b) \<le> length (buf_content b))"
proof (induction b rule: skip_loop.induct)
  case (1 b)
  show ?case
    using "1.IH" by (subst (1 2 3 4) skip_loop.simps) (auto simp: can_access_at_index_def)
qed

lemma skip_grown: "in_buffer b \<Longrightarrow> grown 0 b (buffer_skip_whitespace b)"
  using skip_loop_grown [of b]
  by (auto simp: buffer_skip_whitespace_def grown_def in_buffer_def Let_def can_access_at_index_def)

lemma nth_not_last: "i < length s \<Longrightarrow> s ! i \<noteq> last s \<Longrightarrow> Suc i < length s"
  by (cases s rule: rev_cases) (auto simp: nth_append split: if_splits)

lemma looks_at_grown: "looks_at b c \<Longrightarrow> c \<noteq> NUL \<Longrightarrow> in_buffer b \<Longrightarrow> grown 1 b (advance 1 b)"
  using nth_not_last [of "buf_offset b" "buf_content b"]
  by (auto simp: looks_at_def grown_def in_buffer_def can_access_at_index_def)

text \<open>Nothing but the last byte is NUL at the end of what is read.\<close>

lemma consumed_grown:
  assumes "in_buffer b" and "buffer_at_offset b = s @ t" and "s \<noteq> []" and "last s \<noteq> NUL"
  shows "grown 1 b (advance (length s) b)"
proof -
  have "t \<noteq> []"
  proof
    assume "t = []"
    then have "last (buf_content b) = last s"
      using assms last_drop [of "buf_offset b" "buf_content b"] by (auto simp: buffer_at_offset_def in_buffer_def)
    with assms show False by (simp add: in_buffer_def)
  qed
  moreover have "length (buf_content b) - buf_offset b = length s + length t"
    using assms(2) unfolding buffer_at_offset_def by (metis length_append length_drop)
  moreover have "1 \<le> length s" using assms(3) by (cases s) auto
  moreover have "1 \<le> length t" using \<open>t \<noteq> []\<close> by (cases t) auto
  ultimately show ?thesis
    using assms(1) by (auto simp: grown_def in_buffer_def)
qed

subsection \<open>Literals, numbers, strings\<close>

lemma reads_literal_grown:
  assumes "in_buffer b" and "reads_literal s b" and "s \<noteq> []" and "last s \<noteq> NUL"
  shows "grown 1 b (advance (length s) b)"
proof (rule consumed_grown [OF assms(1) _ assms(3,4)])
  show "buffer_at_offset b = s @ drop (length s) (buffer_at_offset b)"
    using assms(2) unfolding reads_literal_def by (metis append_take_drop_id)
qed

text \<open>A number ends before the NUL.\<close>

lemma length_drop_prefix: "suffix t s \<Longrightarrow> take (length s - length t) s @ t = s"
  by (auto simp: suffix_def)

lemma suffix_dropWhile_step: "suffix (dropWhile P s) s"
  by (metis suffix_def takeWhile_dropWhile_id)

lemma suffix_after_sign: "suffix (after_sign s) s"
  by (auto simp: after_sign_def suffix_def split: list.split)

lemma suffix_exponent: "suffix (snd (exponent_part s)) s"
  using suffix_order.trans [OF suffix_dropWhile_step suffix_after_sign]
  by (auto simp: exponent_part_def Let_def split: list.split intro: suffix_ConsI)

lemma suffix_fraction: "suffix (snd (fraction_part s)) s"
  by (auto simp: fraction_part_def split: list.split intro: suffix_ConsI suffix_dropWhile_step)

lemma fraction_shorter: "fst (fraction_part s) \<noteq> [] \<Longrightarrow> length (snd (fraction_part s)) < length s"
  by (auto simp: fraction_part_def less_Suc_eq_le length_dropWhile_le split: list.splits if_splits)

lemma strtod_suffix:
  assumes "strtod s = Some (neg, m, e, rest)"
  shows "suffix rest s \<and> rest \<noteq> s"
proof -
  define t where "t = after_sign s"
  define u where "u = snd (fraction_part (dropWhile is_digit t))"
  have rest: "rest = snd (exponent_part u)"
    and some: "takeWhile is_digit t \<noteq> [] \<or> fst (fraction_part (dropWhile is_digit t)) \<noteq> []"
    using assms by (auto simp: strtod_def Let_def t_def u_def split: prod.splits if_splits)
  have t: "suffix t s" unfolding t_def by (rule suffix_after_sign)
  have u: "suffix u (dropWhile is_digit t)" unfolding u_def by (rule suffix_fraction)
  have d: "suffix (dropWhile is_digit t) t" by (rule suffix_dropWhile_step)
  have r: "suffix rest u" unfolding rest by (rule suffix_exponent)
  have "length u < length t"
  proof (cases "takeWhile is_digit t = []")
    case True
    then have "fst (fraction_part (dropWhile is_digit t)) \<noteq> []" using some by simp
    then have "length u < length (dropWhile is_digit t)"
      unfolding u_def by (rule fraction_shorter)
    with suffix_length_le [OF d] show ?thesis by simp
  next
    case False
    then have "length (dropWhile is_digit t) < length t"
      by (metis append_Nil length_append length_greater_0_conv less_add_same_cancel2 takeWhile_dropWhile_id)
    with suffix_length_le [OF u] show ?thesis by simp
  qed
  then have "length rest < length s"
    using suffix_length_le [OF r] suffix_length_le [OF t] by simp
  then show ?thesis
    using suffix_order.trans [OF r suffix_order.trans [OF u suffix_order.trans [OF d t]]] by auto
qed

lemma number_char_not_NUL: "is_number_char c \<Longrightarrow> c \<noteq> NUL"
  by (auto simp: is_number_char_def is_digit_def)

lemma double_integer_part_nonneg: "0 \<le> p \<Longrightarrow> 0 < q \<Longrightarrow> 0 \<le> double_integer_part p q"
  by (auto simp: double_integer_part_def Let_def pos_imp_zdiv_nonneg_iff)

lemma digits_value_nonneg: "list_all is_digit ds \<Longrightarrow> 0 \<le> digits_value ds"
proof -
  have "list_all is_digit ds \<Longrightarrow> 0 \<le> n \<Longrightarrow> 0 \<le> foldl (\<lambda>n c. 10 * n + (int (code c) - 48)) n ds" for n
    by (induction ds arbitrary: n) (auto simp: is_digit_def)
  then show "list_all is_digit ds \<Longrightarrow> 0 \<le> digits_value ds" by (simp add: digits_value_def)
qed

lemma number_valueint_range:
  "0 \<le> m \<Longrightarrow> - (2 ^ 31) \<le> number_valueint neg m e \<and> number_valueint neg m e < 2 ^ 31"
  using double_integer_part_nonneg [of "m * 10 ^ nat e" "10 ^ nat (- e)"]
  by (auto simp: number_valueint_def Let_def)

lemma strtod_mantissa: "strtod s = Some (neg, m, e, rest) \<Longrightarrow> 0 \<le> m"
  by (auto simp: strtod_def fraction_part_def Let_def split: prod.splits if_splits list.splits
      intro!: digits_value_nonneg dest: set_takeWhileD simp: list_all_iff)

definition value_ok :: "nat \<Rightarrow> cJSON \<Rightarrow> bool" where
  "value_ok k j \<longleftrightarrow> well_typed j \<and> json_name j = None \<and> nesting j \<le> k"

lemma parse_number_sound:
  assumes "in_buffer b"
  shows "sound (value_ok k) b (parse_number b)"
proof (cases "strtod (takeWhile is_number_char (take 63 (buffer_at_offset b)))")
  case (Some r)
  define s where "s = takeWhile is_number_char (take 63 (buffer_at_offset b))"
  obtain neg m e rest where r: "strtod s = Some (neg, m, e, rest)" "r = (neg, m, e, rest)"
    using Some unfolding s_def by (cases r) auto
  define t where "t = take (length s - length rest) s"
  have suf: "suffix rest s" "rest \<noteq> s" using strtod_suffix [OF r(1)] by auto
  then have ts: "t @ rest = s" unfolding t_def by (intro length_drop_prefix)
  have len: "length s - length rest = length t" unfolding ts [symmetric] by simp
  have "t \<noteq> []" using ts suf by auto
  moreover have "prefix t (buffer_at_offset b)"
    using ts unfolding s_def prefix_def by (metis append.assoc append_take_drop_id takeWhile_dropWhile_id)
  moreover have "is_number_char (last t)"
    using last_in_set [OF \<open>t \<noteq> []\<close>] ts unfolding s_def by (metis UnCI set_append set_takeWhileD)
  ultimately have "grown 1 b (advance (length t) b)"
    using consumed_grown [OF assms] number_char_not_NUL by (auto simp: prefix_def)
  moreover have "value_ok k (jnumber (number_valueint neg m e))"
    using number_valueint_range [OF strtod_mantissa [OF r(1)], of neg e] by (simp add: value_ok_def jnumber_def)
  ultimately show ?thesis
    using Some r by (auto simp: parse_number_def len s_def [symmetric] intro!: soundI)
qed (simp add: parse_number_def)

lemma find_string_end_quote: "find_string_end t = Some n \<Longrightarrow> n < length t \<and> t ! n = CHR 0x22"
  by (induction t arbitrary: n rule: find_string_end.induct) (auto split: if_splits list.splits)

lemma unescape_in_bounds:
  "n < length s \<or> n = 0 \<Longrightarrow> unescape n s \<noteq> Out_of_bounds \<and> unescape n s \<noteq> Out_of_fuel"
proof (induction n s rule: unescape.induct)
  case (1 n s)
  show ?case
  proof (cases "n = 0")
    case False
    then obtain c d s' where s: "s = c # d # s'"
      using 1(4) by (cases s; cases "tl s") auto
    have skip: "and_then r (\<lambda>out. Parsed (f out)) \<noteq> Out_of_bounds \<and> and_then r (\<lambda>out. Parsed (f out)) \<noteq> Out_of_fuel"
      if "r \<noteq> Out_of_bounds \<and> r \<noteq> Out_of_fuel" for r and f :: "string \<Rightarrow> string"
      using that by (cases r) auto
    have un: "unescape n s =
        (if c \<noteq> CHR 0x5C then and_then (unescape (n - 1) (d # s')) (\<lambda>out. Parsed (c # out))
         else if d = CHR ''u''
         then (case utf16_literal_to_utf8 (take n s) of
                 None \<Rightarrow> Failed
               | Some (k, bytes) \<Rightarrow> and_then (unescape (n - k) (drop k s)) (\<lambda>out. Parsed (bytes @ out)))
         else (case escape_value d of
                 None \<Rightarrow> Failed
               | Some x \<Rightarrow> and_then (unescape (n - 2) s') (\<lambda>out. Parsed (x # out))))"
      using False s by (subst unescape.simps) simp
    have plain: "unescape (n - 1) (d # s') \<noteq> Out_of_bounds \<and> unescape (n - 1) (d # s') \<noteq> Out_of_fuel" if "c \<noteq> CHR 0x5C"
      using "1.IH"(1) [OF False s that] "1.prems" s False by (cases n) auto
    have literal: "unescape (n - k) (drop k s) \<noteq> Out_of_bounds \<and> unescape (n - k) (drop k s) \<noteq> Out_of_fuel"
      if "c = CHR 0x5C" "d = CHR ''u''" "utf16_literal_to_utf8 (take n s) = Some (k, bytes)" for k bytes
      using "1.IH"(2) [OF False s _ refl that(2,3) refl] that(1) "1.prems" by (simp add: less_diff_conv2) linarith
    have escaped: "unescape (n - 2) s' \<noteq> Out_of_bounds \<and> unescape (n - 2) s' \<noteq> Out_of_fuel"
      if "c = CHR 0x5C" "d \<noteq> CHR ''u''" "escape_value d = Some x" for x
    proof -
      have "n - 2 < length s' \<or> n - 2 = 0" using "1.prems" s by (simp, linarith)
      with "1.IH"(3) [OF False s _ refl that(2,3)] that(1) show ?thesis by blast
    qed
    show ?thesis
      unfolding un using skip [OF plain] skip [OF literal] skip [OF escaped] by (auto split: option.split)
  qed (simp add: unescape.simps)
qed

lemma parse_string_sound:
  assumes "in_buffer b"
  shows "sound (\<lambda>s. NUL \<notin> set s) b (parse_string b)"
proof -
  obtain c t where b: "buffer_at_offset b = c # t" "read_first b = Parsed c"
    using assms by (cases "buffer_at_offset b")
      (auto simp: in_buffer_def buffer_at_offset_def read_first_def can_access_at_index_def hd_drop_conv_nth
        dest: arg_cong [of _ _ hd])
  show ?thesis
  proof (cases "c = CHR 0x22 \<and> find_string_end t \<noteq> None")
    case True
    then obtain n where n: "find_string_end t = Some n" "c = CHR 0x22" by auto
    have "buffer_at_offset b = (c # take n t @ [CHR 0x22]) @ drop (Suc n) t"
      using find_string_end_quote [OF n(1)] b id_take_nth_drop [of n t] by simp
    then have "grown 1 b (advance (length (c # take n t @ [CHR 0x22])) b)"
      by (rule consumed_grown [OF assms]) auto
    then have "grown 1 b (advance (n + 2) b)"
      using find_string_end_quote [OF n(1)] by simp
    then show ?thesis
      using b n unescape_in_bounds [of n t] find_string_end_quote [OF n(1)] cstr_no_NUL
      by (cases "unescape n t") (auto simp: parse_string_def intro!: soundI)
  qed (use b in \<open>auto simp: parse_string_def\<close>)
qed

subsection \<open>Arrays and objects\<close>

locale value_parser =
  fixes parse :: "parse_buffer \<Rightarrow> (cJSON \<times> parse_buffer) parsed" and depth :: nat and k :: nat
  assumes parse_sound: "in_buffer b \<Longrightarrow> buf_depth b = depth \<Longrightarrow> sound (value_ok k) b (parse b)"
begin

lemma elements_sound:
  assumes "in_buffer (advance 1 b)" and "buf_depth b = depth" and "length (buf_content b) \<le> n + buf_offset b"
  shows "sound (\<lambda>js. js \<noteq> [] \<and> (\<forall>j \<in> set js. value_ok k j)) b (parse_elements parse n b)"
  using assms
proof (induction n arbitrary: b)
  case 0
  then show ?case by (simp add: in_buffer_def)
next
  case (Suc n)
  let ?c = "buffer_skip_whitespace (advance 1 b)"
  have c: "grown 0 (advance 1 b) ?c" by (rule skip_grown [OF Suc.prems(1)])
  have "sound (value_ok k) ?c (parse ?c)"
    using c Suc.prems(2) by (intro parse_sound) (auto simp: grown_def)
  then have item: "sound (value_ok k) b (parse ?c)"
    by (rule sound_grown [where k = 1]) (use c in \<open>auto simp: grown_def\<close>)
  show ?case
    unfolding parse_elements.simps
  proof (rule sound_and_then [OF item], clarsimp simp: Let_def split del: if_split)
    fix j b'
    assume b': "grown (Suc 0) b b'" "value_ok k j"
    let ?d = "buffer_skip_whitespace b'"
    have d: "grown 1 b ?d"
      using grown_trans [OF b'(1) skip_grown] b'(1) by (auto simp: grown_def)
    have rest: "sound (\<lambda>js. js \<noteq> [] \<and> (\<forall>j \<in> set js. value_ok k j)) ?d (parse_elements parse n ?d)"
      if "looks_at ?d (CHR '','')"
      using Suc.IH [of ?d] looks_at_grown [OF that] d Suc.prems by (auto simp: grown_def)
    have more: "sound (\<lambda>js. js \<noteq> [] \<and> (\<forall>j \<in> set js. value_ok k j)) b
        (and_then (parse_elements parse n ?d) (\<lambda>(items, b). Parsed (j # items, b)))" if "looks_at ?d (CHR '','')"
      by (rule sound_and_then [OF sound_grown [OF rest [OF that] d]]) (use b'(2) in \<open>auto intro!: soundI\<close>)
    show "sound (\<lambda>js. js \<noteq> [] \<and> (\<forall>j \<in> set js. value_ok k j)) b
        (if looks_at ?d (CHR '','')
         then and_then (parse_elements parse n ?d) (\<lambda>(items, b). Parsed (j # items, b))
         else Parsed ([j], ?d))"
      using more d b'(2) by (auto intro!: soundI)
  qed
qed

definition member_ok :: "string \<times> cJSON \<Rightarrow> bool" where
  "member_ok m \<longleftrightarrow> NUL \<notin> set (fst m) \<and> value_ok k (snd m)"

lemma members_sound:
  assumes "in_buffer (advance 1 b)" and "buf_depth b = depth" and "length (buf_content b) \<le> n + buf_offset b"
  shows "sound (\<lambda>ms. ms \<noteq> [] \<and> (\<forall>m \<in> set ms. member_ok m)) b (parse_members parse n b)"
  using assms
proof (induction n arbitrary: b)
  case 0
  then show ?case by (simp add: in_buffer_def)
next
  case (Suc n)
  let ?c = "buffer_skip_whitespace (advance 1 b)"
  have c: "grown 0 (advance 1 b) ?c" by (rule skip_grown [OF Suc.prems(1)])
  then have "in_buffer ?c" "grown 0 b ?c" by (auto simp: grown_def)
  from sound_grown [OF parse_string_sound [OF this(1)] this(2)]
  show ?case
    unfolding parse_members.simps
  proof (rule sound_and_then, clarsimp simp: Let_def split del: if_split)
    fix name b'
    assume b': "grown (Suc 0) b b'" "NUL \<notin> set name"
    let ?d = "buffer_skip_whitespace b'" and ?e = "\<lambda>b. buffer_skip_whitespace (advance 1 b)"
    have d: "grown 1 b ?d"
      using grown_trans [OF b'(1) skip_grown] b'(1) by (auto simp: grown_def)
    show "sound (\<lambda>ms. ms \<noteq> [] \<and> (\<forall>m \<in> set ms. member_ok m)) b
      (if \<not> looks_at ?d (CHR '':'') then Failed
       else and_then (parse (?e ?d)) (\<lambda>(item, b).
          let b = buffer_skip_whitespace b
          in if looks_at b (CHR '','')
             then and_then (parse_members parse n b) (\<lambda>(items, b). Parsed ((name, item) # items, b))
             else Parsed ([(name, item)], b)))"
    proof (cases "looks_at ?d (CHR '':'')")
      case True
      have e: "grown 1 b (?e ?d)"
        using looks_at_grown [OF True] d skip_grown [of "advance 1 ?d"] by (auto simp: grown_def)
      then have "sound (value_ok k) (?e ?d) (parse (?e ?d))"
        using Suc.prems(2) by (intro parse_sound) (auto simp: grown_def)
      from sound_grown [OF this e] show ?thesis
        unfolding if_not_P [OF not_not [THEN iffD2, OF True]]
      proof (rule sound_and_then, clarsimp simp: Let_def split del: if_split)
        fix item f
        assume f: "grown (Suc 0) b f" "value_ok k item"
        let ?g = "buffer_skip_whitespace f"
        have g: "grown 1 b ?g"
          using grown_trans [OF f(1) skip_grown] f(1) by (auto simp: grown_def)
        have ok: "member_ok (name, item)" using b' f by (simp add: member_ok_def)
        have rest: "sound (\<lambda>ms. ms \<noteq> [] \<and> (\<forall>m \<in> set ms. member_ok m)) ?g (parse_members parse n ?g)"
          if "looks_at ?g (CHR '','')"
          using Suc.IH [of ?g] looks_at_grown [OF that] g Suc.prems by (auto simp: grown_def)
        have more: "sound (\<lambda>ms. ms \<noteq> [] \<and> (\<forall>m \<in> set ms. member_ok m)) b
            (and_then (parse_members parse n ?g) (\<lambda>(items, b). Parsed ((name, item) # items, b)))" if "looks_at ?g (CHR '','')"
          by (rule sound_and_then [OF sound_grown [OF rest [OF that] g]]) (use ok in \<open>auto intro!: soundI\<close>)
        show "sound (\<lambda>ms. ms \<noteq> [] \<and> (\<forall>m \<in> set ms. member_ok m)) b
            (if looks_at ?g (CHR '','')
             then and_then (parse_members parse n ?g) (\<lambda>(items, b). Parsed ((name, item) # items, b))
             else Parsed ([(name, item)], ?g))"
          using more g ok by (auto intro!: soundI)
      qed
    qed simp
  qed
qed

end

text \<open>Brackets: one level deeper inside, closed at the end.\<close>

definition deeper :: "parse_buffer \<Rightarrow> parse_buffer" where
  "deeper b = b\<lparr>buf_depth := buf_depth b + 1\<rparr>"

definition closed :: "parse_buffer \<Rightarrow> parse_buffer" where
  "closed b = advance 1 (b\<lparr>buf_depth := buf_depth b - 1\<rparr>)"

lemma deeper_simps [simp]:
  "in_buffer (deeper b) = in_buffer b" "looks_at (deeper b) c = looks_at b c" "buf_depth (deeper b) = Suc (buf_depth b)"
  "buf_content (deeper b) = buf_content b" "buf_offset (deeper b) = buf_offset b"
  by (auto simp: deeper_def in_buffer_def looks_at_def can_access_at_index_def)

lemma closed_grown:
  assumes "grown (Suc 0) (deeper b) b'" and "looks_at b' c" and "c \<noteq> NUL"
  shows "grown (Suc 0) b (closed b')"
proof -
  have "grown 1 b' (advance 1 b')" using looks_at_grown [OF assms(2,3)] assms(1) by (simp add: grown_def)
  with assms show ?thesis by (auto simp: grown_def in_buffer_def closed_def)
qed

lemma enclosed_sound:
  assumes "sound P b' r" and "grown 0 (deeper b) b'" and "\<And>x. P x \<Longrightarrow> Q (build x)" and "c \<noteq> NUL"
  shows "sound Q b (and_then r (\<lambda>(x, b). if \<not> looks_at b c then Failed else Parsed (build x, closed b)))"
proof -
  have "sound P (deeper b) r" using assms(1,2) by (rule sound_grown)
  then consider "r = Failed" | x b' where "r = Parsed (x, b')" "grown (Suc 0) (deeper b) b'" "P x"
    by (auto simp: sound_def)
  then show ?thesis
  proof cases
    case 2
    then show ?thesis
      using closed_grown [OF 2(2)] assms(3,4) by (auto intro: soundI)
  qed simp
qed

lemma opened:
  assumes "in_buffer b" and "looks_at b c" and "c \<noteq> NUL"
  shows "grown 1 b (buffer_skip_whitespace (advance 1 b))"
    and "in_buffer (advance 1 (step_back (buffer_skip_whitespace (advance 1 b))))"
    and "grown 0 b (step_back (buffer_skip_whitespace (advance 1 b)))"
proof -
  let ?c = "buffer_skip_whitespace (advance 1 b)"
  show c: "grown 1 b ?c"
    using looks_at_grown [OF assms(2,3,1)] skip_grown [of "advance 1 b"] by (auto simp: grown_def)
  have "advance 1 (step_back ?c) = ?c"
    using c by (simp add: advance_def step_back_def grown_def)
  then show "in_buffer (advance 1 (step_back ?c))"
    using c by (simp only: grown_def)
  show "grown 0 b (step_back ?c)"
    using c by (auto simp: grown_def in_buffer_def)
qed

context value_parser
begin

lemma array_sound:
  assumes "in_buffer b" and "looks_at b (CHR ''['')" and "Suc (buf_depth b) = depth"
  shows "sound (value_ok (Suc k)) b (parse_array parse b)"
proof -
  let ?c = "buffer_skip_whitespace (advance 1 (deeper b))"
  note c = opened [of "deeper b" "CHR ''[''"]
  have b: "read_first (deeper b) = Parsed (CHR ''['')"
    using assms by (auto simp: looks_at_def can_access_at_index_def read_first_def)
  have elements: "sound (\<lambda>js. js \<noteq> [] \<and> (\<forall>j \<in> set js. value_ok k j)) (step_back ?c)
      (parse_elements parse (length (buf_content ?c)) (step_back ?c))"
    using c assms by (intro elements_sound) (auto simp: grown_def)
  have "sound (value_ok (Suc k)) b (and_then (parse_elements parse (length (buf_content ?c)) (step_back ?c))
      (\<lambda>(items, b). if \<not> looks_at b (CHR '']'') then Failed else Parsed (jarray items, closed b)))"
    by (rule enclosed_sound [OF elements]) (use c assms in \<open>auto simp: value_ok_def jarray_def fold_max_le\<close>)
  moreover have "sound (value_ok (Suc k)) b (Parsed (jarray [], closed ?c))" if "looks_at ?c (CHR '']'')"
    using closed_grown [of b ?c, OF _ that] c(1) assms by (auto simp: value_ok_def jarray_def intro!: soundI)
  ultimately show ?thesis
    unfolding parse_array_def Let_def closed_def [symmetric] deeper_def [symmetric]
    by (simp add: b del: One_nat_def)
qed

lemma object_sound:
  assumes "in_buffer b" and "looks_at b (CHR ''{'')" and "Suc (buf_depth b) = depth"
  shows "sound (value_ok (Suc k)) b (parse_object parse b)"
proof -
  let ?c = "buffer_skip_whitespace (advance 1 (deeper b))"
  note c = opened [of "deeper b" "CHR ''{''"]
  have members: "sound (\<lambda>ms. ms \<noteq> [] \<and> (\<forall>m \<in> set ms. member_ok m)) (step_back ?c)
      (parse_members parse (length (buf_content ?c)) (step_back ?c))"
    using c assms by (intro members_sound) (auto simp: grown_def)
  have "sound (value_ok (Suc k)) b (and_then (parse_members parse (length (buf_content ?c)) (step_back ?c))
      (\<lambda>(items, b). if \<not> looks_at b (CHR ''}'') then Failed else Parsed (jobject items, closed b)))"
    by (rule enclosed_sound [OF members])
      (use c assms in \<open>auto simp: value_ok_def jobject_def fold_max_le member_ok_def split_def\<close>)
  moreover have "sound (value_ok (Suc k)) b (Parsed (jobject [], closed ?c))" if "looks_at ?c (CHR ''}'')"
    using closed_grown [of b ?c, OF _ that] c(1) assms by (auto simp: value_ok_def jobject_def intro!: soundI)
  moreover have "looks_at (deeper b) (CHR ''{'')" using assms(2) by simp
  ultimately show ?thesis
    unfolding parse_object_def Let_def closed_def [symmetric] deeper_def [symmetric]
    by (simp del: One_nat_def deeper_simps)
qed

end

subsection \<open>Whole texts\<close>

lemma value_parser_parse_value:
  "CJSON_NESTING_LIMIT < n + d \<Longrightarrow> d \<le> CJSON_NESTING_LIMIT \<Longrightarrow>
    value_parser (parse_value n) d (CJSON_NESTING_LIMIT - d)"
proof (induction n arbitrary: d)
  case (Suc n)
  show ?case
  proof
    fix b
    assume b: "in_buffer b" "buf_depth b = d"
    have literal: "sound (value_ok k) b (Parsed (j, advance (length s) b))"
      if "reads_literal s b" "s \<noteq> []" "last s \<noteq> NUL" "value_ok k j" for s j k
      using reads_literal_grown [OF b(1) that(1-3)] that(4) by (auto intro!: soundI)
    have literals:
      "reads_literal ''null'' b \<Longrightarrow> sound (value_ok k) b (Parsed (CJSON cJSON_NULL [] [] 0 None, advance 4 b))"
      "reads_literal ''false'' b \<Longrightarrow> sound (value_ok k) b (Parsed (CJSON cJSON_False [] [] 0 None, advance 5 b))"
      "reads_literal ''true'' b \<Longrightarrow> sound (value_ok k) b (Parsed (CJSON cJSON_True [] [] 1 None, advance 4 b))" for k
      using literal [of "''null''" k "CJSON cJSON_NULL [] [] 0 None"] literal [of "''false''" k "CJSON cJSON_False [] [] 0 None"]
        literal [of "''true''" k "CJSON cJSON_True [] [] 1 None"]
      by (simp_all add: value_ok_def eval_nat_numeral)
    have str: "sound (value_ok k) b (and_then (parse_string b) (\<lambda>(s, b). Parsed (jstring s, b)))" for k
      by (rule sound_and_then [OF parse_string_sound [OF b(1)]]) (auto simp: value_ok_def jstring_def intro!: soundI)
    have nested: "sound (value_ok (CJSON_NESTING_LIMIT - d)) b (parse_array (parse_value n) b)" if "looks_at b (CHR ''['')"
    proof (cases "d < CJSON_NESTING_LIMIT")
      case True
      then have step: "value_parser (parse_value n) (Suc d) (CJSON_NESTING_LIMIT - Suc d)"
        using Suc.IH [of "Suc d"] Suc.prems(1) by simp
      show ?thesis
        using value_parser.array_sound [OF step b(1) that] b(2) True by (simp add: Suc_diff_Suc)
    qed (use b in \<open>simp add: parse_array_def\<close>)
    have object: "sound (value_ok (CJSON_NESTING_LIMIT - d)) b (parse_object (parse_value n) b)" if "looks_at b (CHR ''{'')"
    proof (cases "d < CJSON_NESTING_LIMIT")
      case True
      then have step: "value_parser (parse_value n) (Suc d) (CJSON_NESTING_LIMIT - Suc d)"
        using Suc.IH [of "Suc d"] Suc.prems(1) by simp
      show ?thesis
        using value_parser.object_sound [OF step b(1) that] b(2) True by (simp add: Suc_diff_Suc)
    qed (use b in \<open>simp add: parse_object_def\<close>)
    show "sound (value_ok (CJSON_NESTING_LIMIT - d)) b (parse_value (Suc n) b)"
      using literals str nested object parse_number_sound [OF b(1)]
        sound_Failed
      unfolding parse_value.simps by (simp only: split: if_split) blast
  qed
qed simp

interpretation top: value_parser "parse_value (CJSON_NESTING_LIMIT + 1)" 0 CJSON_NESTING_LIMIT
  using value_parser_parse_value [of "CJSON_NESTING_LIMIT + 1" 0] by simp

lemma start_in_buffer:
  assumes "skip_utf8_bom \<lparr>buf_content = s @ [NUL], buf_offset = 0, buf_depth = 0\<rparr> = Some b"
  shows "in_buffer b \<and> buf_depth b = 0"
  using assms by (auto simp: skip_utf8_bom_def in_buffer_def can_access_at_index_def split: if_splits)

lemma parse_text_sound: "parse_text s = Failed \<or> (\<exists>j. parse_text s = Parsed j \<and> value_ok CJSON_NESTING_LIMIT j)"
proof -
  have "skip_utf8_bom \<lparr>buf_content = cstr s @ [NUL], buf_offset = 0, buf_depth = 0\<rparr> \<noteq> None"
    by (simp add: skip_utf8_bom_def)
  then obtain b where b: "skip_utf8_bom \<lparr>buf_content = cstr s @ [NUL], buf_offset = 0, buf_depth = 0\<rparr> = Some b"
    by blast
  have "grown 0 b (buffer_skip_whitespace b)"
    using start_in_buffer [OF b] skip_grown by blast
  then have "sound (value_ok CJSON_NESTING_LIMIT) (buffer_skip_whitespace b)
      (parse_value (CJSON_NESTING_LIMIT + 1) (buffer_skip_whitespace b))"
    using start_in_buffer [OF b] by (intro top.parse_sound) (auto simp: grown_def)
  then show ?thesis
    unfolding parse_text_def cJSON_ParseWithOpts_def cJSON_ParseWithLengthOpts_def Let_def b
    by (auto simp: sound_def)
qed

text \<open>C11: the parser of responses ends on every text and reads nothing outside it, although its loops check
  the bounds only in part: a text it is given without the NUL that ends a C string, which
  \<open>cJSON_ParseWithLength\<close> allows, is read beyond its end.\<close>

theorem json_parser_in_bounds:
  "(parse_text s = Failed \<or> (\<exists>j. parse_text s = Parsed j)) \<and>
    cJSON_ParseWithLengthOpts ''{\"1\":1,'' False = Out_of_bounds"
proof
  show "parse_text s = Failed \<or> (\<exists>j. parse_text s = Parsed j)"
    using parse_text_sound [of s] by blast
qed code_simp

text \<open>C12: what the parser returns is well typed: only arrays and objects have children, all and only the
  children of an object have a name, every string is a C string, every integer fits into \<open>int\<close>,
  and nothing is nested more than \<open>CJSON_NESTING_LIMIT\<close> deep. A message that is nested deeper is no
  JSON for the program.\<close>

theorem parsed_well_typed:
  assumes "cJSON_Parse s = Some j"
  shows "well_typed j \<and> json_name j = None \<and> nesting j \<le> CJSON_NESTING_LIMIT"
  using parse_text_sound [of s] assms by (auto simp: cJSON_Parse_def value_ok_def split: parsed.splits)

theorem parsed_well_typed_witness:
  "well_typed (jobject [(''id'', jarray [jnumber 7])]) \<and> json_name (jobject [(''id'', jarray [jnumber 7])]) = None \<and>
    nesting (jobject [(''id'', jarray [jnumber 7])]) \<le> CJSON_NESTING_LIMIT"
  by (rule parsed_well_typed [of "''{\"id\":[7]}''"]) code_simp

end
