(* ===== verification/JsonGrammar.thy ===== *)
theory JsonGrammar imports JsonSpec JsonText begin

text \<open>
  The texts of JSON values (RFC 8259) with the value each has, as an inductive relation, and the proof
  that the parser of cJSON returns that value. Inside strings the relation also allows bare control
  characters, which the RFC does not. Numbers are limited to the 63 characters that \<open>parse_number\<close> keeps.
\<close>

subsection \<open>The grammar\<close>

definition white :: "string \<Rightarrow> bool" where
  "white w \<longleftrightarrow> set w \<subseteq> {CHR '' '', CHR 0x09, CHR 0x0A, CHR 0x0D}"

text \<open>UTF-8 of a code point, by arithmetic.\<close>

definition utf8 :: "int \<Rightarrow> string" where
  "utf8 n = map char_of
     (if n < 128 then [n]
      else if n < 2048 then [192 + n div 64, 128 + n mod 64]
      else if n < 65536 then [224 + n div 4096, 128 + n div 64 mod 64, 128 + n mod 64]
      else [240 + n div 262144, 128 + n div 4096 mod 64, 128 + n div 64 mod 64, 128 + n mod 64])"

definition hex4 :: "string \<Rightarrow> int \<Rightarrow> bool" where
  "hex4 h n \<longleftrightarrow> (\<exists>a b c d. map hex_digit h = [Some a, Some b, Some c, Some d] \<and> n = 4096 * a + 256 * b + 16 * c + d)"

text \<open>The characters between the quotes of a string, and the bytes they stand for.\<close>

inductive json_chars :: "string \<Rightarrow> string \<Rightarrow> bool" where
  chars_end: "json_chars [] []"
| chars_plain: "c \<notin> {NUL, CHR 0x22, CHR 0x5C} \<Longrightarrow> json_chars t s \<Longrightarrow> json_chars (c # t) (c # s)"
| chars_escape: "escape_value e = Some x \<Longrightarrow> json_chars t s \<Longrightarrow> json_chars (CHR 0x5C # e # t) (x # s)"
| chars_unicode: "hex4 h n \<Longrightarrow> \<not> (0xD800 \<le> n \<and> n \<le> 0xDFFF) \<Longrightarrow> json_chars t s \<Longrightarrow>
    json_chars ([CHR 0x5C, CHR ''u''] @ h @ t) (utf8 n @ s)"
| chars_pair: "hex4 h n \<Longrightarrow> 0xD800 \<le> n \<Longrightarrow> n \<le> 0xDBFF \<Longrightarrow> hex4 l m \<Longrightarrow> 0xDC00 \<le> m \<Longrightarrow> m \<le> 0xDFFF \<Longrightarrow> json_chars t s \<Longrightarrow>
    json_chars ([CHR 0x5C, CHR ''u''] @ h @ [CHR 0x5C, CHR ''u''] @ l @ t) (utf8 (0x10000 + 1024 * (n - 0xD800) + (m - 0xDC00)) @ s)"

definition digits :: "string \<Rightarrow> bool" where
  "digits ds \<longleftrightarrow> ds \<noteq> [] \<and> list_all is_digit ds"

text \<open>A number, with the integer it is converted to.\<close>

inductive json_exponent :: "string \<Rightarrow> int \<Rightarrow> bool" where
  no_exponent: "json_exponent [] 0"
| exponent: "e \<in> {CHR ''e'', CHR ''E''} \<Longrightarrow> sign \<in> {[], ''+''} \<Longrightarrow> digits ds \<Longrightarrow> json_exponent (e # sign @ ds) (digits_value ds)"
| negative_exponent: "e \<in> {CHR ''e'', CHR ''E''} \<Longrightarrow> digits ds \<Longrightarrow> json_exponent (e # ''-'' @ ds) (- digits_value ds)"

inductive json_fraction :: "string \<Rightarrow> string \<Rightarrow> bool" where
  no_fraction: "json_fraction [] []"
| fraction: "digits fs \<Longrightarrow> json_fraction (CHR ''.'' # fs) fs"

definition json_number :: "string \<Rightarrow> int \<Rightarrow> bool" where
  "json_number t v \<longleftrightarrow> length t \<le> 63 \<and>
     (\<exists>sign ds f fs x e. t = sign @ ds @ f @ x \<and> sign \<in> {[], ''-''} \<and> digits ds \<and> json_fraction f fs \<and> json_exponent x e \<and>
        v = number_valueint (sign = ''-'') (digits_value (ds @ fs)) (e - int (length fs)))"

text \<open>The first argument bounds the nesting of arrays and objects.\<close>

inductive json_text :: "nat \<Rightarrow> string \<Rightarrow> cJSON \<Rightarrow> bool"
  and json_elements :: "nat \<Rightarrow> string \<Rightarrow> cJSON list \<Rightarrow> bool"
  and json_members :: "nat \<Rightarrow> string \<Rightarrow> (string \<times> cJSON) list \<Rightarrow> bool" where
  text_null: "json_text d ''null'' (CJSON cJSON_NULL [] [] 0 None)"
| text_false: "json_text d ''false'' (CJSON cJSON_False [] [] 0 None)"
| text_true: "json_text d ''true'' (CJSON cJSON_True [] [] 1 None)"
| text_number: "json_number t v \<Longrightarrow> json_text d t (jnumber v)"
| text_string: "json_chars t s \<Longrightarrow> json_text d (CHR 0x22 # t @ [CHR 0x22]) (jstring (cstr s))"
| text_no_elements: "white w \<Longrightarrow> json_text (Suc d) (CHR ''['' # w @ '']'') (jarray [])"
| text_array: "json_elements d t js \<Longrightarrow> json_text (Suc d) (CHR ''['' # t @ '']'') (jarray js)"
| text_no_members: "white w \<Longrightarrow> json_text (Suc d) (CHR ''{'' # w @ ''}'') (jobject [])"
| text_object: "json_members d t ms \<Longrightarrow> json_text (Suc d) (CHR ''{'' # t @ ''}'') (jobject ms)"
| last_element: "white w \<Longrightarrow> json_text d t j \<Longrightarrow> white w' \<Longrightarrow> json_elements d (w @ t @ w') [j]"
| next_element: "white w \<Longrightarrow> json_text d t j \<Longrightarrow> white w' \<Longrightarrow> json_elements d u js \<Longrightarrow>
    json_elements d (w @ t @ w' @ CHR '','' # u) (j # js)"
| last_member: "white w \<Longrightarrow> json_chars n s \<Longrightarrow> white w' \<Longrightarrow> white x \<Longrightarrow> json_text d t j \<Longrightarrow> white x' \<Longrightarrow>
    json_members d (w @ CHR 0x22 # n @ CHR 0x22 # w' @ CHR '':'' # x @ t @ x') [(cstr s, j)]"
| next_member: "white w \<Longrightarrow> json_chars n s \<Longrightarrow> white w' \<Longrightarrow> white x \<Longrightarrow> json_text d t j \<Longrightarrow> white x' \<Longrightarrow> json_members d u ms \<Longrightarrow>
    json_members d (w @ CHR 0x22 # n @ CHR 0x22 # w' @ CHR '':'' # x @ t @ x' @ CHR '','' # u) ((cstr s, j) # ms)"

subsection \<open>The buffer from the offset on\<close>

lemma at_advance [simp]: "buffer_at_offset (advance n b) = drop n (buffer_at_offset b)"
  by (simp add: buffer_at_offset_def add.commute)

lemma at_deeper [simp]: "buffer_at_offset (deeper b) = buffer_at_offset b"
  by (simp add: buffer_at_offset_def)

lemma looks_at_iff: "looks_at b c \<longleftrightarrow> (\<exists>r. buffer_at_offset b = c # r)"
  by (cases "buf_offset b < length (buf_content b)")
    (auto simp: looks_at_def can_access_at_index_def buffer_at_offset_def Cons_nth_drop_Suc [symmetric])

lemma can_access_iff: "can_access_at_index b n \<longleftrightarrow> n < length (buffer_at_offset b)"
  by (auto simp: can_access_at_index_def buffer_at_offset_def)

lemma reads_literal_iff:
  assumes "s \<noteq> []"
  shows "reads_literal s b \<longleftrightarrow> prefix s (buffer_at_offset b)"
proof -
  have "take (length s) r = s \<longleftrightarrow> prefix s r" for r :: string
    using take_is_prefix [of "length s" r] by (auto simp: prefix_def)
  moreover have "can_read b (length s)" if "prefix s (buffer_at_offset b)"
    using prefix_length_le [OF that] assms by (cases s) (auto simp: can_read_def buffer_at_offset_def)
  ultimately show ?thesis by (auto simp: reads_literal_def)
qed

lemma read_first_at: "buffer_at_offset b = c # r \<Longrightarrow> read_first b = Parsed c"
  using looks_at_iff [of b c] by (simp add: looks_at_def read_first_def)

lemma skip_loop_white:
  assumes "buffer_at_offset b = w @ c # r" and "\<forall>x \<in> set w. code x \<le> 32" and "\<not> code c \<le> 32"
  shows "skip_loop b = advance (length w) b"
  using assms
proof (induction w arbitrary: b)
  case Nil
  then have "looks_at b c" by (simp add: looks_at_iff)
  then show ?case using Nil by (subst skip_loop.simps) (auto simp: looks_at_def)
next
  case (Cons x w)
  then have "looks_at b x" by (simp add: looks_at_iff)
  moreover have "skip_loop (advance 1 b) = advance (length w) (advance 1 b)"
    using Cons.prems by (intro Cons.IH) auto
  ultimately show ?case using Cons.prems by (subst skip_loop.simps) (auto simp: looks_at_def)
qed

lemma white_codes: "white w \<Longrightarrow> x \<in> set w \<Longrightarrow> code x \<le> 32 \<and> \<not> is_number_char x \<and> x \<noteq> NUL \<and> x \<noteq> CHR 0xEF"
  by (auto simp: white_def is_number_char_def is_digit_def)

lemma skip_white:
  assumes "buffer_at_offset b = w @ c # r" and "white w" and "32 < code c"
  shows "buffer_skip_whitespace b = advance (length w) b"
proof -
  have "skip_loop b = advance (length w) b"
    using assms white_codes [OF assms(2)] by (intro skip_loop_white) auto
  moreover have "can_access_at_index b (length w)" using assms(1) by (simp add: can_access_iff)
  ultimately show ?thesis
    by (auto simp: buffer_skip_whitespace_def can_access_at_index_def Let_def)
qed

subsection \<open>Strings\<close>

lemma or_eq_plus:
  fixes n m :: int
  assumes "0 \<le> n" and "n < 2 ^ k"
  shows "n OR push_bit k m = n + push_bit k m"
proof (rule disjunctive_add_eq_or [symmetric], rule bit_eqI)
  fix i
  have "take_bit k n = n" using assms by (simp add: take_bit_int_eq_self)
  then have "bit n i \<Longrightarrow> i < k" by (metis bit_take_bit_iff)
  then show "bit (n AND push_bit k m) i = bit 0 i" by (auto simp: bit_simps)
qed

lemma following_byte: "(n OR 0x80) AND 0xBF = 128 + n mod 64" for n :: int
proof -
  have "(n OR 0x80) AND 0xBF = (n OR 2 ^ 7) AND (mask 6 OR 2 ^ 7)" by (simp add: mask_eq_exp_minus_1)
  also have "\<dots> = take_bit 6 n OR push_bit 6 2"
    by (rule bit_eqI) (auto simp: bit_simps push_bit_eq_mult simp flip: take_bit_eq_mask)
  also have "\<dots> = n mod 64 + 128"
    by (subst or_eq_plus) (simp_all add: take_bit_eq_mod push_bit_eq_mult)
  finally show ?thesis by simp
qed

lemma first_byte:
  fixes n :: int
  assumes "0 \<le> n" and "n < 2 ^ k" and "n + push_bit k m < 256" and "0 \<le> m"
  shows "(n OR push_bit k m) AND 0xFF = n + push_bit k m"
proof -
  have "(n + push_bit k m) AND mask 8 = n + push_bit k m"
    using assms by (simp add: take_bit_int_eq_self push_bit_eq_mult flip: take_bit_eq_mask)
  then show ?thesis
    by (simp add: or_eq_plus [OF assms(1,2)] mask_eq_exp_minus_1)
qed

lemma encode_utf8_utf8: "0 \<le> n \<Longrightarrow> n \<le> 0x10FFFF \<Longrightarrow> encode_utf8 n = Some (utf8 n)"
proof -
  assume n: "0 \<le> n" "n \<le> 0x10FFFF"
  have small: "n AND 0x7F = n" if "n < 128"
    using that n take_bit_int_eq_self [of n 7] by (simp add: take_bit_eq_mask mask_eq_exp_minus_1)
  have two: "(n div 64 OR 0xC0) AND 0xFF = 192 + n div 64" if "n < 2048"
    using first_byte [of "n div 64" 6 3] that n by (simp add: push_bit_eq_mult)
  have three: "(n div 4096 OR 0xE0) AND 0xFF = 224 + n div 4096" if "n < 65536"
    using first_byte [of "n div 4096" 5 7] that n by (simp add: push_bit_eq_mult)
  have four: "(n div 262144 OR 0xF0) AND 0xFF = 240 + n div 262144"
    using first_byte [of "n div 262144" 4 15] n by (simp add: push_bit_eq_mult)
  show ?thesis
    using n small two three four
    by (simp add: encode_utf8_def utf8_def eval_nat_numeral following_byte drop_bit_eq_div
        zdiv_zmult2_eq [symmetric] add.commute)
qed

lemma hex_digit_range: "hex_digit c = Some a \<Longrightarrow> 0 \<le> a \<and> a < 16"
  by (auto simp: hex_digit_def Let_def split: if_splits)

lemma hex_digit_plain: "hex_digit c = Some a \<Longrightarrow> c \<noteq> NUL \<and> c \<noteq> CHR 0x22 \<and> c \<noteq> CHR 0x5C"
  by (auto simp: hex_digit_def Let_def)

lemma parse_hex4_value:
  assumes "hex4 h n"
  shows "length h = 4" "parse_hex4 0 h = n" "0 \<le> n" "n < 65536" "\<forall>c \<in> set h. c \<noteq> NUL \<and> c \<noteq> CHR 0x22 \<and> c \<noteq> CHR 0x5C"
proof -
  obtain a b c d where h: "map hex_digit h = [Some a, Some b, Some c, Some d]" "n = 4096 * a + 256 * b + 16 * c + d"
    using assms by (auto simp: hex4_def)
  then obtain h1 h2 h3 h4 where hs: "h = [h1, h2, h3, h4]" by auto
  with h have digits: "hex_digit h1 = Some a" "hex_digit h2 = Some b" "hex_digit h3 = Some c" "hex_digit h4 = Some d" by auto
  note ranges = digits [THEN hex_digit_range]
  show "length h = 4" "0 \<le> n" "n < 65536" using hs h(2) ranges by auto
  show "parse_hex4 0 h = n" using hs digits h(2) by (simp add: push_bit_eq_mult algebra_simps)
  show "\<forall>c \<in> set h. c \<noteq> NUL \<and> c \<noteq> CHR 0x22 \<and> c \<noteq> CHR 0x5C"
    using digits [THEN hex_digit_plain] hs by auto
qed

lemma utf16_single:
  assumes "hex4 h n" and "\<not> (0xD800 \<le> n \<and> n \<le> 0xDFFF)"
  shows "utf16_literal_to_utf8 (CHR 0x5C # CHR ''u'' # h @ t) = Some (6, utf8 n)"
  using parse_hex4_value(1-4) [OF assms(1)] assms(2) encode_utf8_utf8 [of n]
  by (auto simp: utf16_literal_to_utf8_def Let_def)

lemma surrogate_bits:
  fixes n m :: int
  assumes "0xD800 \<le> n" "n \<le> 0xDBFF" "0xDC00 \<le> m" "m \<le> 0xDFFF"
  shows "push_bit 10 (n AND 0x3FF) OR (m AND 0x3FF) = 1024 * (n - 0xD800) + (m - 0xDC00)"
proof -
  have low: "k AND 0x3FF = k mod 1024" for k :: int
    using take_bit_eq_mask [of 10 k] by (simp add: take_bit_eq_mod mask_eq_exp_minus_1)
  have mods: "n mod 1024 = n - 0xD800" "m mod 1024 = m - 0xDC00"
    using assms mod_mult_self1 [of "n - 0xD800" 54 1024] mod_mult_self1 [of "m - 0xDC00" 55 1024] by simp_all
  have "(m - 0xDC00) OR push_bit 10 (n - 0xD800) = (m - 0xDC00) + push_bit 10 (n - 0xD800)"
    using assms by (intro or_eq_plus) auto
  then show ?thesis
    unfolding low mods by (simp add: push_bit_eq_mult or.commute)
qed

lemma utf16_pair:
  assumes "hex4 h n" "0xD800 \<le> n" "n \<le> 0xDBFF" and "hex4 l m" "0xDC00 \<le> m" "m \<le> 0xDFFF"
  shows "utf16_literal_to_utf8 (CHR 0x5C # CHR ''u'' # h @ CHR 0x5C # CHR ''u'' # l @ t) =
    Some (12, utf8 (0x10000 + 1024 * (n - 0xD800) + (m - 0xDC00)))"
proof -
  let ?s = "CHR 0x5C # CHR ''u'' # h @ CHR 0x5C # CHR ''u'' # l @ t"
  note h = parse_hex4_value(1,2) [OF assms(1)] and l = parse_hex4_value(1,2) [OF assms(4)]
  have first: "\<not> length ?s < 6" "take 4 (drop 2 ?s) = h" "drop 6 ?s = CHR 0x5C # CHR ''u'' # l @ t"
    using h(1) by simp_all
  have second: "\<not> length (CHR 0x5C # CHR ''u'' # l @ t) < 6" "take 4 (drop 2 (CHR 0x5C # CHR ''u'' # l @ t)) = l"
    "take 2 (CHR 0x5C # CHR ''u'' # l @ t) = [CHR 0x5C, CHR ''u'']"
    using l(1) by (simp_all add: numeral_2_eq_2)
  have "0x10000 + (1024 * (n - 0xD800) + (m - 0xDC00)) \<le> 0x10FFFF"
    using assms(2,3,5,6) by simp
  moreover have "0 \<le> 0x10000 + (1024 * (n - 0xD800) + (m - 0xDC00))"
    using assms(2,3,5,6) by simp
  ultimately have "encode_utf8 (0x10000 + (push_bit 10 (n AND 0x3FF) OR (m AND 0x3FF))) =
      Some (utf8 (0x10000 + 1024 * (n - 0xD800) + (m - 0xDC00)))"
    unfolding surrogate_bits [OF assms(2,3,5,6)] by (simp only: encode_utf8_utf8 add.assoc)
  moreover have "\<not> (0xDC00 \<le> n \<and> n \<le> 0xDFFF)" "0xD800 \<le> n \<and> n \<le> 0xDBFF" "\<not> (m < 0xDC00 \<or> 0xDFFF < m)"
    using assms(2,3,5,6) by auto
  ultimately show ?thesis
    unfolding utf16_literal_to_utf8_def Let_def first second h(2) l(2)
    by (simp only: first(1) second(1) if_False if_True not_not option.map simp_thms)
qed

lemma find_string_end_plain:
  "\<forall>c \<in> set h. c \<noteq> NUL \<and> c \<noteq> CHR 0x22 \<and> c \<noteq> CHR 0x5C \<Longrightarrow>
    find_string_end (h @ t) = map_option ((+) (length h)) (find_string_end t)"
proof (induction h)
  case Nil
  then show ?case by (cases "find_string_end t") simp_all
next
  case (Cons c h)
  then show ?case by (cases "find_string_end t") simp_all
qed

lemma find_string_end_chars: "json_chars t s \<Longrightarrow> find_string_end (t @ CHR 0x22 # r) = Some (length t)"
proof (induction rule: json_chars.induct)
  case (chars_escape e x t s)
  then show ?case by simp
next
  case (chars_unicode h n t s)
  then show ?case
    using parse_hex4_value [OF chars_unicode(1)] by (simp add: find_string_end_plain)
next
  case (chars_pair h n l m t s)
  then show ?case
    using parse_hex4_value [OF chars_pair(1)] parse_hex4_value [OF chars_pair(4)]
    by (simp add: find_string_end_plain)
qed auto

lemma unescape_Cons:
  "unescape (Suc n) (c # s) =
    (if c \<noteq> CHR 0x5C then and_then (unescape n s) (\<lambda>out. Parsed (c # out))
     else (case s of
       [] \<Rightarrow> Out_of_bounds
     | e # s2 \<Rightarrow>
         if e = CHR ''u''
         then (case utf16_literal_to_utf8 (take (Suc n) (c # s)) of
                 None \<Rightarrow> Failed
               | Some (k, bytes) \<Rightarrow> and_then (unescape (Suc n - k) (drop k (c # s))) (\<lambda>out. Parsed (bytes @ out)))
         else (case escape_value e of
                 None \<Rightarrow> Failed
               | Some x \<Rightarrow> and_then (unescape (Suc n - 2) s2) (\<lambda>out. Parsed (x # out)))))"
  by (subst unescape.simps) simp

lemma unescape_literal:
  assumes "length u = k" and "take 2 u = [CHR 0x5C, CHR ''u'']"
    and "utf16_literal_to_utf8 (u @ t) = Some (k, out)" and "unescape (length t) (t @ r) = Parsed s"
  shows "unescape (k + length t) (u @ t @ r) = Parsed (out @ s)"
proof -
  obtain v where u: "u = CHR 0x5C # CHR ''u'' # v"
    using assms(2) by (cases u; cases "tl u") auto
  have "take (k + length t) (u @ t @ r) = u @ t" "drop k (u @ t @ r) = t @ r" "k \<noteq> 0"
    using assms(1) u by auto
  with assms(3,4) show ?thesis
    by (subst unescape.simps) (simp add: u)
qed

lemma escape_value_u: "escape_value e = Some x \<Longrightarrow> e \<noteq> CHR ''u'' \<and> e \<noteq> NUL"
  by (auto simp: escape_value_def)

lemma unescape_chars: "json_chars t s \<Longrightarrow> unescape (length t) (t @ r) = Parsed s"
proof (induction rule: json_chars.induct)
  case chars_end
  then show ?case by (simp add: unescape.simps)
next
  case (chars_escape e x t s)
  then show ?case using escape_value_u [of e x] by (simp add: unescape_Cons)
next
  case (chars_unicode h n t s)
  then show ?case
    using parse_hex4_value(1) [OF chars_unicode(1)] utf16_single [OF chars_unicode(1,2), of t]
      unescape_literal [of "CHR 0x5C # CHR ''u'' # h" 6 t "utf8 n" r s]
    by (simp add: numeral_2_eq_2)
next
  case (chars_pair h n l m t s)
  then show ?case
    using parse_hex4_value(1) [OF chars_pair(1)] parse_hex4_value(1) [OF chars_pair(4)]
      utf16_pair [OF chars_pair(1-6), of t]
      unescape_literal [of "CHR 0x5C # CHR ''u'' # h @ CHR 0x5C # CHR ''u'' # l" 12 t _ r s]
    by (simp add: numeral_2_eq_2)
qed (auto simp: unescape_Cons)

lemma parse_string_chars:
  assumes "json_chars t s" and "buffer_at_offset b = CHR 0x22 # t @ CHR 0x22 # r"
  shows "parse_string b = Parsed (cstr s, advance (length t + 2) b)"
  using assms unescape_chars [OF assms(1), of "CHR 0x22 # r"] find_string_end_chars [OF assms(1), of r]
  by (simp add: parse_string_def read_first_at)

subsection \<open>Numbers\<close>

lemma after_signs:
  "after_sign (CHR ''+'' # s) = s" "after_sign (CHR ''-'' # s) = s"
  "\<not> is_negative (CHR ''+'' # s)" "is_negative (CHR ''-'' # s)"
  by (simp_all add: after_sign_def is_sign_def is_negative_def)

lemma digits_split:
  assumes "digits ds" and "u = [] \<or> \<not> is_digit (hd u)"
  shows "takeWhile is_digit (ds @ u) = ds" "dropWhile is_digit (ds @ u) = u"
    "after_sign (ds @ u) = ds @ u" "\<not> is_negative (ds @ u)"
proof -
  have all: "\<forall>c \<in> set ds. is_digit c" "ds \<noteq> []" using assms(1) by (auto simp: digits_def list_all_iff)
  show "takeWhile is_digit (ds @ u) = ds" "dropWhile is_digit (ds @ u) = u"
    using all(1) assms(2) by (induction ds) (cases u; auto)+
  obtain c ds' where ds: "ds = c # ds'" "is_digit c" using all by (cases ds) auto
  then have "c \<noteq> CHR ''+''" "c \<noteq> CHR ''-''" by (auto simp: is_digit_def)
  then show "after_sign (ds @ u) = ds @ u" "\<not> is_negative (ds @ u)"
    by (auto simp: ds after_sign_def is_sign_def is_negative_def)
qed

lemma digits_whole: "digits ds \<Longrightarrow> takeWhile is_digit ds = ds" "digits ds \<Longrightarrow> dropWhile is_digit ds = []" "digits ds \<Longrightarrow> ds \<noteq> []"
  using digits_split(1,2) [of ds "[]"] by (simp_all add: digits_def)

lemma exponent_part_value: "json_exponent x e \<Longrightarrow> exponent_part x = (e, [])"
proof (induction rule: json_exponent.induct)
  case (exponent c sign ds)
  have "after_sign (sign @ ds) = ds" "\<not> is_negative (sign @ ds)"
    using exponent(2) digits_split(3,4) [OF exponent(3), of "[]"]
    by (auto simp: after_signs)
  then show ?case
    using exponent(1) by (auto simp: exponent_part_def Let_def digits_whole [OF exponent(3)])
next
  case (negative_exponent c ds)
  have "after_sign (''-'' @ ds) = ds" "is_negative (''-'' @ ds)"
    by (simp_all add: after_signs)
  then show ?case
    using negative_exponent(1) by (auto simp: exponent_part_def Let_def digits_whole [OF negative_exponent(2)])
qed (simp add: exponent_part_def)

lemma exponent_first: "json_exponent x e \<Longrightarrow> x = [] \<or> (\<not> is_digit (hd x) \<and> hd x \<noteq> CHR ''.'')"
  by (auto simp: json_exponent.simps is_digit_def)

lemma fraction_part_value:
  assumes "json_fraction f fs" and "json_exponent x e"
  shows "fraction_part (f @ x) = (fs, x)" "f @ x = [] \<or> \<not> is_digit (hd (f @ x))"
  using assms(1) exponent_first [OF assms(2)] digits_split(1,2) [of fs x]
  by (cases x; auto simp: json_fraction.simps fraction_part_def is_digit_def)+

lemma strtod_number:
  assumes "sign \<in> {[], ''-''}" and "digits ds" and "json_fraction f fs" and "json_exponent x e"
  shows "strtod (sign @ ds @ f @ x) = Some (sign = ''-'', digits_value (ds @ fs), e - int (length fs), [])"
proof -
  note split = digits_split [OF assms(2) fraction_part_value(2) [OF assms(3,4)]]
  have "after_sign (sign @ ds @ f @ x) = ds @ f @ x" "is_negative (sign @ ds @ f @ x) \<longleftrightarrow> sign = ''-''"
    using assms(1) split(3,4) by (auto simp: after_signs)
  then show ?thesis
    using assms(2) split(1,2) fraction_part_value(1) [OF assms(3,4)] exponent_part_value [OF assms(4)]
    by (simp add: strtod_def Let_def digits_def)
qed

lemma number_characters:
  assumes "sign \<in> {[], ''-''}" and "digits ds" and "json_fraction f fs" and "json_exponent x e"
  shows "\<forall>c \<in> set (sign @ ds @ f @ x). is_number_char c"
  using assms by (auto simp: json_fraction.simps json_exponent.simps is_number_char_def digits_def list_all_iff)

definition follow :: "string \<Rightarrow> bool" where
  "follow r \<longleftrightarrow> r \<noteq> [] \<and> \<not> is_number_char (hd r)"

lemma number_prefix:
  assumes "\<forall>c \<in> set t. is_number_char c" and "length t \<le> 63" and "follow r"
  shows "takeWhile is_number_char (take 63 (t @ r)) = t"
  using assms by (cases "length t = 63"; cases r) (auto simp: takeWhile_append follow_def take_Cons' takeWhile_eq_all_conv)

lemma parse_number_text:
  assumes "json_number t v" and "buffer_at_offset b = t @ r" and "follow r"
  shows "parse_number b = Parsed (jnumber v, advance (length t) b)"
proof -
  obtain sign ds f fs x e where t: "t = sign @ ds @ f @ x" "sign \<in> {[], ''-''}" "digits ds" "json_fraction f fs" "json_exponent x e"
    and v: "v = number_valueint (sign = ''-'') (digits_value (ds @ fs)) (e - int (length fs))" and len: "length t \<le> 63"
    using assms(1) unfolding json_number_def by blast
  have "takeWhile is_number_char (take 63 (buffer_at_offset b)) = t"
    unfolding assms(2) using number_characters [OF t(2-5)] len assms(3) by (intro number_prefix) (auto simp: t(1))
  then show ?thesis
    using strtod_number [OF t(2-5)] by (simp add: parse_number_def t(1) v)
qed

lemma number_start:
  assumes "json_number t v"
  shows "\<exists>c u. t = c # u \<and> (c = CHR ''-'' \<or> is_digit c)"
  using assms by (auto simp: json_number_def digits_def neq_Nil_conv)

subsection \<open>Values\<close>

text \<open>The first character of a value.\<close>

definition opens_value :: "char \<Rightarrow> bool" where
  "opens_value c \<longleftrightarrow> 32 < code c \<and> c \<noteq> CHR 0xEF \<and> c \<noteq> CHR '']'' \<and> c \<noteq> CHR ''}''"

lemma number_opens: "c = CHR ''-'' \<or> is_digit c \<Longrightarrow> opens_value c"
  by (auto simp: opens_value_def is_digit_def)

lemma text_start:
  assumes "json_text d t j"
  shows "\<exists>c u. t = c # u \<and> opens_value c"
  using assms
proof (cases rule: json_text.cases)
  case (text_number v)
  then obtain c u where "t = c # u" "c = CHR ''-'' \<or> is_digit c"
    using number_start [of t v] by blast
  then show ?thesis using number_opens [of c] by simp
qed (simp_all add: opens_value_def)

lemma value_start: "json_text d t j \<Longrightarrow> \<exists>c v. t @ u = c # v \<and> opens_value c"
  by (drule text_start) auto

lemma elements_start:
  assumes "json_elements d t js"
  shows "\<exists>w c u. t = w @ c # u \<and> white w \<and> opens_value c"
  using assms
proof (cases rule: json_elements.cases)
  case (last_element w t' j w')
  then show ?thesis using value_start [OF last_element(4), of w'] by blast
next
  case (next_element w t' j w' u js')
  then show ?thesis using value_start [OF next_element(4), of "w' @ CHR '','' # u"] by blast
qed

lemma members_start: "json_members d t ms \<Longrightarrow> \<exists>w u. t = w @ CHR 0x22 # u \<and> white w"
  by (erule json_members.cases) auto

lemma follow_white: "white w \<Longrightarrow> \<not> is_number_char c \<Longrightarrow> follow (w @ c # r)"
  using white_codes by (cases w) (auto simp: follow_def)

text \<open>Which branch \<open>parse_value\<close> takes.\<close>

lemma parse_value_at:
  assumes "buffer_at_offset b = c # r" and "c \<notin> set ''nft''"
  shows "parse_value (Suc n) b =
    (if c = CHR 0x22 then and_then (parse_string b) (\<lambda>(s, b). Parsed (jstring s, b))
     else if c = CHR ''-'' \<or> is_digit c then parse_number b
     else if c = CHR ''['' then parse_array (parse_value n) b
     else if c = CHR ''{'' then parse_object (parse_value n) b
     else Failed)"
proof -
  have "looks_at_number b \<longleftrightarrow> c = CHR ''-'' \<or> is_digit c"
    using assms(1) looks_at_iff [of b c] by (auto simp: looks_at_number_def looks_at_def)
  with assms show ?thesis
    unfolding parse_value.simps by (auto simp: reads_literal_iff looks_at_iff)
qed

lemma deeper_closed: "closed (advance n (deeper b)) = advance (Suc n) b"
  by (simp add: closed_def deeper_def advance_def)

lemma step_back_advance: "step_back (advance (Suc n) b) = advance n b"
  by (simp add: step_back_def advance_def)

lemma parse_elements_skips:
  assumes "buffer_skip_whitespace (advance 1 b) = buffer_skip_whitespace (advance 1 b')"
  shows "parse_elements parse n b = parse_elements parse n b'"
  by (cases n) (simp_all add: assms del: One_nat_def)

lemma parse_members_skips:
  assumes "buffer_skip_whitespace (advance 1 b) = buffer_skip_whitespace (advance 1 b')"
  shows "parse_members parse n b = parse_members parse n b'"
  by (cases n) (simp_all add: assms del: One_nat_def)

lemma parse_array_at:
  assumes "buffer_at_offset b = CHR ''['' # w @ c # r" and "white w" and "32 < code c" and "buf_depth b < CJSON_NESTING_LIMIT"
  shows "parse_array parse b =
    (if c = CHR '']'' then Parsed (jarray [], advance (length w + 2) b)
     else and_then (parse_elements parse (length (buf_content b)) (deeper b)) (\<lambda>(items, b).
       if \<not> looks_at b (CHR '']'') then Failed else Parsed (jarray items, closed b)))"
proof -
  let ?c = "advance (Suc (length w)) (deeper b)"
  have skip: "buffer_skip_whitespace (advance 1 (deeper b)) = ?c"
    using skip_white [of "advance 1 (deeper b)" w c r] assms by simp
  moreover have "buffer_skip_whitespace ?c = ?c"
    using skip_white [of ?c "[]" c r] assms by (simp add: white_def)
  then have "parse_elements parse k (advance (length w) (deeper b)) = parse_elements parse k (deeper b)" for k
    using skip by (intro parse_elements_skips) simp
  moreover have "looks_at ?c c" "can_access_at_index ?c 0" "looks_at ?c (CHR '']'') \<longleftrightarrow> c = CHR '']''"
    using assms by (auto simp: looks_at_iff can_access_iff)
  ultimately show ?thesis
    using assms(1,4) unfolding parse_array_def Let_def closed_def [symmetric] deeper_def [symmetric]
    by (simp add: read_first_at deeper_closed step_back_advance del: One_nat_def)
qed

lemma parse_object_at:
  assumes "buffer_at_offset b = CHR ''{'' # w @ c # r" and "white w" and "32 < code c" and "buf_depth b < CJSON_NESTING_LIMIT"
  shows "parse_object parse b =
    (if c = CHR ''}'' then Parsed (jobject [], advance (length w + 2) b)
     else and_then (parse_members parse (length (buf_content b)) (deeper b)) (\<lambda>(items, b).
       if \<not> looks_at b (CHR ''}'') then Failed else Parsed (jobject items, closed b)))"
proof -
  let ?c = "advance (Suc (length w)) (deeper b)"
  have skip: "buffer_skip_whitespace (advance 1 (deeper b)) = ?c"
    using skip_white [of "advance 1 (deeper b)" w c r] assms by simp
  moreover have "buffer_skip_whitespace ?c = ?c"
    using skip_white [of ?c "[]" c r] assms by (simp add: white_def)
  then have "parse_members parse k (advance (length w) (deeper b)) = parse_members parse k (deeper b)" for k
    using skip by (intro parse_members_skips) simp
  moreover have "looks_at ?c c" "can_access_at_index ?c 0" "looks_at ?c (CHR ''}'') \<longleftrightarrow> c = CHR ''}''"
    "looks_at (deeper b) (CHR ''{'')"
    using assms by (auto simp: looks_at_iff can_access_iff)
  ultimately show ?thesis
    using assms(4) unfolding parse_object_def Let_def closed_def [symmetric] deeper_def [symmetric]
    by (simp add: deeper_closed step_back_advance del: One_nat_def deeper_simps(2))
qed

definition parses :: "(parse_buffer \<Rightarrow> (cJSON \<times> parse_buffer) parsed) \<Rightarrow> nat \<Rightarrow> string \<Rightarrow> cJSON \<Rightarrow> bool" where
  "parses parse depth t j \<longleftrightarrow> (\<forall>b r. buffer_at_offset b = t @ r \<longrightarrow> follow r \<longrightarrow> buf_depth b = depth \<longrightarrow>
     parse b = Parsed (j, advance (length t) b))"

text \<open>A value between white space, after one character (a bracket, a comma or a colon).\<close>

lemma value_between:
  assumes "parses parse depth t j" and "json_text d t j" and "white w" and "white w'"
    and "buffer_at_offset b = x # w @ t @ w' @ c # r" and "32 < code c" and "\<not> is_number_char c" and "buf_depth b = depth"
  shows "parse (buffer_skip_whitespace (advance 1 b)) = Parsed (j, advance (Suc (length w + length t)) b)"
    and "buffer_skip_whitespace (advance (Suc (length w + length t)) b) = advance (Suc (length w + length t + length w')) b"
    and "looks_at (advance (Suc (length w + length t + length w')) b) c' \<longleftrightarrow> c' = c"
proof -
  obtain c0 u where t: "t @ w' @ c # r = c0 # u" "32 < code c0"
    using value_start [OF assms(2), of "w' @ c # r"] by (auto simp: opens_value_def)
  have "buffer_skip_whitespace (advance 1 b) = advance (Suc (length w)) b"
    using skip_white [of "advance 1 b" w c0 u] assms(3,5) t by simp
  moreover have "buffer_at_offset (advance (Suc (length w)) b) = t @ w' @ c # r"
    using assms(5) by simp
  ultimately show "parse (buffer_skip_whitespace (advance 1 b)) = Parsed (j, advance (Suc (length w + length t)) b)"
    using assms(1,8) follow_white [OF assms(4,7)] by (simp add: parses_def)
  show "buffer_skip_whitespace (advance (Suc (length w + length t)) b) = advance (Suc (length w + length t + length w')) b"
    using skip_white [of "advance (Suc (length w + length t)) b" w' c r] assms(4-6) by simp
  show "looks_at (advance (Suc (length w + length t + length w')) b) c' \<longleftrightarrow> c' = c"
    using assms(5) by (auto simp: looks_at_iff)
qed

text \<open>The name of a member and the colon.\<close>

lemma name_between:
  assumes "json_chars n s" and "white w" and "white w'" and "buffer_at_offset b = x # w @ CHR 0x22 # n @ CHR 0x22 # w' @ CHR '':'' # r"
  shows "parse_string (buffer_skip_whitespace (advance 1 b)) = Parsed (cstr s, advance (length w + length n + 3) b)"
    and "buffer_skip_whitespace (advance (length w + length n + 3) b) = advance (length w + length n + length w' + 3) b"
    and "looks_at (advance (length w + length n + length w' + 3) b) (CHR '':'')"
proof -
  have "buffer_skip_whitespace (advance 1 b) = advance (Suc (length w)) b"
    using skip_white [of "advance 1 b" w "CHR 0x22" "n @ CHR 0x22 # w' @ CHR '':'' # r"] assms(2,4) by simp
  moreover have "buffer_at_offset (advance (Suc (length w)) b) = CHR 0x22 # n @ CHR 0x22 # w' @ CHR '':'' # r"
    using assms(4) by simp
  ultimately show "parse_string (buffer_skip_whitespace (advance 1 b)) = Parsed (cstr s, advance (length w + length n + 3) b)"
    using parse_string_chars [OF assms(1)] by (simp add: eval_nat_numeral)
  have at: "buffer_at_offset (advance (length w + length n + 3) b) = w' @ CHR '':'' # r"
    using assms(4) by (simp add: eval_nat_numeral)
  show "buffer_skip_whitespace (advance (length w + length n + 3) b) = advance (length w + length n + length w' + 3) b"
    using skip_white [OF at assms(3)] by (simp add: add.commute add.left_commute)
  have "drop (length w + length n + length w' + 3) s = drop (length w') (drop (length w + length n + 3) s)" for s :: string
    by (simp add: add.commute add.left_commute)
  then have "buffer_at_offset (advance (length w + length n + length w' + 3) b) = CHR '':'' # r"
    using at by (simp del: drop_drop)
  then show "looks_at (advance (length w + length n + length w' + 3) b) (CHR '':'')"
    by (simp add: looks_at_iff)
qed

definition room :: "nat \<Rightarrow> nat \<Rightarrow> nat \<Rightarrow> bool" where
  "room n depth d \<longleftrightarrow> depth + d \<le> CJSON_NESTING_LIMIT \<and> CJSON_NESTING_LIMIT < n + depth"

lemma room_inside: "room n depth (Suc d) \<Longrightarrow> \<exists>m. n = Suc m \<and> room m (Suc depth) d \<and> depth < CJSON_NESTING_LIMIT"
  by (cases n) (auto simp: room_def)

lemma room_Suc: "room n depth d \<Longrightarrow> \<exists>m. n = Suc m"
  by (cases n) (auto simp: room_def)

definition parses_elements :: "(parse_buffer \<Rightarrow> (cJSON \<times> parse_buffer) parsed) \<Rightarrow> nat \<Rightarrow> string \<Rightarrow> cJSON list \<Rightarrow> bool" where
  "parses_elements parse depth t js \<longleftrightarrow> (\<forall>k b x r. buffer_at_offset b = x # t @ CHR '']'' # r \<longrightarrow> buf_depth b = depth \<longrightarrow>
     length t \<le> k \<longrightarrow> parse_elements parse k b = Parsed (js, advance (Suc (length t)) b))"

definition parses_members :: "(parse_buffer \<Rightarrow> (cJSON \<times> parse_buffer) parsed) \<Rightarrow> nat \<Rightarrow> string \<Rightarrow> (string \<times> cJSON) list \<Rightarrow> bool" where
  "parses_members parse depth t ms \<longleftrightarrow> (\<forall>k b x r. buffer_at_offset b = x # t @ CHR ''}'' # r \<longrightarrow> buf_depth b = depth \<longrightarrow>
     length t \<le> k \<longrightarrow> parse_members parse k b = Parsed (ms, advance (Suc (length t)) b))"

lemma bracket_codes: "\<not> is_number_char (CHR '']'')" "\<not> is_number_char (CHR ''}'')" "\<not> is_number_char (CHR '','')"
  by (simp_all add: is_number_char_def is_digit_def)

lemma last_element_parses:
  assumes "parses parse depth t j" and "json_text d t j" and "white w" and "white w'"
  shows "parses_elements parse depth (w @ t @ w') [j]"
  unfolding parses_elements_def
proof (intro allI impI)
  fix k b x r
  assume b: "buffer_at_offset b = x # (w @ t @ w') @ CHR '']'' # r" "buf_depth b = depth" "length (w @ t @ w') \<le> k"
  then obtain k' where "k = Suc k'"
    using text_start [OF assms(2)] by (cases k) auto
  with value_between [OF assms, of b x "CHR '']''" r] b bracket_codes
  show "parse_elements parse k b = Parsed ([j], advance (Suc (length (w @ t @ w'))) b)"
    by (simp add: Let_def add.assoc del: One_nat_def)
qed

lemma next_element_parses:
  assumes "parses parse depth t j" and "json_text d t j" and "white w" and "white w'" and "parses_elements parse depth u js"
  shows "parses_elements parse depth (w @ t @ w' @ CHR '','' # u) (j # js)"
  unfolding parses_elements_def
proof (intro allI impI)
  fix k b x r
  assume b: "buffer_at_offset b = x # (w @ t @ w' @ CHR '','' # u) @ CHR '']'' # r" "buf_depth b = depth"
    "length (w @ t @ w' @ CHR '','' # u) \<le> k"
  then obtain k' where k: "k = Suc k'" "length u \<le> k'"
    by (cases k) auto
  let ?b = "advance (Suc (length w + length t + length w')) b"
  have "buffer_at_offset ?b = CHR '','' # u @ CHR '']'' # r" using b(1) by simp
  with assms(5) b(2) k(2) have "parse_elements parse k' ?b = Parsed (js, advance (Suc (length u)) ?b)"
    by (simp add: parses_elements_def)
  with k(1) value_between [OF assms(1-4), of b x "CHR '',''" "u @ CHR '']'' # r"] b bracket_codes
  show "parse_elements parse k b = Parsed (j # js, advance (Suc (length (w @ t @ w' @ CHR '','' # u))) b)"
    by (simp add: Let_def add.assoc del: One_nat_def)
qed

lemma drop_length_append: "drop (length xs) (xs @ ys) = ys"
  by simp

lemma member_parses:
  assumes "json_chars n s" and "white w" and "white w'"
    and "parses parse depth t j" and "json_text d t j" and "white x" and "white x'"
    and b: "buffer_at_offset b = y # w @ CHR 0x22 # n @ CHR 0x22 # w' @ CHR '':'' # x @ t @ x' @ c # r"
    and "32 < code c" and "\<not> is_number_char c" and "buf_depth b = depth"
    and i: "i = Suc (length (w @ CHR 0x22 # n @ CHR 0x22 # w' @ CHR '':'' # x @ t @ x'))"
  shows "parse_members parse (Suc k) b =
    (if c = CHR '',''
     then and_then (parse_members parse k (advance i b)) (\<lambda>(items, b). Parsed ((cstr s, j) # items, b))
     else Parsed ([(cstr s, j)], advance i b))"
proof -
  let ?c = "advance (length w + length n + length w' + 3) b"
  have "buffer_at_offset ?c = drop (length w' + (length w + (length n + 3))) (buffer_at_offset b)"
    by (simp add: add.commute add.left_commute)
  also have "\<dots> = CHR '':'' # x @ t @ x' @ c # r"
    unfolding b by (simp add: eval_nat_numeral flip: drop_drop)
  finally have "buffer_at_offset ?c = CHR '':'' # x @ t @ x' @ c # r" .
  note item = value_between [OF assms(4-7) this assms(9,10)]
  have "i = length w + length n + length w' + 3 + Suc (length x + length t + length x')"
    unfolding i by simp
  then show ?thesis
    using name_between [OF assms(1-3) b] item assms(11)
    by (simp add: Let_def del: One_nat_def)
qed

lemma last_member_parses:
  assumes "json_chars n s" and "white w" and "white w'"
    and "parses parse depth t j" and "json_text d t j" and "white x" and "white x'"
  shows "parses_members parse depth (w @ CHR 0x22 # n @ CHR 0x22 # w' @ CHR '':'' # x @ t @ x') [(cstr s, j)]"
  unfolding parses_members_def
proof (intro allI impI)
  fix k b y r
  let ?t = "w @ CHR 0x22 # n @ CHR 0x22 # w' @ CHR '':'' # x @ t @ x'"
  assume b: "buffer_at_offset b = y # ?t @ CHR ''}'' # r" "buf_depth b = depth" "length ?t \<le> k"
  then obtain k' where "k = Suc k'" by (cases k) auto
  with member_parses [OF assms, of b y "CHR ''}''" r "Suc (length ?t)" k'] b bracket_codes
  show "parse_members parse k b = Parsed ([(cstr s, j)], advance (Suc (length ?t)) b)" by simp
qed

lemma next_member_parses:
  assumes "json_chars n s" and "white w" and "white w'"
    and "parses parse depth t j" and "json_text d t j" and "white x" and "white x'" and "parses_members parse depth u ms"
  shows "parses_members parse depth (w @ CHR 0x22 # n @ CHR 0x22 # w' @ CHR '':'' # x @ t @ x' @ CHR '','' # u) ((cstr s, j) # ms)"
  unfolding parses_members_def
proof (intro allI impI)
  fix k b y r
  let ?t = "w @ CHR 0x22 # n @ CHR 0x22 # w' @ CHR '':'' # x @ t @ x'"
  assume "buffer_at_offset b = y # (w @ CHR 0x22 # n @ CHR 0x22 # w' @ CHR '':'' # x @ t @ x' @ CHR '','' # u) @ CHR ''}'' # r"
    and depth: "buf_depth b = depth"
    and length: "length (w @ CHR 0x22 # n @ CHR 0x22 # w' @ CHR '':'' # x @ t @ x' @ CHR '','' # u) \<le> k"
  then have b: "buffer_at_offset b = y # ?t @ CHR '','' # u @ CHR ''}'' # r" by simp
  obtain k' where k: "k = Suc k'" "length u \<le> k'" using length by (cases k) auto
  let ?b = "advance (Suc (length ?t)) b"
  have "buffer_at_offset ?b = CHR '','' # u @ CHR ''}'' # r"
    unfolding at_advance b by (simp only: drop_Suc_Cons drop_length_append)
  with assms(8) depth k(2) have rest: "parse_members parse k' ?b = Parsed (ms, advance (Suc (length u)) ?b)"
    by (simp only: parses_members_def advance_simps)
  have "advance (Suc (length u)) ?b =
      advance (Suc (length (w @ CHR 0x22 # n @ CHR 0x22 # w' @ CHR '':'' # x @ t @ x' @ CHR '','' # u))) b"
    by simp
  with k(1) member_parses [OF assms(1-7), of b y "CHR '',''" "u @ CHR ''}'' # r" "Suc (length ?t)" k'] b depth bracket_codes rest
  show "parse_members parse k b = Parsed ((cstr s, j) # ms,
      advance (Suc (length (w @ CHR 0x22 # n @ CHR 0x22 # w' @ CHR '':'' # x @ t @ x' @ CHR '','' # u))) b)"
    by (simp del: advance_simps(5) parse_members.simps)
qed

lemma array_parses:
  assumes "parses_elements (parse_value m) (Suc depth) t js" and "json_elements d t js" and "depth < CJSON_NESTING_LIMIT"
  shows "parses (parse_value (Suc m)) depth (CHR ''['' # t @ '']'') (jarray js)"
  unfolding parses_def
proof (intro allI impI)
  fix b r
  assume b: "buffer_at_offset b = (CHR ''['' # t @ '']'') @ r" "buf_depth b = depth"
  obtain w c u where t: "t = w @ c # u" "white w" "opens_value c"
    using elements_start [OF assms(2)] by blast
  have "length t \<le> length (buf_content b)"
    using arg_cong [OF b(1), of length] by (simp add: buffer_at_offset_def)
  then have "parse_elements (parse_value m) (length (buf_content b)) (deeper b) = Parsed (js, advance (Suc (length t)) (deeper b))"
    using assms(1) b by (simp add: parses_elements_def)
  moreover have "looks_at (advance (Suc (length t)) (deeper b)) (CHR '']'')"
    using b(1) by (simp add: looks_at_iff)
  ultimately show "parse_value (Suc m) b = Parsed (jarray js, advance (length (CHR ''['' # t @ '']'')) b)"
    using parse_array_at [of b w c "u @ '']'' @ r" "parse_value m"] parse_value_at [of b "CHR ''[''" "t @ '']'' @ r" m]
      b t assms(3)
    by (simp add: opens_value_def deeper_closed is_digit_def)
qed

lemma object_parses:
  assumes "parses_members (parse_value m) (Suc depth) t ms" and "json_members d t ms" and "depth < CJSON_NESTING_LIMIT"
  shows "parses (parse_value (Suc m)) depth (CHR ''{'' # t @ ''}'') (jobject ms)"
  unfolding parses_def
proof (intro allI impI)
  fix b r
  assume b: "buffer_at_offset b = (CHR ''{'' # t @ ''}'') @ r" "buf_depth b = depth"
  obtain w u where t: "t = w @ CHR 0x22 # u" "white w"
    using members_start [OF assms(2)] by blast
  have "length t \<le> length (buf_content b)"
    using arg_cong [OF b(1), of length] by (simp add: buffer_at_offset_def)
  then have "parse_members (parse_value m) (length (buf_content b)) (deeper b) = Parsed (ms, advance (Suc (length t)) (deeper b))"
    using assms(1) b by (simp add: parses_members_def)
  moreover have "looks_at (advance (Suc (length t)) (deeper b)) (CHR ''}'')"
    using b(1) by (simp add: looks_at_iff)
  ultimately show "parse_value (Suc m) b = Parsed (jobject ms, advance (length (CHR ''{'' # t @ ''}'')) b)"
    using parse_object_at [of b w "CHR 0x22" "u @ ''}'' @ r" "parse_value m"] parse_value_at [of b "CHR ''{''" "t @ ''}'' @ r" m]
      b t assms(3)
    by (simp add: deeper_closed is_digit_def)
qed

lemma empty_parses:
  assumes "white w" and "depth < CJSON_NESTING_LIMIT"
  shows "parses (parse_value (Suc m)) depth (CHR ''['' # w @ '']'') (jarray [])"
    and "parses (parse_value (Suc m)) depth (CHR ''{'' # w @ ''}'') (jobject [])"
  unfolding parses_def
  using assms parse_array_at [where w = w and c = "CHR '']''" and parse = "parse_value m"]
    parse_object_at [where w = w and c = "CHR ''}''" and parse = "parse_value m"]
  by (auto simp: parse_value_at is_digit_def)

lemma literal_parses:
  "parses (parse_value (Suc m)) depth ''null'' (CJSON cJSON_NULL [] [] 0 None)"
  "parses (parse_value (Suc m)) depth ''false'' (CJSON cJSON_False [] [] 0 None)"
  "parses (parse_value (Suc m)) depth ''true'' (CJSON cJSON_True [] [] 1 None)"
  by (auto simp: parses_def parse_value.simps reads_literal_iff)

lemma string_parses: "json_chars t s \<Longrightarrow> parses (parse_value (Suc m)) depth (CHR 0x22 # t @ [CHR 0x22]) (jstring (cstr s))"
  by (auto simp: parses_def parse_value_at parse_string_chars)

lemma number_parses:
  assumes "json_number t v"
  shows "parses (parse_value (Suc m)) depth t (jnumber v)"
proof -
  obtain c u where "t = c # u" "c = CHR ''-'' \<or> is_digit c"
    using number_start [OF assms] by blast
  moreover from this have "c \<notin> set ''nft''" "c \<noteq> CHR 0x22" by (auto simp: is_digit_def)
  ultimately show ?thesis
    using parse_number_text [OF assms] by (auto simp: parses_def parse_value_at)
qed

lemma json_parses:
  "json_text d t j \<Longrightarrow> \<forall>n depth. room n depth d \<longrightarrow> parses (parse_value n) depth t j"
  "json_elements d t js \<Longrightarrow> \<forall>n depth. room n depth d \<longrightarrow> parses_elements (parse_value n) depth t js"
  "json_members d t ms \<Longrightarrow> \<forall>n depth. room n depth d \<longrightarrow> parses_members (parse_value n) depth t ms"
proof (induction rule: json_text_json_elements_json_members.inducts)
  case (text_number t v d)
  then show ?case using number_parses room_Suc by blast
next
  case (text_string t s d)
  then show ?case using string_parses room_Suc by blast
next
  case (text_no_elements w d)
  then show ?case using empty_parses(1) room_inside by blast
next
  case (text_no_members w d)
  then show ?case using empty_parses(2) room_inside by blast
next
  case (text_array d t js)
  then show ?case using array_parses room_inside by blast
next
  case (text_object d t ms)
  then show ?case using object_parses room_inside by blast
next
  case (last_element w d t j w')
  then show ?case using last_element_parses by blast
next
  case (next_element w d t j w' u js)
  then show ?case using next_element_parses by blast
next
  case (last_member w n s w' x d t j x')
  then show ?case using last_member_parses by blast
next
  case (next_member w n s w' x d t j x' u ms)
  then show ?case using next_member_parses by blast
qed (use literal_parses room_Suc in blast)+

subsection \<open>Whole texts\<close>

lemma json_chars_no_NUL: "json_chars t s \<Longrightarrow> NUL \<notin> set t"
proof (induction rule: json_chars.induct)
  case (chars_escape e x t s)
  then show ?case using escape_value_u [of e x] by auto
next
  case (chars_unicode h n t s)
  then show ?case using parse_hex4_value(5) [OF chars_unicode(1)] by auto
next
  case (chars_pair h n l m t s)
  then show ?case using parse_hex4_value(5) [OF chars_pair(1)] parse_hex4_value(5) [OF chars_pair(4)] by auto
qed auto

lemma json_number_no_NUL: "json_number t v \<Longrightarrow> NUL \<notin> set t"
  unfolding json_number_def using number_characters number_char_not_NUL by blast

lemma white_no_NUL: "white w \<Longrightarrow> NUL \<notin> set w"
  by (auto simp: white_def)

lemma json_no_NUL:
  "json_text d t j \<Longrightarrow> NUL \<notin> set t" "json_elements d t js \<Longrightarrow> NUL \<notin> set t" "json_members d t ms \<Longrightarrow> NUL \<notin> set t"
  by (induction rule: json_text_json_elements_json_members.inducts)
    (auto simp: white_no_NUL json_number_no_NUL dest: json_chars_no_NUL)

lemma cJSON_Parse_text:
  assumes "json_text CJSON_NESTING_LIMIT t j" and "white w" and "r = [] \<or> \<not> is_number_char (hd r)"
  shows "cJSON_Parse (w @ t @ r) = Some j"
proof -
  obtain c u where t: "t = c # u" "opens_value c" using text_start [OF assms(1)] by blast
  have whole: "cstr (w @ t @ r) @ [NUL] = w @ t @ (cstr r @ [NUL])"
    using json_no_NUL(1) [OF assms(1)] white_no_NUL [OF assms(2)] by (simp add: cstr_append)
  have f: "follow (cstr r @ [NUL])"
    using assms(3) number_char_not_NUL by (cases r) (auto simp: follow_def)
  let ?b = "\<lparr>buf_content = w @ t @ (cstr r @ [NUL]), buf_offset = 0, buf_depth = 0\<rparr>"
  have at: "buffer_at_offset ?b = w @ t @ (cstr r @ [NUL])" by (simp add: buffer_at_offset_def)
  have "hd (w @ t @ (cstr r @ [NUL])) \<noteq> CHR 0xEF"
    using t white_codes [OF assms(2)] by (cases w) (auto simp: opens_value_def)
  then have "take 3 (w @ t @ (cstr r @ [NUL])) \<noteq> [CHR 0xEF, CHR 0xBB, CHR 0xBF]"
    by (cases "w @ t @ (cstr r @ [NUL])") auto
  then have bom: "skip_utf8_bom ?b = Some ?b" by (simp add: skip_utf8_bom_def at)
  have skip: "buffer_skip_whitespace ?b = advance (length w) ?b"
    using skip_white [OF at [unfolded t append_Cons] assms(2)] t by (simp add: opens_value_def)
  have "room (CJSON_NESTING_LIMIT + 1) 0 CJSON_NESTING_LIMIT" by (simp add: room_def)
  then have "parses (parse_value (CJSON_NESTING_LIMIT + 1)) 0 t j" using json_parses(1) [OF assms(1)] by blast
  moreover have "buffer_at_offset (advance (length w) ?b) = t @ (cstr r @ [NUL])" using at by simp
  ultimately have "parse_value (CJSON_NESTING_LIMIT + 1) (advance (length w) ?b) = Parsed (j, advance (length t) (advance (length w) ?b))"
    using f unfolding parses_def by (metis advance_simps(2) parse_buffer.select_convs(3))
  then show ?thesis
    unfolding cJSON_Parse_def parse_text_def cJSON_ParseWithOpts_def cJSON_ParseWithLengthOpts_def whole Let_def bom option.case skip
    by (simp del: One_nat_def)
qed

lemma escape_char_cases:
  "(escape_char c = [c] \<and> c \<noteq> CHR 0x22 \<and> c \<noteq> CHR 0x5C) \<or>
    (\<exists>e. escape_char c = [CHR 0x5C, e] \<and> escape_value e = Some c)"
  by (simp add: escape_char_def escape_value_def)

lemma escape_json_chars: "NUL \<notin> set s \<Longrightarrow> json_chars (escape s) s"
proof (induction s)
  case (Cons c s)
  then have s: "json_chars (escape s) s" "c \<noteq> NUL" by auto
  from escape_char_cases [of c] show ?case
    using chars_plain [OF _ s(1), of c] chars_escape [OF _ s(1)] s(2) by auto
qed (simp add: chars_end)

text \<open>C10: the parser accepts every JSON text nested at most \<open>CJSON_NESTING_LIMIT\<close> deep whose numbers have at
  most 63 characters, white space before it and anything that does not continue a number after
  it, and returns the value of the text: escapes decoded, surrogate pairs to UTF-8, the integer
  part of each number clamped to \<open>int\<close>.\<close>

theorem json_accepted:
  assumes "json_text CJSON_NESTING_LIMIT t j" and "white w" and "r = [] \<or> \<not> is_number_char (hd r)"
  shows "cJSON_Parse (w @ t @ r) = Some j"
  by (rule cJSON_Parse_text [OF assms])

theorem json_accepted_witness:
  "cJSON_Parse ('' '' @ ''[-12, 1e3]'' @ ''garbage'') = Some (jarray [jnumber (- 12), jnumber 1000])"
proof (rule json_accepted)
  have "digits ''12''" "digits ''1''" "digits ''3''" by code_simp+
  then have exponents: "json_exponent ''e3'' 3"
    using exponent [of "CHR ''e''" "[]" "''3''"] by (simp add: digits_value_def)
  have "json_number ''-12'' (number_valueint True 12 0)"
    unfolding json_number_def
    by (intro conjI exI [of _ "''-''"] exI [of _ "''12''"] exI [of _ "[] :: string"] exI [of _ "0 :: int"])
      (use \<open>digits ''12''\<close> no_fraction no_exponent in \<open>simp_all add: digits_value_def\<close>)
  moreover have "number_valueint True 12 0 = - 12" by code_simp
  moreover have "json_number ''1e3'' (number_valueint False 1 3)"
    unfolding json_number_def
    by (intro conjI exI [of _ "[] :: string"] exI [of _ "''1''"] exI [of _ "''e3''"] exI [of _ "3 :: int"])
      (use \<open>digits ''1''\<close> no_fraction exponents in \<open>simp_all add: digits_value_def\<close>)
  moreover have "number_valueint False 1 3 = 1000" by code_simp
  ultimately have numbers: "json_text 999 ''-12'' (jnumber (- 12))" "json_text 999 ''1e3'' (jnumber 1000)"
    using text_number by metis+
  have "json_elements 999 ''-12, 1e3'' [jnumber (- 12), jnumber 1000]"
    using next_element [of "[]" 999 "''-12''" _ "[]", OF _ numbers(1) _ last_element [of "'' ''" 999 "''1e3''" _ "[]", OF _ numbers(2)]]
    by (simp add: white_def)
  from text_array [OF this]
  show "json_text CJSON_NESTING_LIMIT ''[-12, 1e3]'' (jarray [jnumber (- 12), jnumber 1000])"
    by (simp add: CJSON_NESTING_LIMIT_def)
qed (simp_all add: white_def is_number_char_def is_digit_def)

text \<open>What \<open>escape_string\<close> builds is, between quotes, read back by the parser as the very string,
  whatever bytes the string has.\<close>

lemma escape_string_parses:
  assumes "heap_ok h" and "length (cstr s) < 2 ^ 62"
  shows "runs (escape_string s) h
    (\<lambda>b h'. \<exists>t. buf_rep h' b t \<and> cJSON_Parse (CHR 0x22 # t @ [CHR 0x22]) = Some (jstring (cstr s)))"
proof -
  have "json_text CJSON_NESTING_LIMIT (CHR 0x22 # escape (cstr s) @ [CHR 0x22]) (jstring (cstr s))"
    using text_string [OF escape_json_chars [OF cstr_no_NUL], of CJSON_NESTING_LIMIT s] by simp
  from cJSON_Parse_text [OF this, of "[]" "[]"]
  have "cJSON_Parse (CHR 0x22 # escape (cstr s) @ [CHR 0x22]) = Some (jstring (cstr s))" by (simp add: white_def)
  then show ?thesis
    using escape_string_rep [OF assms] by - (rule runs_mono, assumption, blast)
qed

end
