(* ===== verification/GithubSpec.thy ===== *)
theory GithubSpec imports GithubPages JsonGrammar begin

text \<open>
  What the GitHub queries compute when the network answers (\<open>answers\<close> of theory GithubApi): a
  batched query is one function mapped over the repositories, whatever the batches are; a paged
  query is the concatenation of its pages up to the first empty one, and the loop over the pages
  ends if there is one.
\<close>

subsection \<open>Loops\<close>

lemma foldp_batches:
  assumes "I at s" and "at \<le> count"
    and "\<And>at s h. at < count \<Longrightarrow> I at s \<Longrightarrow>
      \<exists>s' h'. step at s e h = (Done s', h') \<and> I (at + worker_count at count) s'"
  shows "\<exists>s' h'. foldp step (batches at count) s e h = (Done s', h') \<and> I count s'"
  using assms(1,2)
proof (induction "count - at" arbitrary: at s h rule: less_induct)
  case less
  show ?case
  proof (cases "at < count")
    case True
    then obtain s1 h1 where s1: "step at s e h = (Done s1, h1)" "I (at + worker_count at count) s1"
      using assms(3) less.prems by blast
    show ?thesis
    proof (cases "at + MAX_WORKER < count")
      case more: True
      then have "worker_count at count = MAX_WORKER" by (simp add: worker_count_def)
      then have "\<exists>s' h'. foldp step (batches (at + MAX_WORKER) count) s1 e h1 = (Done s', h') \<and> I count s'"
        using less.hyps [of "at + MAX_WORKER" s1 h1] s1 more by (simp add: MAX_WORKER_def)
      then show ?thesis using True s1 by (subst batches.simps) simp
    next
      case False
      then have "at + worker_count at count = count" "batches (at + MAX_WORKER) count = []"
        using True by (auto simp: worker_count_def batches.simps)
      then show ?thesis using True s1 by (subst batches.simps) simp
    qed
  qed (use less.prems in \<open>auto simp: batches.simps\<close>)
qed

text \<open>An array that is filled from the front, its rest still zero.\<close>

definition filled :: "(nat \<Rightarrow> 'a) \<Rightarrow> 'a \<Rightarrow> nat \<Rightarrow> nat \<Rightarrow> 'a list" where
  "filled f z count k = map f [0..<k] @ replicate (count - k) z"

lemma filled_update: "k < count \<Longrightarrow> (filled f z count k)[k := f k] = filled f z count (Suc k)"
  by (simp add: filled_def list_update_append Suc_diff_Suc [symmetric] del: Suc_diff_Suc)

lemma filled_skip: "k < count \<Longrightarrow> f k = z \<Longrightarrow> filled f z count k = filled f z count (Suc k)"
  by (simp add: filled_def Suc_diff_Suc [symmetric] replicate_append_same del: Suc_diff_Suc)

lemma filled_case:
  assumes "k < count" and "f k = (case r of Some x \<Rightarrow> u x | None \<Rightarrow> z)"
  shows "(case r of Some x \<Rightarrow> (filled f z count k)[k := u x] | None \<Rightarrow> filled f z count k) = filled f z count (Suc k)"
  using assms filled_update [of k count f z] filled_skip [of k count f z] by (auto split: option.splits)

lemma filled_foldl:
  "k + n \<le> count \<Longrightarrow> foldl (\<lambda>out i. out[k + i := f (k + i)]) (filled f z count k) [0..<n] = filled f z count (k + n)"
  by (induction n) (simp_all add: filled_update)

lemma filled_ends [simp]: "filled f z count 0 = replicate count z" "filled f z count count = map f [0..<count]"
  by (simp_all add: filled_def)

lemma worker_in_range: "i < worker_count at count \<Longrightarrow> at + i < count"
  by (auto simp: worker_count_def)

lemma run_group_all:
  assumes "answers e status body" and "token_fits t" and "\<forall>i < n. fits (path i)"
  shows "\<exists>g h'. run_group n [0..<n] path t e h = (Done g, h') \<and>
    (\<forall>i < n. group_workers g ! i = done_worker status body t (path i))"
  using run_group_answers [OF assms(1,2), of "[0..<n]" n path h] assms(3) by auto

text \<open>The shape of the batched queries: the requests of a batch, then one step for each response.\<close>

lemma batched_query:
  assumes "answers e status body" and "token_fits t" and "\<forall>k < count. fits (path k)"
    and "I 0 s"
    and "\<And>at i (g :: CurlGroup) s h. at + i < count \<Longrightarrow> i < worker_count at count \<Longrightarrow> I (at + i) s \<Longrightarrow>
      group_workers g ! i = done_worker status body t (path (at + i)) \<Longrightarrow>
      \<exists>s' h'. step at g i s e h = (Done s', h') \<and> I (Suc (at + i)) s'"
  shows "\<exists>s' h'. foldp (\<lambda>at s. bd (run_group (worker_count at count) [0..<worker_count at count] (\<lambda>i. path (at + i)) t)
      (\<lambda>g. foldp (step at g) [0..<worker_count at count] s)) (batches 0 count) s e h = (Done s', h') \<and> I count s'"
proof (rule foldp_batches)
  fix at s h
  assume at: "at < count" and I: "I at s"
  let ?n = "worker_count at count"
  have "\<forall>i < ?n. fits (path (at + i))" using assms(3) worker_in_range by blast
  from run_group_all [OF assms(1,2) this, of h]
  obtain g h1 where g: "run_group ?n [0..<?n] (\<lambda>i. path (at + i)) t e h = (Done g, h1)"
    "\<forall>i < ?n. group_workers g ! i = done_worker status body t (path (at + i))"
    by blast
  have "\<exists>s' h'. foldp (step at g) [0..<?n] s e h1 = (Done s', h') \<and> I (at + ?n) s'"
  proof (rule foldp_upto [where I = "\<lambda>i. I (at + i)"])
    fix i s h assume "i < ?n" "I (at + i) s"
    then show "\<exists>s' h'. step at g i s e h = (Done s', h') \<and> I (at + Suc i) s'"
      using assms(5) [of at i s g h] g(2) worker_in_range by simp
  qed (simp add: I)
  then show "\<exists>s' h'. bd (run_group ?n [0..<?n] (\<lambda>i. path (at + i)) t) (\<lambda>g. foldp (step at g) [0..<?n] s) e h =
      (Done s', h') \<and> I (at + ?n) s'"
    by (simp add: g(1))
qed (use assms(4) in simp_all)

subsection \<open>Batched queries\<close>

definition answer_json :: "(string \<Rightarrow> string) \<Rightarrow> string \<Rightarrow> cJSON option" where
  "answer_json body path = cJSON_Parse (cstr (body (full_url path)))"

lemma parse_answer:
  assumes "group_workers g ! i = done_worker status body t path"
  shows "\<exists>h'. parse_response (get_response g i) e h = (Done (answer_json body path), h')"
  using parse_response_Done assms by (simp add: answer_json_def)

definition creation_time :: "cJSON option \<Rightarrow> int" where
  "creation_time json =
     (case string_value (cJSON_GetObjectItemCaseSensitive json ''created_at'') of
        Some s \<Rightarrow> parse_time linux_calender_time_to_time s TIME_ZONE_UTC0 | None \<Rightarrow> 0)"

definition default_branch :: "cJSON option \<Rightarrow> string" where
  "default_branch json =
     (case string_value (cJSON_GetObjectItemCaseSensitive json ''default_branch'') of Some s \<Rightarrow> s | None \<Rightarrow> [])"

definition branch_commit :: "cJSON option \<Rightarrow> GitCommitHash" where
  "branch_commit json =
     (case string_value (cJSON_GetObjectItemCaseSensitive (cJSON_GetObjectItemCaseSensitive json ''commit'') ''sha'') of
        Some s \<Rightarrow> init_git_commit_hash s | None \<Rightarrow> zero_hash)"

lemma map_upt_nth: "map (\<lambda>i. f (xs ! i)) [0..<length xs] = map f xs"
  by (rule nth_equalityI) simp_all

lemma creation_times_run:
  assumes "answers e status body" and "token_fits t" and "\<forall>repo \<in> set repos. fits (repo_path organization repo)"
  shows "\<exists>h'. retrieve_creation_times repos t organization e h =
    (Done (map (\<lambda>repo. creation_time (answer_json body (repo_path organization repo))) repos), h')"
proof -
  let ?f = "\<lambda>k. creation_time (answer_json body (repo_path organization (repos ! k)))"
  have "\<exists>s' h'. retrieve_creation_times repos t organization e h = (Done s', h') \<and>
      s' = filled ?f 0 (length repos) (length repos)"
    unfolding retrieve_creation_times_def Let_def
  proof (rule batched_query [OF assms(1,2), where I = "\<lambda>k s. s = filled ?f 0 (length repos) k"])
    fix at i s h and g :: CurlGroup
    assume k: "at + i < length repos" and s: "s = filled ?f 0 (length repos) (at + i)"
      and g: "group_workers g ! i = done_worker status body t (repo_path organization (repos ! (at + i)))"
    obtain h1 where "parse_response (get_response g i) e h =
        (Done (answer_json body (repo_path organization (repos ! (at + i)))), h1)"
      using parse_answer [OF g] by blast
    then show "\<exists>s' h'. bd (parse_response (get_response g i)) (\<lambda>json.
        pure (case string_value (cJSON_GetObjectItemCaseSensitive json ''created_at'') of
          Some x \<Rightarrow> s[at + i := parse_time linux_calender_time_to_time x TIME_ZONE_UTC0] | None \<Rightarrow> s)) e h =
        (Done s', h') \<and> s' = filled ?f 0 (length repos) (Suc (at + i))"
      using filled_case [OF k creation_time_def, of "\<lambda>j. answer_json body (repo_path organization (repos ! j))"]
      unfolding s by simp
  qed (use assms(3) in simp_all)
  then show ?thesis
    using map_upt_nth [of "\<lambda>repo. creation_time (answer_json body (repo_path organization repo))" repos] by simp
qed

lemma latest_commits_run:
  assumes "answers e status body" and "token_fits t" and "length repos = length branches"
    and "\<forall>(repo, branch) \<in> set (zip repos branches). fits (repo_path organization repo @ ''/branches/'' @ branch)"
  shows "\<exists>h'. retrieve_latest_commits repos branches t organization e h =
    (Done (map (\<lambda>(repo, branch). branch_commit (answer_json body (repo_path organization repo @ ''/branches/'' @ branch)))
       (zip repos branches)), h')"
proof -
  let ?p = "\<lambda>k. repo_path organization (repos ! k) @ ''/branches/'' @ branches ! k"
  let ?f = "\<lambda>k. branch_commit (answer_json body (?p k))"
  have "\<exists>s' h'. retrieve_latest_commits repos branches t organization e h = (Done s', h') \<and>
      s' = filled ?f zero_hash (length repos) (length repos)"
    unfolding retrieve_latest_commits_def Let_def assms(3) [symmetric] simp_thms assertion_simps sq_def skip_def bd_pure
  proof (rule batched_query [OF assms(1,2), where I = "\<lambda>k s. s = filled ?f zero_hash (length repos) k"])
    fix at i s h and g :: CurlGroup
    assume k: "at + i < length repos" and s: "s = filled ?f zero_hash (length repos) (at + i)"
      and g: "group_workers g ! i = done_worker status body t (?p (at + i))"
    obtain h1 where "parse_response (get_response g i) e h = (Done (answer_json body (?p (at + i))), h1)"
      using parse_answer [OF g] by blast
    then show "\<exists>s' h'. bd (parse_response (get_response g i)) (\<lambda>json.
        pure (case string_value (cJSON_GetObjectItemCaseSensitive
                (cJSON_GetObjectItemCaseSensitive json ''commit'') ''sha'') of
          Some x \<Rightarrow> s[at + i := init_git_commit_hash x] | None \<Rightarrow> s)) e h =
        (Done s', h') \<and> s' = filled ?f zero_hash (length repos) (Suc (at + i))"
      using filled_case [OF k branch_commit_def, of "\<lambda>j. answer_json body (?p j)"]
      unfolding s by simp
  qed (use assms(3,4) in \<open>auto simp: set_zip\<close>)
  moreover have "map ?f [0..<length repos] = map (\<lambda>(repo, branch). branch_commit (answer_json body
      (repo_path organization repo @ ''/branches/'' @ branch))) (zip repos branches)"
    using assms(3) by (intro nth_equalityI) simp_all
  ultimately show ?thesis by simp
qed

lemma default_branches_run:
  assumes "answers e status body" and "token_fits t" and "\<forall>repo \<in> set repos. fits (repo_path organization repo)"
  shows "\<exists>h'. retrieve_default_branches repos t organization e h =
    (Done (map (\<lambda>repo. default_branch (answer_json body (repo_path organization repo))) repos), h')"
proof -
  let ?p = "\<lambda>k. repo_path organization (repos ! k)"
  let ?f = "\<lambda>k. default_branch (answer_json body (?p k))"
  let ?step = "\<lambda>g i result. bd (parse_response (get_response g i)) (\<lambda>json.
         case string_value (cJSON_GetObjectItemCaseSensitive json ''default_branch'') of
           Some s \<Rightarrow> pure (result @ [s])
         | None \<Rightarrow> sq (write_error (''Can'' @ [CHR 0x27] @ ''t find default branch for '' @ quoted (organization @ ''/'' @ repos ! i)))
                       (pure (result @ [[]])))"
  have "\<exists>s' h'. foldp (\<lambda>at s. bd (run_group (worker_count at (length repos)) [0..<worker_count at (length repos)]
        (\<lambda>i. ?p (at + i)) t) (\<lambda>g. foldp (?step g) [0..<worker_count at (length repos)] s))
      (batches 0 (length repos)) [] e h = (Done s', h') \<and> s' = map ?f [0..<length repos]"
  proof (rule batched_query [OF assms(1,2), where I = "\<lambda>k s. s = map ?f [0..<k]"])
    fix at i s h and g :: CurlGroup
    assume k: "at + i < length repos" and s: "s = map ?f [0..<at + i]"
      and g: "group_workers g ! i = done_worker status body t (?p (at + i))"
    obtain h1 where "parse_response (get_response g i) e h = (Done (answer_json body (?p (at + i))), h1)"
      using parse_answer [OF g] by blast
    then show "\<exists>s' h'. ?step g i s e h = (Done s', h') \<and> s' = map ?f [0..<Suc (at + i)]"
      by (auto simp: s default_branch_def split: option.split)
  qed (use assms(3) in simp_all)
  then show ?thesis
    using map_upt_nth [of "\<lambda>repo. default_branch (answer_json body (repo_path organization repo))" repos]
    by (auto simp: retrieve_default_branches_def Let_def)
qed

text \<open>The users of a batch are asked for by their place in the batch: the URL has \<open>users->elem[i]\<close>
  where the result goes to \<open>out[at + i]\<close>.\<close>

lemma users_exist_run:
  assumes "answers e status body" and "token_fits t" and "\<forall>user \<in> set users. fits (user_path user)"
  shows "\<exists>h'. github_users_exist users t e h =
    (Done (map (\<lambda>k. status (full_url (user_path (users ! (k mod MAX_WORKER)))) < 400) [0..<length users]), h')"
proof -
  let ?f = "\<lambda>k. status (full_url (user_path (users ! (k mod MAX_WORKER)))) < 400"
  let ?n = "\<lambda>at. worker_count at (length users)"
  let ?I = "\<lambda>k out. out = filled ?f False (length users) k \<and> (k mod MAX_WORKER = 0 \<or> k = length users)"
  note set_all = filled_foldl [where f = ?f and z = False and count = "length users"]
  have "\<exists>s' h'. github_users_exist users t e h = (Done s', h') \<and> ?I (length users) s'"
    unfolding github_users_exist_def Let_def
  proof (rule foldp_batches [where I = ?I])
    fix at s h
    assume at: "at < length users" and I: "?I at s"
    have m: "at mod MAX_WORKER = 0" and n: "?n at \<le> MAX_WORKER" "at + ?n at \<le> length users"
      using at I by (auto simp: worker_count_def)
    have "\<forall>i < ?n at. fits (user_path (users ! i))"
      using assms(3) n(2) by simp
    from run_group_all [OF assms(1,2) this, of h]
    obtain g h1 where g: "run_group (?n at) [0..<?n at] (\<lambda>i. user_path (users ! i)) t e h = (Done g, h1)"
      "\<forall>i < ?n at. group_workers g ! i = done_worker status body t (user_path (users ! i))"
      by blast
    have "(worker_status (group_workers g ! i) < 400) = ?f (at + i)" if "i < ?n at" for i
    proof -
      have "(at + i) mod MAX_WORKER = i" using m n that by (simp add: mod_add_left_eq [symmetric])
      then show ?thesis using g(2) that by (simp add: done_worker_def)
    qed
    then have "foldl (\<lambda>out i. out[at + i := worker_status (group_workers g ! i) < 400]) s [0..<?n at] =
        foldl (\<lambda>out i. out[at + i := ?f (at + i)]) s [0..<?n at]"
      by (intro foldl_cong) simp_all
    then have "foldl (\<lambda>out i. out[at + i := worker_status (group_workers g ! i) < 400]) s [0..<?n at] =
        filled ?f False (length users) (at + ?n at)"
      using set_all [of at "?n at"] n I by simp
    moreover have "(at + ?n at) mod MAX_WORKER = 0 \<or> at + ?n at = length users"
      using m at by (auto simp: worker_count_def min_def)
    ultimately show "\<exists>s' h'. bd (run_group (?n at) [0..<?n at] (\<lambda>i. user_path (users ! i)) t) (\<lambda>grp.
        pure (foldl (\<lambda>out i. out[at + i := worker_status (group_workers grp ! i) < 400]) s [0..<?n at])) e h =
        (Done s', h') \<and> ?I (at + ?n at) s'"
      by (simp add: g(1))
  qed simp_all
  then show ?thesis by auto
qed

subsection \<open>Paged queries\<close>

definition page_items :: "(string \<Rightarrow> string) \<Rightarrow> string \<Rightarrow> cJSON list" where
  "page_items body path = cJSON_children (answer_json body path)"

text \<open>
  What a paged query needs of its client: how many pages a round asks for, and that a page appends
  the strings picked from its items.
\<close>

locale paged =
  fixes n :: nat
    and collect :: "string \<Rightarrow> cJSON list \<Rightarrow> string list \<Rightarrow> string list io"
    and picks :: "cJSON list \<Rightarrow> string list"
  assumes some_pages: "0 < n"
    and collect_picks: "\<exists>h'. collect response items result e h = (Done (result @ picks items), h')"
    and picks_Nil: "picks [] = []"
begin

lemma read_pages_run:
  assumes "\<forall>i \<in> set is. group_workers grp ! i = done_worker status body t (path i)"
  shows "\<exists>h'. read_pages collect grp is result e h =
    (Done (result @ concat (map (\<lambda>i. picks (page_items body (path i)))
              (takeWhile (\<lambda>i. page_items body (path i) \<noteq> []) is)),
           \<not> (\<forall>i \<in> set is. page_items body (path i) \<noteq> [])), h')"
  using assms
proof (induction "is" arbitrary: result h)
  case (Cons i "is")
  obtain h1 where h1: "parse_response (get_response grp i) e h = (Done (answer_json body (path i)), h1)"
    using parse_answer [of grp i status body t "path i" e h] Cons.prems by (auto simp del: get_response_done)
  obtain h2 where h2: "collect (get_response grp i) (page_items body (path i)) result e h1 =
      (Done (result @ picks (page_items body (path i))), h2)"
    using collect_picks by blast
  show ?case
  proof (cases "page_items body (path i) = []")
    case True
    then show ?thesis using h1 h2 by (simp add: Let_def page_items_def [symmetric] picks_Nil)
  next
    case False
    have "\<forall>j \<in> set is. group_workers grp ! j = done_worker status body t (path j)" using Cons.prems by simp
    from Cons.IH [OF this, of "result @ picks (page_items body (path i))" h2] False
    show ?thesis using h1 h2 by (auto simp: Let_def page_items_def [symmetric])
  qed
qed simp

lemma pages_loop_run:
  assumes "answers e status body" and "token_fits t"
    and "page_items body (path stop) = []"
  shows "page \<le> stop \<Longrightarrow> stop < page + n * fuel \<Longrightarrow>
    \<forall>p. page \<le> p \<and> p < stop \<longrightarrow> page_items body (path p) \<noteq> [] \<Longrightarrow>
    \<forall>p. page \<le> p \<and> p < stop + n \<longrightarrow> fits (path p) \<Longrightarrow>
    \<exists>h'. pages_loop n path collect t fuel page result e h =
      (Done (result @ concat (map (\<lambda>p. picks (page_items body (path p))) [page..<stop])), h')"
proof (induction fuel arbitrary: page result h)
  case (Suc fuel)
  let ?it = "\<lambda>i. page_items body (path (page + i))"
  have "\<forall>i < n. fits (path (page + i))" using Suc.prems by auto
  from run_group_all [OF assms(1,2) this, of h]
  obtain g h1 where g: "run_group n [0..<n] (\<lambda>i. path (page + i)) t e h = (Done g, h1)"
    "\<forall>i < n. group_workers g ! i = done_worker status body t (path (page + i))"
    by blast
  let ?taken = "takeWhile (\<lambda>i. ?it i \<noteq> []) [0..<n]"
  let ?empty = "\<not> (\<forall>i \<in> set [0..<n]. ?it i \<noteq> [])"
  obtain h2 where h2: "read_pages collect g [0..<n] result e h1 = (Done (result @ concat (map (\<lambda>i. picks (?it i)) ?taken), ?empty), h2)"
    using read_pages_run [of "[0..<n]" g status body t "\<lambda>i. path (page + i)" result e h1] g(2) by auto
  show ?case
  proof (cases "stop < page + n")
    case True
    define k where "k = stop - page"
    have k: "k < n" "stop = page + k" "?it k = []" "\<forall>i < k. ?it i \<noteq> []"
      using True Suc.prems assms(3) by (auto simp: k_def)
    have "[0..<n] = [0..<k] @ k # [Suc k..<n]"
      using k(1) by (metis le0 less_imp_le_nat upt_add_eq_append upt_conv_Cons le_add_diff_inverse)
    then have taken: "?taken = [0..<k]" using k by (simp add: takeWhile_append)
    have "?empty" using k by auto
    moreover have "map (\<lambda>i. picks (?it i)) [0..<k] = map (\<lambda>p. picks (page_items body (path p))) [page..<stop]"
      by (rule nth_equalityI) (simp_all add: k(2))
    ultimately show ?thesis using g(1) h2 by (simp add: taken)
  next
    case False
    then have full: "\<forall>i < n. ?it i \<noteq> []" using Suc.prems by auto
    then have taken: "?taken = [0..<n]" "\<not> ?empty" by (simp_all add: takeWhile_eq_all_conv)
    let ?res = "result @ concat (map (\<lambda>i. picks (?it i)) [0..<n])"
    have "map (\<lambda>p. picks (page_items body (path p))) [page..<stop] =
        map (\<lambda>i. picks (?it i)) [0..<n] @ map (\<lambda>p. picks (page_items body (path p))) [page + n..<stop]"
      using False by (intro nth_equalityI) (auto simp: nth_append)
    moreover obtain h3 where "pages_loop n path collect t fuel (page + n) ?res e h2 =
        (Done (?res @ concat (map (\<lambda>p. picks (page_items body (path p))) [page + n..<stop])), h3)"
      using Suc.IH [of "page + n" ?res h2] Suc.prems False by auto
    ultimately show ?thesis using g(1) h2 taken by simp
  qed
qed simp

lemma retrieve_pages_run:
  assumes "answers e status body" and "token_fits t" and "1 \<le> stop" and "stop \<le> n * loop_fuel e"
    and "page_items body (path stop) = []"
    and "\<forall>p. 1 \<le> p \<and> p < stop \<longrightarrow> page_items body (path p) \<noteq> []"
    and "\<forall>p. 1 \<le> p \<and> p < stop + n \<longrightarrow> fits (path p)"
  shows "\<exists>h'. retrieve_pages n path collect t e h =
    (Done (concat (map (\<lambda>p. picks (page_items body (path p))) [1..<stop])), h')"
  using pages_loop_run [of e status body t path stop 1 "loop_fuel e" "[]" h] assms
  by (simp add: retrieve_pages_def)

end

lemma foldp_picks:
  assumes "\<And>x result h. \<exists>h'. step x result e h =
    (Done (case pick x of Some s \<Rightarrow> result @ [s] | None \<Rightarrow> result), h')"
  shows "\<exists>h'. foldp step items result e h = (Done (result @ List.map_filter pick items), h')"
proof (induction items arbitrary: result h)
  case (Cons x items)
  obtain h1 where "step x result e h = (Done (case pick x of Some s \<Rightarrow> result @ [s] | None \<Rightarrow> result), h1)"
    using assms by blast
  then show ?case
    using Cons.IH [of "case pick x of Some s \<Rightarrow> result @ [s] | None \<Rightarrow> result" h1]
    by (cases "pick x") (auto simp: List.map_filter_simps)
qed (simp add: List.map_filter_simps)

definition login_of :: "cJSON \<Rightarrow> string option" where
  "login_of member = string_value (cJSON_GetObjectItemCaseSensitive (Some member) ''login'')"

definition name_of :: "cJSON \<Rightarrow> string option" where
  "name_of repo = string_value (cJSON_GetObjectItemCaseSensitive (Some repo) ''name'')"

definition name_with_prefix :: "string \<Rightarrow> cJSON \<Rightarrow> string option" where
  "name_with_prefix pre repo =
     (case name_of repo of Some s \<Rightarrow> if prefix (cstr pre) (cstr s) then Some s else None | None \<Rightarrow> None)"

interpretation team_members: paged 4 collect_members "List.map_filter login_of"
proof
  show "\<exists>h'. collect_members response items result e h = (Done (result @ List.map_filter login_of items), h')"
    for response items result e h
    unfolding collect_members_def by (rule foldp_picks) (simp add: login_of_def split: option.split)
qed (simp_all add: List.map_filter_simps)

interpretation invitations: paged 4 collect_invitations "List.map_filter login_of"
proof
  show "\<exists>h'. collect_invitations response items result e h = (Done (result @ List.map_filter login_of items), h')"
    for response items result e h
    unfolding collect_invitations_def by (rule foldp_picks) (simp add: login_of_def split: option.split)
qed (simp_all add: List.map_filter_simps)

interpretation prefixed_repos: paged 8 "collect_repos pre" "List.map_filter (name_with_prefix pre)" for pre
proof
  show "\<exists>h'. collect_repos pre response items result e h =
      (Done (result @ List.map_filter (name_with_prefix pre) items), h')" for response items result e h
    unfolding collect_repos_def
    by (rule foldp_picks)
      (simp add: name_with_prefix_def name_of_def compare_substring_prefix split: option.split)
qed (simp_all add: List.map_filter_simps)

subsection \<open>Properties\<close>

lemma sample_answers: "answers (sample_env body files) (\<lambda>_. 200) body"
  by (simp add: answers_def sample_env_def failonerror_def)

lemma sample_simps [simp]:
  "loop_fuel (sample_env body files) = 100"
  "fopen_read (sample_env body files) h path = files path"
  by (simp_all add: sample_env_def)

text \<open>C19: \<open>retrieve_team_members\<close> gives the logins of all pages up to the first empty one, each page
  once and in order, whatever round of four requests it belongs to; the loop ends once \<open>loop_fuel\<close>
  rounds reach that page.\<close>

theorem retrieve_team_members_pages:
  assumes "answers e status body" and "token_fits t"
    and "1 \<le> stop" and "stop \<le> 4 * loop_fuel e"
    and "page_items body (members_path organization team stop) = []"
    and "\<forall>p. 1 \<le> p \<and> p < stop \<longrightarrow> page_items body (members_path organization team p) \<noteq> []"
    and "\<forall>p. 1 \<le> p \<and> p < stop + 4 \<longrightarrow> fits (members_path organization team p)"
  shows "\<exists>h'. retrieve_team_members t organization team e h =
    (Done (concat (map (\<lambda>p. List.map_filter login_of (page_items body (members_path organization team p)))
             [1..<stop])), h')"
  unfolding retrieve_team_members_def using assms by (rule team_members.retrieve_pages_run)

definition sample_members :: "string \<Rightarrow> string" where
  "sample_members url =
     (if url = full_url (members_path ''org'' ''team'' 1)
      then ''[{\"login\":\"alice\"},{\"login\":\"bob\"}]'' else ''[]'')"

theorem retrieve_team_members_pages_witness:
  "\<exists>h'. retrieve_team_members ''token'' ''org'' ''team'' (sample_env sample_members (\<lambda>_. None)) [] =
    (Done [''alice'', ''bob''], h')"
proof -
  let ?e = "sample_env sample_members (\<lambda>_. None)"
  have items: "page_items sample_members path = cJSON_children (cJSON_Parse (cstr (sample_members (full_url path))))" for path
    by (simp add: page_items_def answer_json_def)
  have two: "cJSON_children (cJSON_Parse (cstr (sample_members (full_url (members_path ''org'' ''team'' 2))))) = []"
    by code_simp
  have logins: "List.map_filter login_of (cJSON_children (cJSON_Parse (cstr (sample_members (full_url (members_path ''org'' ''team'' 1)))))) =
      [''alice'', ''bob'']"
    by code_simp
  have "list_all (\<lambda>p. fits (members_path ''org'' ''team'' p)) [1..<6]" by code_simp
  then have "\<forall>p. 1 \<le> p \<and> p < 2 + 4 \<longrightarrow> fits (members_path ''org'' ''team'' p)"
    by (auto simp: list_all_iff)
  moreover have "token_fits ''token''" by code_simp
  moreover have "\<forall>p. 1 \<le> p \<and> p < 2 \<longrightarrow> page_items sample_members (members_path ''org'' ''team'' p) \<noteq> []"
    using logins by (auto simp: items List.map_filter_simps dest!: less_2_cases)
  ultimately show ?thesis
    using retrieve_team_members_pages [of ?e "\<lambda>_. 200" sample_members "''token''" 2 "''org''" "''team''" "[]"]
    using two logins sample_answers by (simp add: items numeral_2_eq_2)
qed

text \<open>\<open>retrieve_repos_by_prefix\<close> gives exactly the names with the prefix on the pages up to the
  first empty one, in order.\<close>

lemma retrieve_repos_by_prefix_pages:
  assumes "answers e status body" and "token_fits t"
    and "1 \<le> stop" and "stop \<le> 8 * loop_fuel e"
    and "page_items body (repos_path organization stop) = []"
    and "\<forall>p. 1 \<le> p \<and> p < stop \<longrightarrow> page_items body (repos_path organization p) \<noteq> []"
    and "\<forall>p. 1 \<le> p \<and> p < stop + 8 \<longrightarrow> fits (repos_path organization p)"
  shows "\<exists>h'. retrieve_repos_by_prefix t organization pre e h =
    (Done (filter (\<lambda>name. prefix (cstr pre) (cstr name))
       (concat (map (\<lambda>p. List.map_filter name_of (page_items body (repos_path organization p))) [1..<stop]))), h')"
proof -
  have "List.map_filter (name_with_prefix pre) items =
      filter (\<lambda>name. prefix (cstr pre) (cstr name)) (List.map_filter name_of items)" for items
    by (induction items) (auto simp: List.map_filter_simps name_with_prefix_def split: option.split)
  then show ?thesis
    using prefixed_repos.retrieve_pages_run [OF assms, of pre h]
    by (simp add: retrieve_repos_by_prefix_def filter_concat comp_def)
qed

definition sample_repos :: "string \<Rightarrow> string" where
  "sample_repos url =
     (if url = full_url (repos_path ''org'' 1)
      then ''[{\"name\":\"hw1-alice\"}, {\"name\":\"slides\"}]'' else ''[]'')"

text \<open>C20: the batches make no difference: for each repository, in order, \<open>retrieve_creation_times\<close>,
  \<open>retrieve_default_branches\<close> and \<open>retrieve_latest_commits\<close> give what its own response says.\<close>

theorem batched_queries_map:
  assumes "answers e status body" and "token_fits t"
    and "\<forall>repo \<in> set repos. fits (repo_path organization repo)"
    and "length repos = length branches"
    and "\<forall>(repo, branch) \<in> set (zip repos branches). fits (repo_path organization repo @ ''/branches/'' @ branch)"
  shows "(\<exists>h'. retrieve_creation_times repos t organization e h =
      (Done (map (\<lambda>repo. creation_time (answer_json body (repo_path organization repo))) repos), h'))
    \<and> (\<exists>h'. retrieve_default_branches repos t organization e h =
      (Done (map (\<lambda>repo. default_branch (answer_json body (repo_path organization repo))) repos), h'))
    \<and> (\<exists>h'. retrieve_latest_commits repos branches t organization e h =
      (Done (map (\<lambda>(repo, branch). branch_commit
         (answer_json body (repo_path organization repo @ ''/branches/'' @ branch))) (zip repos branches)), h'))"
  using creation_times_run [OF assms(1,2,3)] default_branches_run [OF assms(1,2,3)]
    latest_commits_run [OF assms(1,2,4,5)] by blast

definition sample_repo :: "string \<Rightarrow> string" where
  "sample_repo url =
     (if url = full_url (repo_path ''org'' ''hw1-bob'')
      then ''{\"created_at\":\"2024-03-01T12:00:00Z\",\"default_branch\":\"main\"}'' else ''{}'')"

theorem batched_queries_map_witness:
  "\<exists>h'. retrieve_default_branches [''hw1-alice'', ''hw1-bob''] ''token'' ''org'' (sample_env sample_repo (\<lambda>_. None)) [] =
    (Done [[], ''main''], h')"
proof -
  let ?e = "sample_env sample_repo (\<lambda>_. None)"
  have json: "answer_json sample_repo path = cJSON_Parse (cstr (sample_repo (full_url path)))" for path
    by (simp add: answer_json_def)
  have "default_branch (cJSON_Parse (cstr (sample_repo (full_url (repo_path ''org'' ''hw1-alice''))))) = []"
    "default_branch (cJSON_Parse (cstr (sample_repo (full_url (repo_path ''org'' ''hw1-bob''))))) = ''main''"
    by code_simp+
  moreover have "token_fits ''token''" "fits (repo_path ''org'' ''hw1-alice'')" "fits (repo_path ''org'' ''hw1-bob'')"
    "fits (repo_path ''org'' ''hw1-alice'' @ ''/branches/'' @ ''main'')" "fits (repo_path ''org'' ''hw1-bob'' @ ''/branches/'' @ ''main'')"
    by code_simp+
  ultimately show ?thesis
    using batched_queries_map [of ?e "\<lambda>_. 200" sample_repo "''token''" "[''hw1-alice'', ''hw1-bob'']" "''org''" "[''main'', ''main'']" "[]"]
      sample_answers by (simp add: json)
qed

text \<open>C21: with more than 64 users, \<open>github_users_exist\<close> answers for the wrong ones: the entry of a user is
  what GitHub says of the user at the same place of the first batch. A user GitHub does not know is the
  response 404, with which libcurl lets the transfer fail; the code looks at the status alone.\<close>

theorem github_users_exist_wraps:
  assumes "answers e status body" and "token_fits t" and "\<forall>user \<in> set users. fits (user_path user)"
  shows "\<exists>h'. github_users_exist users t e h =
    (Done (map (\<lambda>k. status (full_url (user_path (users ! (k mod 64)))) < 400) [0..<length users]), h')"
  using users_exist_run [OF assms] by (simp add: MAX_WORKER_def)

theorem github_users_exist_wraps_witness:
  "\<exists>h' out. github_users_exist (replicate 64 ''alice'' @ [''nobody'']) ''token''
      ((sample_env id (\<lambda>_. None))\<lparr>transfers := \<lambda>h i r.
        \<lparr>transfer_status = if req_url r = full_url (user_path ''nobody'') then 404 else 200,
         transfer_body = [], transfer_result = Some (if req_url r = full_url (user_path ''nobody'') then 22 else 0)\<rparr>\<rparr>) [] =
      (Done out, h') \<and> out ! 64"
proof -
  let ?status = "\<lambda>url. if url = full_url (user_path ''nobody'') then 404 else 200 :: int"
  let ?e = "(sample_env id (\<lambda>_. None))\<lparr>transfers := \<lambda>h i r.
        \<lparr>transfer_status = if req_url r = full_url (user_path ''nobody'') then 404 else 200,
         transfer_body = [], transfer_result = Some (if req_url r = full_url (user_path ''nobody'') then 22 else 0)\<rparr>\<rparr>"
  let ?users = "replicate 64 ''alice'' @ [''nobody'']"
  have "answers ?e ?status (\<lambda>_. [])"
    by (simp add: answers_def sample_env_def failonerror_def CURLE_HTTP_RETURNED_ERROR_def)
  moreover have "token_fits ''token''" "fits (user_path ''alice'')" "fits (user_path ''nobody'')" by code_simp+
  moreover have "full_url (user_path ''alice'') \<noteq> full_url (user_path ''nobody'')" by code_simp
  ultimately show ?thesis
    using github_users_exist_wraps [of ?e ?status "\<lambda>_. []" "''token''" ?users "[]"]
    by (fastforce simp: nth_append nth_append_length)
qed

lemma plain_chars: "set s \<inter> {NUL, CHR 0x22, CHR 0x5C} = {} \<Longrightarrow> json_chars s s"
  by (induction s) (auto intro: chars_end chars_plain)

definition plain_text :: "string \<Rightarrow> bool" where
  "plain_text s \<longleftrightarrow> set s \<inter> {NUL, CHR 0x22, CHR 0x5C} = {}"

text \<open>The members of an issue after the title.\<close>

lemma plain_member:
  assumes "plain_text k" and "plain_text v" and "json_members 999 rest members"
  shows "json_members 999 (CHR 0x22 # k @ CHR 0x22 # CHR '':'' # (CHR 0x22 # v @ [CHR 0x22]) @ CHR '','' # rest)
    ((k, jstring v) # members)"
proof -
  have kv: "json_chars k k" "json_chars v v" and v: "cstr v = v" "cstr k = k"
    using assms(1,2) by (auto simp: plain_text_def intro: plain_chars cstr_id)
  have "json_text 999 (CHR 0x22 # v @ [CHR 0x22]) (jstring v)"
    using text_string [OF kv(2), of 999] v by simp
  from next_member [of "[]" k k "[]" "[]" _ _ _ "[]", OF _ kv(1) _ _ this _ assms(3)] show ?thesis
    using v by (simp add: white_def)
qed

lemma issue_members:
  "json_members 999
    (CHR 0x22 # ''body'' @ CHR 0x22 # CHR '':'' # (CHR 0x22 # escape (cstr body) @ [CHR 0x22]) @ CHR '','' #
     CHR 0x22 # ''state'' @ CHR 0x22 # CHR '':'' # (CHR 0x22 # ''open'' @ [CHR 0x22]))
    [(''body'', jstring (cstr body)), (''state'', jstring ''open'')]"
proof -
  note member = last_member [of "[]" _ _ "[]" "[]" _ _ _ "[]"] next_member [of "[]" _ _ "[]" "[]" _ _ _ "[]"]
  have keys: "json_chars ''body'' ''body''" "json_chars ''state'' ''state''" "json_chars ''open'' ''open''"
    by (rule plain_chars, simp)+
  have body: "json_text 999 (CHR 0x22 # escape (cstr body) @ [CHR 0x22]) (jstring (cstr body))"
    using text_string [OF escape_json_chars [OF cstr_no_NUL], of 999 body] by simp
  have state: "json_text 999 (CHR 0x22 # ''open'' @ [CHR 0x22]) (jstring ''open'')"
    using text_string [OF keys(3), of 999] by simp
  show ?thesis
    using member(2) [OF _ keys(1) _ _ body _ member(1) [OF _ keys(2) _ _ state]] by (simp add: white_def)
qed

lemma parse_members:
  assumes "json_members 999 s members"
  shows "cJSON_Parse (CHR ''{'' # s @ ''}'') = Some (jobject members)"
proof -
  have "json_text CJSON_NESTING_LIMIT (CHR ''{'' # s @ ''}'') (jobject members)"
    using text_object [OF assms] by (simp add: CJSON_NESTING_LIMIT_def)
  from cJSON_Parse_text [OF this, of "[]" "[]"] show ?thesis by (simp add: white_def)
qed

text \<open>C13: the body of the request that creates or edits an issue is read back by the parser as an object with
  the title, the text of the issue unchanged, whatever it contains, and the state, if the title has neither
  quotes nor backslashes. The title is not escaped: a title \<open>t","k":"v\<close> is read as the title \<open>t\<close>, and a
  member \<open>k\<close> of its own choice is added to the request.\<close>

theorem issue_data_parses:
  assumes "plain_text title" and "plain_text k" and "plain_text v"
  shows "cJSON_Parse (issue_data title body) =
      Some (jobject [(''title'', jstring title), (''body'', jstring (cstr body)), (''state'', jstring ''open'')]) \<and>
    cJSON_Parse (issue_data (title @ [CHR 0x22, CHR '','', CHR 0x22] @ k @ [CHR 0x22, CHR '':'', CHR 0x22] @ v) body) =
      Some (jobject [(''title'', jstring title), (k, jstring v), (''body'', jstring (cstr body)), (''state'', jstring ''open'')])"
proof
  have key: "plain_text ''title''" by (simp add: plain_text_def)
  have no_NUL: "NUL \<notin> set title" "NUL \<notin> set k" "NUL \<notin> set v"
    using assms by (auto simp: plain_text_def)
  show "cJSON_Parse (issue_data title body) =
      Some (jobject [(''title'', jstring title), (''body'', jstring (cstr body)), (''state'', jstring ''open'')])"
    using parse_members [OF plain_member [OF key assms(1) issue_members]] no_NUL
    by (simp add: issue_data_def Let_def cstr_id)
  have "NUL \<notin> set (title @ [CHR 0x22, CHR '','', CHR 0x22] @ k @ [CHR 0x22, CHR '':'', CHR 0x22] @ v)"
    using no_NUL by auto
  then show "cJSON_Parse (issue_data (title @ [CHR 0x22, CHR '','', CHR 0x22] @ k @ [CHR 0x22, CHR '':'', CHR 0x22] @ v) body) =
      Some (jobject [(''title'', jstring title), (k, jstring v), (''body'', jstring (cstr body)), (''state'', jstring ''open'')])"
    using parse_members [OF plain_member [OF key assms(1) plain_member [OF assms(2,3) issue_members]]]
    by (simp add: issue_data_def Let_def cstr_id)
qed

theorem issue_data_parses_witness:
  "cJSON_Parse (issue_data ''Grade for hw1'' (''Score: \"90\"'' @ [CHR 0x0A])) =
    Some (jobject [(''title'', jstring ''Grade for hw1''), (''body'', jstring (''Score: \"90\"'' @ [CHR 0x0A])), (''state'', jstring ''open'')]) \<and>
   cJSON_Parse (issue_data ''Grade for hw1\",\"milestone\":\"x'' []) =
    Some (jobject [(''title'', jstring ''Grade for hw1''), (''milestone'', jstring ''x''), (''body'', jstring []), (''state'', jstring ''open'')])"
proof -
  have plain: "plain_text ''Grade for hw1''" "plain_text ''milestone''" "plain_text ''x''" by (simp_all add: plain_text_def)
  have "cstr (''Score: \"90\"'' @ [CHR 0x0A]) = ''Score: \"90\"'' @ [CHR 0x0A]" by simp
  with issue_data_parses [OF plain, of "''Score: \"90\"'' @ [CHR 0x0A]"] issue_data_parses [OF plain, of "[]"] show ?thesis
    by simp
qed

end
