(* ===== verification/PushSpec.thy ===== *)
theory PushSpec imports GithubSpec Pushes begin

text \<open>
  What \<open>retrieve_pushes_before_cutoff\<close> selects, for a network that answers: the run over the batches and the
  pages, and the properties of the selection.
\<close>

text \<open>Where the events of a repository are, and the commit and the time of the last resort.\<close>

definition event_pages :: "(string \<Rightarrow> string) \<Rightarrow> string \<Rightarrow> string \<Rightarrow> nat \<Rightarrow> cJSON list" where
  "event_pages body organization repo p = page_items body (events_path organization repo p)"

definition latest_commit_of :: "(string \<Rightarrow> string) \<Rightarrow> string \<Rightarrow> string \<Rightarrow> string \<Rightarrow> GitCommitHash" where
  "latest_commit_of body organization repo branch =
     branch_commit (answer_json body (repo_path organization repo @ ''/branches/'' @ branch))"

definition created_at :: "(string \<Rightarrow> string) \<Rightarrow> string \<Rightarrow> string \<Rightarrow> int" where
  "created_at body organization repo = creation_time (answer_json body (repo_path organization repo))"

text \<open>The state of a repository after its first \<open>p\<close> pages.\<close>

definition pages_read :: "(string \<Rightarrow> string) \<Rightarrow> string \<Rightarrow> int \<Rightarrow> string \<Rightarrow> string \<Rightarrow> nat \<Rightarrow> push_state" where
  "pages_read body organization cutoff repo branch =
     read_all (read_page branch (branch_ref branch) cutoff (latest_commit_of body organization repo branch)
       (created_at body organization repo)) (event_pages body organization repo)"

text \<open>What a repository's queries need to fit the buffers, up to the page \<open>stop\<close>.\<close>

definition query_fits :: "string \<Rightarrow> string \<Rightarrow> string \<Rightarrow> nat \<Rightarrow> bool" where
  "query_fits organization repo branch stop \<longleftrightarrow>
     fits (repo_path organization repo) \<and> fits (repo_path organization repo @ ''/branches/'' @ branch) \<and>
     (\<forall>p. 1 \<le> p \<and> p \<le> stop \<longrightarrow> fits (events_path organization repo p)) \<and> length (branch_ref branch) < 256"

subsection \<open>The pages of a batch\<close>

text \<open>The states of all repositories: those before the batch are done, those of the batch have read \<open>p\<close> pages.\<close>

definition states_at :: "(nat \<Rightarrow> nat \<Rightarrow> push_state) \<Rightarrow> nat \<Rightarrow> nat \<Rightarrow> nat \<Rightarrow> nat \<Rightarrow> nat \<Rightarrow> push_state list" where
  "states_at A stop count at n p =
     map (\<lambda>k. if k < at then A k stop else if k < at + n then A k p else initial_push_state) [0..<count]"

lemma map_upt_update: "k < count \<Longrightarrow> (map f [0..<count])[k := x] = map (f(k := x)) [0..<count]"
  by (rule nth_equalityI) (auto simp: nth_list_update)

lemma all_done_iff:
  assumes "at + n \<le> length sts"
  shows "true_for_all (map worker_done (take n (drop at sts))) n \<longleftrightarrow> (\<forall>i < n. worker_done (sts ! (at + i)))"
proof -
  have "length (map worker_done (take n (drop at sts))) = n" using assms by simp
  then have "true_for_all (map worker_done (take n (drop at sts))) n \<longleftrightarrow> (\<forall>b \<in> set (map worker_done (take n (drop at sts))). b)"
    using true_for_all_iff [of "map worker_done (take n (drop at sts))"] by (simp only: )
  also have "\<dots> \<longleftrightarrow> (\<forall>i < n. worker_done (sts ! (at + i)))"
    using assms by (simp add: all_set_conv_all_nth)
  finally show ?thesis .
qed

lemma events_page_run:
  fixes cutoff :: int and body :: "string \<Rightarrow> string" and organization :: string
  assumes "answers e status body" and "token_fits t" and "at + n \<le> length repos"
    and "\<forall>k < length repos. query_fits organization (repos ! k) (branches ! k) stop"
    and "\<forall>k < length repos. hashes ! k = latest_commit_of body organization (repos ! k) (branches ! k)"
    and "\<forall>k < length repos. created ! k = created_at body organization (repos ! k)"
    and "p < stop"
  defines "A \<equiv> \<lambda>k. pages_read body organization cutoff (repos ! k) (branches ! k)"
  defines "sts \<equiv> states_at A stop (length repos) at n p"
  shows "\<exists>h'. bd (run_group n (filter (\<lambda>i. \<not> worker_done (sts ! (at + i))) [0..<n])
        (\<lambda>i. events_path organization (repos ! (at + i)) (Suc p)) t)
      (\<lambda>g. foldp (read_events branches cutoff hashes created at g) [0..<n] sts) e h =
    (Done (states_at A stop (length repos) at n (Suc p)), h')"
proof -
  let ?N = "length repos"
  let ?path = "\<lambda>i. events_path organization (repos ! (at + i)) (Suc p)"
  let ?f = "\<lambda>i k. if k < at then A k stop else if k < at + i then A k (Suc p)
    else if k < at + n then A k p else initial_push_state"
  have nth: "sts ! (at + i) = A (at + i) p" if "i < n" for i
    using that assms(3) by (simp add: sts_def states_at_def)
  have "\<forall>i \<in> set (filter (\<lambda>i. \<not> worker_done (sts ! (at + i))) [0..<n]). i < n \<and> fits (?path i)"
    using assms(3,4,7) by (simp add: query_fits_def)
  from run_group_answers [OF assms(1,2) this, of h]
  obtain g h1 where g: "run_group n (filter (\<lambda>i. \<not> worker_done (sts ! (at + i))) [0..<n]) ?path t e h = (Done g, h1)"
    "\<forall>i < n. \<not> worker_done (A (at + i) p) \<longrightarrow> group_workers g ! i = done_worker status body t (?path i)"
    using nth by auto
  have "\<exists>s' h'. foldp (read_events branches cutoff hashes created at g) [0..<n] sts e h1 = (Done s', h') \<and>
      s' = map (?f n) [0..<?N]"
  proof (rule foldp_upto [where I = "\<lambda>i s. s = map (?f i) [0..<?N]"])
    show "sts = map (?f 0) [0..<?N]" by (simp add: sts_def states_at_def)
    fix i s h
    assume i: "i < n" and s: "s = map (?f i) [0..<?N]"
    have k: "at + i < ?N" using i assms(3) by simp
    then have st: "s ! (at + i) = A (at + i) p" using i by (simp add: s)
    have next_f: "?f (Suc i) = (?f i)(at + i := A (at + i) (Suc p))" by auto
    show "\<exists>s' h'. read_events branches cutoff hashes created at g i s e h = (Done s', h') \<and> s' = map (?f (Suc i)) [0..<?N]"
    proof (cases "worker_done (A (at + i) p)")
      case True
      then have "A (at + i) (Suc p) = A (at + i) p" by (simp add: A_def pages_read_def Let_def)
      then have "?f (Suc i) = ?f i" using i unfolding next_f by auto
      then show ?thesis using True st s by (simp add: read_events_def)
    next
      case False
      have g_i: "group_workers g ! i = done_worker status body t (?path i)" using g(2) i False by blast
      obtain h2 where "parse_response (get_response g i) e h = (Done (answer_json body (?path i)), h2)"
        using parse_answer [OF g_i, of e h] by blast
      moreover have "length (''refs/heads/'' @ branches ! (at + i)) < 256"
        using assms(4) k by (simp add: query_fits_def branch_ref_def)
      moreover have "A (at + i) (Suc p) = read_page (branches ! (at + i)) (''refs/heads/'' @ branches ! (at + i)) cutoff
          (hashes ! (at + i)) (created ! (at + i)) (cJSON_children (answer_json body (?path i))) (A (at + i) p)"
        using False assms(5,6) k by (simp add: A_def pages_read_def Let_def branch_ref_def event_pages_def page_items_def)
      ultimately have "read_events branches cutoff hashes created at g i s e h = (Done (s[at + i := A (at + i) (Suc p)]), h2)"
        using False st by (simp add: read_events_def)
      then show ?thesis using k unfolding s map_upt_update [OF k] next_f by simp
    qed
  qed
  moreover have "map (?f n) [0..<?N] = states_at A stop ?N at n (Suc p)"
    by (simp add: states_at_def)
  ultimately show ?thesis using g(1) by auto
qed

lemma events_loop_run:
  fixes cutoff :: int and body :: "string \<Rightarrow> string" and organization :: string
  assumes "answers e status body" and "token_fits t" and "at + n \<le> length repos"
    and "\<forall>k < length repos. query_fits organization (repos ! k) (branches ! k) stop"
    and "\<forall>k < length repos. hashes ! k = latest_commit_of body organization (repos ! k) (branches ! k)"
    and "\<forall>k < length repos. created ! k = created_at body organization (repos ! k)"
    and "\<forall>k < length repos. worker_done (pages_read body organization cutoff (repos ! k) (branches ! k) stop)"
  defines "A \<equiv> \<lambda>k. pages_read body organization cutoff (repos ! k) (branches ! k)"
  shows "p \<le> stop \<Longrightarrow> stop < p + fuel \<Longrightarrow>
    \<exists>h'. events_loop repos branches t organization cutoff hashes created at n fuel (Suc p)
      (states_at A stop (length repos) at n p) e h = (Done (states_at A stop (length repos) at n stop), h')"
proof (induction fuel arbitrary: p h)
  case (Suc fuel)
  let ?N = "length repos"
  let ?sts = "states_at A stop ?N at n p"
  have nth: "?sts ! (at + i) = A (at + i) p" if "i < n" for i
    using that assms(3) by (simp add: states_at_def)
  have all: "true_for_all (map worker_done (take n (drop at ?sts))) n \<longleftrightarrow> (\<forall>i < n. worker_done (A (at + i) p))"
    using all_done_iff [of at n ?sts] nth assms(3) by (simp add: states_at_def)
  show ?case
  proof (cases "\<forall>i < n. worker_done (A (at + i) p)")
    case True
    have "A k p = A k stop" if "at \<le> k" "k < at + n" for k
    proof -
      have "k - at < n" and "at + (k - at) = k" using that by simp_all
      then have "worker_done (A k p)" using True by metis
      then show ?thesis
        unfolding A_def pages_read_def by (rule read_all_done [symmetric]) (rule Suc.prems(1))
    qed
    then have "?sts = states_at A stop ?N at n stop" by (auto simp: states_at_def)
    then show ?thesis using all True by simp
  next
    case False
    then have "p \<noteq> stop" using assms(3,7) unfolding A_def by auto
    then have p: "p < stop" using Suc.prems(1) by simp
    from events_page_run [OF assms(1-6) p, of cutoff h] obtain h1 where h1:
      "bd (run_group n (filter (\<lambda>i. \<not> worker_done (?sts ! (at + i))) [0..<n]) (\<lambda>i. events_path organization (repos ! (at + i)) (Suc p)) t)
        (\<lambda>g. foldp (read_events branches cutoff hashes created at g) [0..<n] ?sts) e h =
      (Done (states_at A stop ?N at n (Suc p)), h1)"
      unfolding A_def by blast
    obtain h2 where "events_loop repos branches t organization cutoff hashes created at n fuel (Suc (Suc p))
        (states_at A stop ?N at n (Suc p)) e h1 = (Done (states_at A stop ?N at n stop), h2)"
      using Suc.IH [of "Suc p" h1] p Suc.prems(2) by auto
    with h1 show ?thesis
      using all False by (auto simp: bd_eq_Done)
  qed
qed simp

lemma pushes_run:
  assumes "answers e status body" and "token_fits t" and "length repos = length branches" and "stop < loop_fuel e"
    and "\<forall>(repo, branch) \<in> set (zip repos branches). query_fits organization repo branch stop \<and>
           worker_done (pages_read body organization cutoff repo branch stop)"
  shows "\<exists>h'. retrieve_pushes_before_cutoff repos branches t organization cutoff e h =
    (Done (map (\<lambda>(repo, branch). out_hash (pages_read body organization cutoff repo branch stop)) (zip repos branches),
           map (\<lambda>(repo, branch). out_push_time (pages_read body organization cutoff repo branch stop)) (zip repos branches)), h')"
proof -
  let ?N = "length repos"
  let ?A = "\<lambda>k. pages_read body organization cutoff (repos ! k) (branches ! k)"
  have each: "query_fits organization (repos ! k) (branches ! k) stop \<and> worker_done (?A k stop)" if "k < ?N" for k
    using assms(3,5) that by (force simp: set_zip)
  have fits1: "\<forall>repo \<in> set repos. fits (repo_path organization repo)"
    using each by (auto simp: in_set_conv_nth query_fits_def)
  have fits2: "\<forall>(repo, branch) \<in> set (zip repos branches). fits (repo_path organization repo @ ''/branches/'' @ branch)"
    using assms(5) by (auto simp: query_fits_def)
  obtain created h1 where q1: "retrieve_creation_times repos t organization e h = (Done created, h1)"
    and created: "\<forall>k < ?N. created ! k = created_at body organization (repos ! k)"
    using creation_times_run [OF assms(1,2) fits1, of h] by (auto simp: created_at_def)
  obtain hashes h2 where q2: "retrieve_latest_commits repos branches t organization e h1 = (Done hashes, h2)"
    and hashes: "\<forall>k < ?N. hashes ! k = latest_commit_of body organization (repos ! k) (branches ! k)"
    using latest_commits_run [OF assms(1,2,3) fits2, of h1] assms(3) by (auto simp: latest_commit_of_def)
  have states: "states_at ?A stop ?N at n 0 = states_at ?A stop ?N at 0 0" for at n
    by (auto simp: states_at_def pages_read_def)
  have "\<exists>s' h'. foldp (\<lambda>at sts. events_loop repos branches t organization cutoff hashes created at
      (worker_count at ?N) (loop_fuel e) 1 sts) (batches 0 ?N) (replicate ?N initial_push_state) e h2 = (Done s', h') \<and>
      s' = states_at ?A stop ?N ?N 0 0"
  proof (rule foldp_batches [where I = "\<lambda>at s. s = states_at ?A stop ?N at 0 0"])
    fix at s h
    assume "at < ?N" and s: "s = states_at ?A stop ?N at 0 0"
    then have n: "at + worker_count at ?N \<le> ?N" by (simp add: worker_count_def)
    have "\<forall>k < ?N. query_fits organization (repos ! k) (branches ! k) stop" "\<forall>k < ?N. worker_done (?A k stop)"
      using each by simp_all
    from events_loop_run [OF assms(1,2) n this(1) hashes created this(2), of 0 "loop_fuel e" h] assms(4)
    obtain h' where "events_loop repos branches t organization cutoff hashes created at (worker_count at ?N) (loop_fuel e) (Suc 0)
        (states_at ?A stop ?N at (worker_count at ?N) 0) e h = (Done (states_at ?A stop ?N at (worker_count at ?N) stop), h')"
      by auto
    moreover have "states_at ?A stop ?N at (worker_count at ?N) stop = states_at ?A stop ?N (at + worker_count at ?N) 0 0"
      by (auto simp: states_at_def)
    ultimately show "\<exists>s' h'. events_loop repos branches t organization cutoff hashes created at (worker_count at ?N)
        (loop_fuel e) 1 s e h = (Done s', h') \<and> s' = states_at ?A stop ?N (at + worker_count at ?N) 0 0"
      unfolding s states [of at "worker_count at ?N", symmetric] by simp
  qed (simp_all add: states_at_def map_replicate_trivial)
  then obtain h3 where h3: "foldp (\<lambda>at sts. events_loop repos branches t organization cutoff hashes created at
      (worker_count at ?N) (loop_fuel e) 1 sts) (batches 0 ?N) (replicate ?N initial_push_state) e h2 =
      (Done (map (\<lambda>k. ?A k stop) [0..<?N]), h3)" by (auto simp: states_at_def cong: map_cong)
  have "map out_hash (map (\<lambda>k. ?A k stop) [0..<?N]) =
      map (\<lambda>(repo, branch). out_hash (pages_read body organization cutoff repo branch stop)) (zip repos branches)"
    "map out_push_time (map (\<lambda>k. ?A k stop) [0..<?N]) =
      map (\<lambda>(repo, branch). out_push_time (pages_read body organization cutoff repo branch stop)) (zip repos branches)"
    using assms(3) by (auto intro: nth_equalityI)
  then show ?thesis
    using q1 q2 h3 by (simp add: retrieve_pushes_before_cutoff_def Let_def)
qed

subsection \<open>Properties\<close>

text \<open>The events of a repository on the pages before \<open>stop\<close>, up to the first empty page, and what is to be selected.\<close>

definition events_of :: "(string \<Rightarrow> string) \<Rightarrow> string \<Rightarrow> nat \<Rightarrow> string \<Rightarrow> cJSON list" where
  "events_of body organization stop repo = all_events (event_pages body organization repo) stop"

definition selection :: "(string \<Rightarrow> string) \<Rightarrow> string \<Rightarrow> int \<Rightarrow> nat \<Rightarrow> string \<times> string \<Rightarrow> GitCommitHash \<times> int" where
  "selection body organization cutoff stop homework =
     (case homework of (repo, branch) \<Rightarrow>
        selected branch cutoff (latest_commit_of body organization repo branch) (created_at body organization repo)
          (events_of body organization stop repo))"

definition history_ok :: "(string \<Rightarrow> string) \<Rightarrow> string \<Rightarrow> nat \<Rightarrow> string \<times> string \<Rightarrow> bool" where
  "history_ok body organization stop homework \<longleftrightarrow>
     (case homework of (repo, branch) \<Rightarrow>
        query_fits organization repo branch stop \<and> event_pages body organization repo stop = [] \<and>
        (\<forall>ev \<in> set (events_of body organization stop repo). concerns branch ev \<longrightarrow> 0 < event_time ev))"

lemma pages_read_selection:
  assumes "history_ok body organization stop (repo, branch)" and "1 \<le> stop"
  shows "worker_done (pages_read body organization cutoff repo branch stop)"
    and "(out_hash (pages_read body organization cutoff repo branch stop),
      out_push_time (pages_read body organization cutoff repo branch stop)) =
      selection body organization cutoff stop (repo, branch)"
  using assms read_all_run [of stop "event_pages body organization repo" branch cutoff
      "latest_commit_of body organization repo branch" "created_at body organization repo"]
  by (simp_all add: history_ok_def events_of_def pages_read_def selection_def)

lemma pushes_selection:
  assumes "answers e status body" and "token_fits t" and "length repos = length branches"
    and "1 \<le> stop" and "stop < loop_fuel e" and "\<forall>homework \<in> set (zip repos branches). history_ok body organization stop homework"
  shows "\<exists>h'. retrieve_pushes_before_cutoff repos branches t organization cutoff e h =
    (Done (map (fst \<circ> selection body organization cutoff stop) (zip repos branches),
           map (snd \<circ> selection body organization cutoff stop) (zip repos branches)), h')"
proof -
  let ?read = "\<lambda>repo branch. pages_read body organization cutoff repo branch stop"
  have read: "query_fits organization repo branch stop" "worker_done (?read repo branch)"
    "out_hash (?read repo branch) = fst (selection body organization cutoff stop (repo, branch))"
    "out_push_time (?read repo branch) = snd (selection body organization cutoff stop (repo, branch))"
    if "(repo, branch) \<in> set (zip repos branches)" for repo branch
  proof -
    have ok: "history_ok body organization stop (repo, branch)" using assms(6) that by blast
    then show "query_fits organization repo branch stop" by (simp add: history_ok_def)
    note sel = pages_read_selection [OF ok assms(4), of cutoff]
    show "worker_done (?read repo branch)" by (rule sel(1))
    show "out_hash (?read repo branch) = fst (selection body organization cutoff stop (repo, branch))"
      "out_push_time (?read repo branch) = snd (selection body organization cutoff stop (repo, branch))"
      unfolding sel(2) [symmetric] by simp_all
  qed
  then have ready: "\<forall>(repo, branch) \<in> set (zip repos branches). query_fits organization repo branch stop \<and> worker_done (?read repo branch)"
    by blast
  have results: "map (\<lambda>(repo, branch). out_hash (?read repo branch)) (zip repos branches) =
      map (fst \<circ> selection body organization cutoff stop) (zip repos branches)"
    "map (\<lambda>(repo, branch). out_push_time (?read repo branch)) (zip repos branches) =
      map (snd \<circ> selection body organization cutoff stop) (zip repos branches)"
    using read by (auto intro!: map_cong)
  show ?thesis
    using pushes_run [OF assms(1-3,5) ready, of h] unfolding results .
qed

text \<open>C16: for each repository, in order, whatever the batches and the number of pages, \<open>retrieve_pushes_before_cutoff\<close>
  selects what \<open>selected\<close> says of all events up to the first empty page: the first event before the cutoff among
  the pushes to the branch and the creation of the branch, with the commit of the push, or the latest commit
  where GitHub does not report who pushed it; without such an event the latest commit and the creation of
  the repository. If GitHub lists the events newest first, no event before the cutoff is later than the one
  selected. Assumed is that GitHub answers, that one page is empty, and that the times of these
  events are after 1970.\<close>

theorem newest_push_before_cutoff:
  assumes "answers e status body" and "token_fits t" and "length repos = length branches"
    and "1 \<le> stop" and "stop < loop_fuel e" and "\<forall>homework \<in> set (zip repos branches). history_ok body organization stop homework"
  shows "(\<exists>h'. retrieve_pushes_before_cutoff repos branches t organization cutoff e h =
      (Done (map (fst \<circ> selection body organization cutoff stop) (zip repos branches),
             map (snd \<circ> selection body organization cutoff stop) (zip repos branches)), h')) \<and>
    (\<forall>(repo, branch) \<in> set (zip repos branches). newest_first (events_of body organization stop repo) \<longrightarrow>
      (\<forall>ev \<in> set (events_of body organization stop repo). before_cutoff branch cutoff ev \<longrightarrow>
         event_time ev \<le> snd (selection body organization cutoff stop (repo, branch)) \<and>
         snd (selection body organization cutoff stop (repo, branch)) < cutoff))"
  using pushes_selection [OF assms] selected_newest unfolding selection_def by fastforce

definition sample_event :: "string \<Rightarrow> char \<Rightarrow> string" where
  "sample_event created c =
     ''{\"type\":\"PushEvent\",\"created_at\":\"'' @ created @ ''\",\"payload\":{\"head\":\"'' @ replicate 40 c @
     ''\",\"ref\":\"refs/heads/main\"}}''"

definition sample_pushes :: "string \<Rightarrow> string" where
  "sample_pushes url =
     (if url = full_url (events_path ''org'' ''hw1-bob'' 1)
      then ''['' @ sample_event ''2024-03-05T12:00:00Z'' CHR ''b'' @ '']''
      else if url = full_url (events_path ''org'' ''hw1-bob'' 2)
      then ''['' @ sample_event ''2024-03-01T12:00:00Z'' CHR ''a'' @ '']''
      else if url = full_url (repo_path ''org'' ''hw1-bob'')
      then ''{\"created_at\":\"2024-02-01T12:00:00Z\"}''
      else if url = full_url (repo_path ''org'' ''hw1-bob'' @ ''/branches/'' @ ''main'')
      then ''{\"commit\":{\"sha\":\"'' @ replicate 40 CHR ''b'' @ ''\"}}''
      else ''{}'')"

definition sample_page :: "nat \<Rightarrow> cJSON list" where
  "sample_page p = cJSON_children (answer_json sample_pushes (events_path ''org'' ''hw1-bob'' p))"

lemma sample_is_push:
  "list_all (is_push_event ''refs/heads/main'') (sample_page 1 @ sample_page 2)"
  by code_simp

lemma sample_times:
  "map event_time (sample_page 1) = [1709640000]" "map event_time (sample_page 2) = [1709294400]" "sample_page 3 = []"
  by code_simp+

lemma sample_hashes:
  "map event_hash (sample_page 1) = [init_git_commit_hash (replicate 40 CHR ''b'')]"
  "map event_hash (sample_page 2) = [init_git_commit_hash (replicate 40 CHR ''a'')]"
  by code_simp+

lemma sample_created: "created_at sample_pushes ''org'' ''hw1-bob'' = 1706788800"
  by code_simp

lemma sample_latest: "latest_commit_of sample_pushes ''org'' ''hw1-bob'' ''main'' = init_git_commit_hash (replicate 40 CHR ''b'')"
  by code_simp

lemma sample_history: "history_ok sample_pushes ''org'' 3 (''hw1-bob'', ''main'')"
  and sample_selection: "selection sample_pushes ''org'' 1709400000 3 (''hw1-bob'', ''main'') =
    (init_git_commit_hash (replicate 40 CHR ''a''), 1709294400)"
proof -
  have pages: "event_pages sample_pushes ''org'' ''hw1-bob'' p = sample_page p" for p
    by (simp add: event_pages_def page_items_def sample_page_def)
  obtain x y where page: "sample_page 1 = [x]" "sample_page 2 = [y]"
    and times: "event_time x = 1709640000" "event_time y = 1709294400"
    using sample_times by auto
  have hashes: "event_hash x = init_git_commit_hash (replicate 40 CHR ''b'')"
    "event_hash y = init_git_commit_hash (replicate 40 CHR ''a'')"
    using sample_hashes by (simp_all only: page list.map list.inject)
  have push: "is_push_event (branch_ref ''main'') x" "is_push_event (branch_ref ''main'') y"
    using sample_is_push unfolding page by (simp_all add: branch_ref_def)
  have "[1..<3] = [1 :: nat, 2]" by (simp add: upt_rec)
  then have evs: "events_of sample_pushes ''org'' 3 ''hw1-bob'' = [x, y]"
    by (simp add: events_of_def all_events_def pages page page [unfolded One_nat_def])
  have "list_all (\<lambda>p. fits (events_path ''org'' ''hw1-bob'' p)) [1, 2, 3]" by code_simp
  then have "\<forall>p. 1 \<le> p \<and> p \<le> 3 \<longrightarrow> fits (events_path ''org'' ''hw1-bob'' p)"
    by (auto simp: le_Suc_eq numeral_3_eq_3 numeral_2_eq_2)
  moreover have "fits (repo_path ''org'' ''hw1-bob'')" "fits (repo_path ''org'' ''hw1-bob'' @ ''/branches/'' @ ''main'')"
    "length (branch_ref ''main'') < 256"
    by code_simp+
  ultimately show "history_ok sample_pushes ''org'' 3 (''hw1-bob'', ''main'')"
    using times sample_times(3) by (simp add: history_ok_def query_fits_def evs pages)
  have x_y: "x \<noteq> y" using times by auto
  show "selection sample_pushes ''org'' 1709400000 3 (''hw1-bob'', ''main'') = (init_git_commit_hash (replicate 40 CHR ''a''), 1709294400)"
    unfolding selection_def prod.case evs selected_def
    using push x_y by (simp add: before_cutoff_def concerns_def times hashes)
qed

theorem newest_push_before_cutoff_witness:
  "\<exists>h'. retrieve_pushes_before_cutoff [''hw1-bob''] [''main''] ''token'' ''org'' 1709400000
      (sample_env sample_pushes (\<lambda>_. None)) [] =
    (Done ([init_git_commit_hash (replicate 40 CHR ''a'')], [1709294400]), h')"
proof -
  have "token_fits ''token''" by code_simp
  then show ?thesis
    using newest_push_before_cutoff [of "sample_env sample_pushes (\<lambda>_. None)" "\<lambda>_. 200" sample_pushes "''token''" "[''hw1-bob'']"
      "[''main'']" 3 "''org''" 1709400000 "[]"] sample_history sample_selection sample_answers by simp
qed

text \<open>C17: for every repository, whatever the network answers, what \<open>retrieve_pushes_before_cutoff\<close> selects has a
  time before the cutoff, or it is the last resort: the latest commit, with the creation time of the repository as
  \<open>retrieve_latest_commits\<close> and \<open>retrieve_creation_times\<close> have returned them. The last resort is not compared with the
  cutoff and may lie after it.\<close>

theorem push_or_last_resort:
  assumes "retrieve_pushes_before_cutoff repos branches t organization cutoff e h = (Done (hashes, push_times), h')"
  shows "\<exists>created latest h1 h2.
    retrieve_creation_times repos t organization e h = (Done created, h1) \<and>
    retrieve_latest_commits repos branches t organization e h1 = (Done latest, h2) \<and>
    length hashes = length repos \<and> length push_times = length repos \<and>
    (\<forall>k < length repos. push_times ! k < cutoff \<or> push_times ! k = created ! k \<and> hashes ! k = latest ! k)"
  using assms by (rule pushes_result)

lemma sample_pushes_run:
  "\<exists>h'. retrieve_pushes_before_cutoff [''hw1-bob''] [''main''] ''token'' ''org'' 1709400000
      (sample_env sample_pushes (\<lambda>_. None)) [] =
    (Done ([init_git_commit_hash (replicate 40 CHR ''a'')], [1709294400]), h')"
proof -
  have "token_fits ''token''" by code_simp
  then show ?thesis
    using pushes_selection [of "sample_env sample_pushes (\<lambda>_. None)" "\<lambda>_. 200" sample_pushes "''token''" "[''hw1-bob'']"
      "[''main'']" 3 "''org''" 1709400000 "[]"] sample_history sample_selection sample_answers by simp
qed

theorem push_or_last_resort_witness:
  "\<exists>hashes push_times created latest h' h1 h2.
    retrieve_pushes_before_cutoff [''hw1-bob''] [''main''] ''token'' ''org'' 1709400000
      (sample_env sample_pushes (\<lambda>_. None)) [] = (Done (hashes, push_times), h') \<and>
    retrieve_creation_times [''hw1-bob''] ''token'' ''org'' (sample_env sample_pushes (\<lambda>_. None)) [] = (Done created, h1) \<and>
    retrieve_latest_commits [''hw1-bob''] [''main''] ''token'' ''org'' (sample_env sample_pushes (\<lambda>_. None)) h1 =
      (Done latest, h2) \<and> length hashes = 1 \<and> push_times = [1709294400]"
proof -
  obtain h' where run: "retrieve_pushes_before_cutoff [''hw1-bob''] [''main''] ''token'' ''org'' 1709400000
      (sample_env sample_pushes (\<lambda>_. None)) [] =
    (Done ([init_git_commit_hash (replicate 40 CHR ''a'')], [1709294400]), h')"
    using sample_pushes_run by blast
  from push_or_last_resort [OF run] run show ?thesis by fastforce
qed

end
