(* ===== verification/WorkQueue.thy ===== *)
theory WorkQueue imports Platform begin

text \<open>
  The threads that run the works of \<open>grade-homework\<close> (\<open>linux_wait_for_completion\<close>,
  \<open>linux_thread_proc\<close> and the callbacks of \<open>linux_exec_process\<close> in \<open>code/linux_main.c\<close>): any number of
  threads take the works from a shared counter by compare-and-swap and call the callbacks under one
  lock. \<open>thread_step\<close> is the code of a thread, one access to shared memory at a time; \<open>pool_step\<close>
  interleaves the threads with the thread that creates and joins them.

  The locale \<open>transition_system\<close> holds what follows from an invariant and a measure; it is
  interpreted on the pool.
\<close>

subsection \<open>Transition systems\<close>

locale transition_system =
  fixes start :: "'s \<Rightarrow> bool"
    and step :: "'s \<Rightarrow> 's \<Rightarrow> bool"
    and inv :: "'s \<Rightarrow> bool"
    and weight :: "'s \<Rightarrow> nat"
  assumes inv_start: "start s \<Longrightarrow> inv s"
    and inv_step: "inv s \<Longrightarrow> step s s' \<Longrightarrow> inv s'"
    and weight_step: "inv s \<Longrightarrow> step s s' \<Longrightarrow> weight s' < weight s"
begin

lemma run_inv: "step\<^sup>*\<^sup>* s s' \<Longrightarrow> inv s \<Longrightarrow> inv s'"
  by (induction rule: rtranclp_induct) (auto intro: inv_step)

lemma reached: "start s \<Longrightarrow> step\<^sup>*\<^sup>* s s' \<Longrightarrow> inv s'"
  by (rule run_inv) (auto intro: inv_start)

lemma run_length:
  assumes "inv (r 0)" and "\<forall>i < n. step (r i) (r (Suc i))"
  shows "n + weight (r n) \<le> weight (r 0)"
proof -
  have "inv (r k) \<and> k + weight (r k) \<le> weight (r 0)" if "k \<le> n" for k
    using that
  proof (induction k)
    case (Suc k)
    then have "inv (r k)" "k + weight (r k) \<le> weight (r 0)" "step (r k) (r (Suc k))"
      using assms(2) by auto
    with weight_step [of "r k" "r (Suc k)"] inv_step [of "r k" "r (Suc k)"] show ?case by linarith
  qed (use assms(1) in simp)
  then show ?thesis by blast
qed

lemma ends:
  assumes "inv s" and "\<And>s. inv s \<Longrightarrow> \<not> final s \<Longrightarrow> \<exists>s'. step s s'"
  shows "\<exists>s'. step\<^sup>*\<^sup>* s s' \<and> final s'"
  using assms(1)
proof (induction "weight s" arbitrary: s rule: less_induct)
  case less
  show ?case
  proof (cases "final s")
    case False
    then obtain t where t: "step s t" using assms(2) less.prems by blast
    with less.hyps [OF weight_step [OF less.prems t] inv_step [OF less.prems t]] show ?thesis
      by (meson converse_rtranclp_into_rtranclp)
  qed auto
qed

end

subsection \<open>The code of a thread\<close>

text \<open>What the threads share.\<close>

record queue =
  next_to_work :: int
  queue_works :: "work list"
  callback_lock :: "nat option"
  callbacks :: "callback list"

text \<open>The constants of a \<open>ThreadContext\<close>.\<close>

record thread_context =
  work_count :: int
  has_progression :: bool
  has_completion :: bool

text \<open>
  Where a thread is: \<open>Load\<close> and \<open>Compare\<close> in the loop of \<open>linux_thread_proc\<close>, with the value read from
  the counter; the others in the work with that index, after the swap. \<open>On_progression\<close> and
  \<open>On_completion\<close> hold the lock.
\<close>

datatype thread =
    Not_created
  | Not_valid
  | Load
  | Compare int
  | Lock_progression nat
  | On_progression nat
  | Process nat
  | Lock_completion nat int string
  | On_completion nat int string
  | Store nat int
  | Returned

text \<open>The process of a work ends with an exit code, an \<open>int\<close>, and an output.\<close>

definition process_result :: "int \<Rightarrow> bool" where
  "process_result c \<longleftrightarrow> - (2 ^ 31) \<le> c \<and> c < 2 ^ 31"

fun thread_step :: "thread_context \<Rightarrow> nat \<Rightarrow> int \<Rightarrow> string \<Rightarrow> queue \<Rightarrow> thread \<Rightarrow> (queue \<times> thread) option" where
  "thread_step ctx t c out q Load = Some (q, Compare (next_to_work q))"
| "thread_step ctx t c out q (Compare n) =
     (if n = work_count ctx then Some (q, Returned)
      else if next_to_work q = n
      then Some (q\<lparr>next_to_work := n + 1\<rparr>,
                 if has_progression ctx then Lock_progression (nat n) else Process (nat n))
      else Some (q, Load))"
| "thread_step ctx t c out q (Lock_progression i) =
     (if callback_lock q = None then Some (q\<lparr>callback_lock := Some t\<rparr>, On_progression i) else None)"
| "thread_step ctx t c out q (On_progression i) =
     Some (q\<lparr>callbacks := callbacks q @ [Progression i], callback_lock := None\<rparr>, Process i)"
| "thread_step ctx t c out q (Process i) =
     Some (q, if has_completion ctx then Lock_completion i c out else Store i c)"
| "thread_step ctx t c out q (Lock_completion i c' out') =
     (if callback_lock q = None then Some (q\<lparr>callback_lock := Some t\<rparr>, On_completion i c' out') else None)"
| "thread_step ctx t c out q (On_completion i c' out') =
     Some (q\<lparr>callbacks := callbacks q @ [Completion i c' out'], callback_lock := None\<rparr>, Store i c')"
| "thread_step ctx t c out q (Store i c') =
     Some (q\<lparr>queue_works := (queue_works q)[i := (queue_works q ! i)\<lparr>exit_code := c'\<rparr>]\<rparr>, Load)"
| "thread_step ctx t c out q _ = None"

subsection \<open>The pool\<close>

datatype main_thread = Start | Creating nat | Joining nat | Main_returned

record pool =
  main :: main_thread
  pool_threads :: "thread list"
  queue :: queue

definition initial_pool :: "nat \<Rightarrow> work list \<Rightarrow> pool" where
  "initial_pool thread_count works =
     \<lparr>main = Start, pool_threads = replicate thread_count Not_created,
      queue = \<lparr>next_to_work = 0, queue_works = works, callback_lock = None, callbacks = []\<rparr>\<rparr>"

inductive pool_step :: "thread_context \<Rightarrow> pool \<Rightarrow> pool \<Rightarrow> bool" for ctx where
  lock_failed: "main p = Start \<Longrightarrow> pool_step ctx p (p\<lparr>main := Main_returned\<rparr>)"
| lock_created: "main p = Start \<Longrightarrow> pool_step ctx p (p\<lparr>main := Creating 0\<rparr>)"
| thread_created: "main p = Creating i \<Longrightarrow> i < length (pool_threads p) \<Longrightarrow>
    pool_step ctx p (p\<lparr>main := Creating (Suc i), pool_threads := (pool_threads p)[i := Load]\<rparr>)"
| thread_failed: "main p = Creating i \<Longrightarrow> i < length (pool_threads p) \<Longrightarrow>
    pool_step ctx p (p\<lparr>main := Creating (Suc i), pool_threads := (pool_threads p)[i := Not_valid]\<rparr>)"
| all_created: "main p = Creating (length (pool_threads p)) \<Longrightarrow> pool_step ctx p (p\<lparr>main := Joining 0\<rparr>)"
| joined: "main p = Joining i \<Longrightarrow> i < length (pool_threads p) \<Longrightarrow> pool_threads p ! i \<in> {Not_valid, Returned} \<Longrightarrow>
    pool_step ctx p (p\<lparr>main := Joining (Suc i)\<rparr>)"
| all_joined: "main p = Joining (length (pool_threads p)) \<Longrightarrow> pool_step ctx p (p\<lparr>main := Main_returned\<rparr>)"
| thread_runs: "t < length (pool_threads p) \<Longrightarrow> process_result c \<Longrightarrow>
    thread_step ctx t c out (queue p) (pool_threads p ! t) = Some (q, th) \<Longrightarrow>
    pool_step ctx p (p\<lparr>pool_threads := (pool_threads p)[t := th], queue := q\<rparr>)"

subsection \<open>What holds at every moment\<close>

fun thread_work :: "thread \<Rightarrow> nat option" where
  "thread_work (Lock_progression i) = Some i"
| "thread_work (On_progression i) = Some i"
| "thread_work (Process i) = Some i"
| "thread_work (Lock_completion i c out) = Some i"
| "thread_work (On_completion i c out) = Some i"
| "thread_work (Store i c) = Some i"
| "thread_work _ = None"

fun in_callback :: "thread \<Rightarrow> bool" where
  "in_callback (On_progression i) = True"
| "in_callback (On_completion i c out) = True"
| "in_callback _ = False"

fun callback_index :: "callback \<Rightarrow> nat" where
  "callback_index (Progression i) = i"
| "callback_index (Completion i c out) = i"

definition calls_of :: "queue \<Rightarrow> nat \<Rightarrow> callback list" where
  "calls_of q i = filter (\<lambda>cb. callback_index cb = i) (callbacks q)"

definition first_calls :: "thread_context \<Rightarrow> nat \<Rightarrow> callback list" where
  "first_calls ctx i = (if has_progression ctx then [Progression i] else [])"

definition all_calls :: "thread_context \<Rightarrow> nat \<Rightarrow> int \<Rightarrow> string \<Rightarrow> callback list" where
  "all_calls ctx i c out = first_calls ctx i @ (if has_completion ctx then [Completion i c out] else [])"

text \<open>The calls made for the work of a thread.\<close>

fun calls_so_far :: "thread_context \<Rightarrow> thread \<Rightarrow> callback list \<Rightarrow> bool" where
  "calls_so_far ctx (Lock_progression i) cs = (cs = [] \<and> has_progression ctx)"
| "calls_so_far ctx (On_progression i) cs = (cs = [] \<and> has_progression ctx)"
| "calls_so_far ctx (Process i) cs = (cs = first_calls ctx i)"
| "calls_so_far ctx (Lock_completion i c out) cs = (cs = first_calls ctx i \<and> has_completion ctx \<and> process_result c)"
| "calls_so_far ctx (On_completion i c out) cs = (cs = first_calls ctx i \<and> has_completion ctx \<and> process_result c)"
| "calls_so_far ctx (Store i c) cs = ((\<exists>out. cs = all_calls ctx i c out) \<and> process_result c)"
| "calls_so_far ctx _ cs = True"

definition finished_work :: "thread_context \<Rightarrow> work list \<Rightarrow> queue \<Rightarrow> nat \<Rightarrow> bool" where
  "finished_work ctx works q i \<longleftrightarrow>
     (\<exists>c out. process_result c \<and> calls_of q i = all_calls ctx i c out \<and>
              queue_works q ! i = (works ! i)\<lparr>exit_code := c\<rparr>)"

definition counter_ok :: "thread_context \<Rightarrow> work list \<Rightarrow> queue \<Rightarrow> thread list \<Rightarrow> bool" where
  "counter_ok ctx works q ths \<longleftrightarrow>
     0 \<le> next_to_work q \<and> next_to_work q \<le> work_count ctx \<and> length (queue_works q) = length works \<and>
     (\<forall>t < length ths. \<forall>n. ths ! t = Compare n \<longrightarrow> 0 \<le> n \<and> n \<le> next_to_work q) \<and>
     (\<forall>t < length ths. \<forall>i. thread_work (ths ! t) = Some i \<longrightarrow> int i < next_to_work q) \<and>
     (\<forall>t < length ths. ths ! t = Returned \<longrightarrow> next_to_work q = work_count ctx) \<and>
     (\<forall>cb \<in> set (callbacks q). int (callback_index cb) < next_to_work q)"

definition claims_ok :: "thread list \<Rightarrow> bool" where
  "claims_ok ths \<longleftrightarrow>
     (\<forall>t < length ths. \<forall>u < length ths. \<forall>i. thread_work (ths ! t) = Some i \<longrightarrow> thread_work (ths ! u) = Some i \<longrightarrow> t = u)"

definition lock_ok :: "queue \<Rightarrow> thread list \<Rightarrow> bool" where
  "lock_ok q ths \<longleftrightarrow>
     (\<forall>t < length ths. in_callback (ths ! t) \<longleftrightarrow> callback_lock q = Some t) \<and>
     (\<forall>t. callback_lock q = Some t \<longrightarrow> t < length ths)"

definition works_ok :: "thread_context \<Rightarrow> work list \<Rightarrow> queue \<Rightarrow> thread list \<Rightarrow> bool" where
  "works_ok ctx works q ths \<longleftrightarrow>
     (\<forall>t < length ths. \<forall>i. thread_work (ths ! t) = Some i \<longrightarrow>
        calls_so_far ctx (ths ! t) (calls_of q i) \<and> queue_works q ! i = works ! i) \<and>
     (\<forall>i < length works. if next_to_work q \<le> int i then queue_works q ! i = works ! i
        else (\<exists>t < length ths. thread_work (ths ! t) = Some i) \<or> finished_work ctx works q i)"

definition main_ok :: "nat \<Rightarrow> work list \<Rightarrow> pool \<Rightarrow> bool" where
  "main_ok thread_count works p \<longleftrightarrow>
     length (pool_threads p) = thread_count \<and>
     (case main p of
        Start \<Rightarrow> (\<forall>t < thread_count. pool_threads p ! t = Not_created)
      | Creating j \<Rightarrow> j \<le> thread_count \<and> (\<forall>t < thread_count. pool_threads p ! t = Not_created \<longleftrightarrow> j \<le> t)
      | Joining j \<Rightarrow> j \<le> thread_count \<and> (\<forall>t < thread_count. pool_threads p ! t \<noteq> Not_created) \<and>
          (\<forall>t < j. pool_threads p ! t \<in> {Not_valid, Returned})
      | Main_returned \<Rightarrow>
          (\<forall>t < thread_count. pool_threads p ! t \<in> {Not_valid, Returned}) \<or> 
          (\<forall>t < thread_count. pool_threads p ! t = Not_created)) \<and>
     ((\<forall>t < thread_count. pool_threads p ! t \<in> {Not_created, Not_valid}) \<longrightarrow>
        queue p = queue (initial_pool thread_count works))"

definition pool_ok :: "thread_context \<Rightarrow> nat \<Rightarrow> work list \<Rightarrow> pool \<Rightarrow> bool" where
  "pool_ok ctx thread_count works p \<longleftrightarrow>
     work_count ctx = int (length works) \<and> main_ok thread_count works p \<and>
     counter_ok ctx works (queue p) (pool_threads p) \<and> claims_ok (pool_threads p) \<and>
     lock_ok (queue p) (pool_threads p) \<and> works_ok ctx works (queue p) (pool_threads p)"

subsection \<open>Each step keeps it\<close>

lemma thread_cases:
  assumes "thread_step ctx t c out q th = Some (q', th')"
  obtains
    (load) "th = Load" "q' = q" "th' = Compare (next_to_work q)"
  | (stop) "th = Compare (work_count ctx)" "q' = q" "th' = Returned"
  | (retry) n where "th = Compare n" "n \<noteq> work_count ctx" "n \<noteq> next_to_work q" "q' = q" "th' = Load"
  | (claim) n where "th = Compare n" "n \<noteq> work_count ctx" "n = next_to_work q" "q' = q\<lparr>next_to_work := n + 1\<rparr>"
      "th' = (if has_progression ctx then Lock_progression (nat n) else Process (nat n))"
  | (lock1) i where "th = Lock_progression i" "callback_lock q = None" "q' = q\<lparr>callback_lock := Some t\<rparr>" "th' = On_progression i"
  | (call1) i where "th = On_progression i"
      "q' = q\<lparr>callbacks := callbacks q @ [Progression i], callback_lock := None\<rparr>" "th' = Process i"
  | (process) i where "th = Process i" "q' = q" "th' = (if has_completion ctx then Lock_completion i c out else Store i c)"
  | (lock2) i c' out' where "th = Lock_completion i c' out'" "callback_lock q = None"
      "q' = q\<lparr>callback_lock := Some t\<rparr>" "th' = On_completion i c' out'"
  | (call2) i c' out' where "th = On_completion i c' out'"
      "q' = q\<lparr>callbacks := callbacks q @ [Completion i c' out'], callback_lock := None\<rparr>" "th' = Store i c'"
  | (store) i c' where "th = Store i c'"
      "q' = q\<lparr>queue_works := (queue_works q)[i := (queue_works q ! i)\<lparr>exit_code := c'\<rparr>]\<rparr>" "th' = Load"
  using assms by (cases th) (auto split: if_splits)

lemma thread_step_counter:
  assumes "thread_step ctx t c out q (ths ! t) = Some (q', th')" and "t < length ths" and "counter_ok ctx works q ths"
  shows "counter_ok ctx works q' (ths[t := th'])"
  using assms(1)
proof (cases rule: thread_cases)
  case (claim n)
  then show ?thesis using assms(2,3) by (force simp: counter_ok_def nth_list_update)
next
  case (call1 i)
  then show ?thesis using assms(2,3) by (force simp: counter_ok_def nth_list_update)
next
  case (call2 i c' out')
  then show ?thesis using assms(2,3) by (force simp: counter_ok_def nth_list_update)
qed (use assms(2,3) in \<open>force simp: counter_ok_def nth_list_update\<close>)+

lemma claims_update:
  assumes "claims_ok ths" and "t < length ths"
    and "\<And>i. thread_work th' = Some i \<Longrightarrow> thread_work (ths ! t) = Some i \<or> (\<forall>u < length ths. thread_work (ths ! u) \<noteq> Some i)"
  shows "claims_ok (ths[t := th'])"
  unfolding claims_ok_def
proof (intro allI impI)
  fix u v i
  assume "u < length (ths[t := th'])" "v < length (ths[t := th'])"
    "thread_work (ths[t := th'] ! u) = Some i" "thread_work (ths[t := th'] ! v) = Some i"
  with assms show "u = v"
    unfolding claims_ok_def by (metis length_list_update nth_list_update_eq nth_list_update_neq)
qed

lemma thread_step_claims:
  assumes "thread_step ctx t c out q (ths ! t) = Some (q', th')" and "t < length ths" and "counter_ok ctx works q ths"
    and "claims_ok ths"
  shows "claims_ok (ths[t := th'])"
  using assms(1)
proof (cases rule: thread_cases)
  case (claim n)
  then have "nat n = nat (next_to_work q)" "0 \<le> next_to_work q" using assms(3) by (auto simp: counter_ok_def)
  with claim show ?thesis
    using assms(3) by (intro claims_update [OF assms(4,2)]) (force simp: counter_ok_def split: if_splits)
qed (rule claims_update [OF assms(4,2)]; simp split: if_splits)+

lemma thread_step_lock:
  assumes "thread_step ctx t c out q (ths ! t) = Some (q', th')" and "t < length ths" and "lock_ok q ths"
  shows "lock_ok q' (ths[t := th'])"
  using assms(1)
  by (cases rule: thread_cases) (use assms(2,3) in \<open>force simp: lock_ok_def nth_list_update\<close>)+

text \<open>A step of the thread that does work \<open>i\<close> leaves the other works alone.\<close>

lemma works_of_step:
  assumes "works_ok ctx works q ths" and "claims_ok ths" and "t < length ths" and "thread_work (ths ! t) = Some i"
    and "int i < next_to_work q" and "next_to_work q' = next_to_work q"
    and others: "\<And>j. j \<noteq> i \<Longrightarrow> calls_of q' j = calls_of q j \<and> queue_works q' ! j = queue_works q ! j"
    and own: "thread_work th' = Some i \<and> calls_so_far ctx th' (calls_of q' i) \<and> queue_works q' ! i = works ! i \<or>
      thread_work th' = None \<and> finished_work ctx works q' i"
  shows "works_ok ctx works q' (ths[t := th'])"
  unfolding works_ok_def
proof (intro conjI allI impI)
  fix u j
  assume u: "u < length (ths[t := th'])" "thread_work (ths[t := th'] ! u) = Some j"
  have "calls_so_far ctx (ths[t := th'] ! u) (calls_of q' j) \<and> queue_works q' ! j = works ! j"
  proof (cases "u = t")
    case True
    then show ?thesis using own u assms(3) by auto
  next
    case False
    with u assms(2-4) have "j \<noteq> i" by (auto simp: claims_ok_def)
    with False u others show ?thesis using assms(1) by (auto simp: works_ok_def)
  qed
  then show "calls_so_far ctx (ths[t := th'] ! u) (calls_of q' j)" "queue_works q' ! j = works ! j" by auto
next
  fix j
  assume j: "j < length works"
  have "(\<exists>u < length ths. thread_work (ths[t := th'] ! u) = Some j) \<or> finished_work ctx works q' j"
    if "int j < next_to_work q"
  proof (cases "j = i")
    case True
    then show ?thesis using own assms(3) by auto
  next
    case False
    have "finished_work ctx works q j \<Longrightarrow> finished_work ctx works q' j"
      using others [OF False] by (simp add: finished_work_def)
    moreover have "thread_work (ths[t := th'] ! u) = Some j" if "thread_work (ths ! u) = Some j" for u
      using that False assms(4) by (cases "u = t") auto
    ultimately show ?thesis
      using assms(1) j that unfolding works_ok_def by (metis (full_types) linorder_not_le)
  qed
  moreover have "queue_works q' ! j = works ! j" if "next_to_work q \<le> int j"
    using assms(1,5) others [of j] j that by (cases "j = i") (auto simp: works_ok_def)
  ultimately show "if next_to_work q' \<le> int j then queue_works q' ! j = works ! j
      else (\<exists>u < length (ths[t := th']). thread_work (ths[t := th'] ! u) = Some j) \<or> finished_work ctx works q' j"
    using assms(6) by (cases "next_to_work q \<le> int j") simp_all
qed

lemma calls_of_append:
  "calls_of (q\<lparr>callbacks := callbacks q @ [cb]\<rparr>) j =
    (if callback_index cb = j then calls_of q j @ [cb] else calls_of q j)"
  by (simp add: calls_of_def)

lemma calls_of_same [simp]:
  "calls_of (q\<lparr>callback_lock := l\<rparr>) j = calls_of q j" "calls_of (q\<lparr>next_to_work := n\<rparr>) j = calls_of q j"
  "calls_of (q\<lparr>queue_works := ws\<rparr>) j = calls_of q j"
  by (simp_all add: calls_of_def)

lemma works_other_step:
  assumes "works_ok ctx works q ths" and "t < length ths" and "thread_work (ths ! t) = None" and "thread_work th' = None"
  shows "works_ok ctx works q (ths[t := th'])"
proof -
  have work: "(thread_work (ths[t := th'] ! u) = Some j) = (thread_work (ths ! u) = Some j)" for u j
    using assms(2-4) by (cases "u = t") auto
  have same: "ths[t := th'] ! u = ths ! u" if "thread_work (ths ! u) = Some j" for u j
    using that assms(3) by (cases "u = t") auto
  show ?thesis
    using assms(1) unfolding works_ok_def length_list_update work by (simp add: same)
qed

lemma works_claim_step:
  assumes "works_ok ctx works q ths" and "counter_ok ctx works q ths" and "t < length ths"
    and "thread_work (ths ! t) = None" and "next_to_work q < work_count ctx" and "work_count ctx = int (length works)"
    and "n = next_to_work q"
    and "th' = (if has_progression ctx then Lock_progression (nat n) else Process (nat n))"
  shows "works_ok ctx works (q\<lparr>next_to_work := n + 1\<rparr>) (ths[t := th'])"
proof -
  have n: "0 \<le> n" "thread_work th' = Some (nat n)" "nat n < length works"
    using assms(2,5-8) by (auto simp: counter_ok_def)
  have "calls_of q (nat n) = []"
    using assms(2,7) n by (force simp: calls_of_def filter_empty_conv counter_ok_def)
  then have new: "calls_so_far ctx th' (calls_of q (nat n))" "queue_works q ! nat n = works ! nat n"
    using assms(1,7,8) n by (auto simp: works_ok_def first_calls_def)
  have other: "ths[t := th'] ! u = ths ! u" if "thread_work (ths ! u) = Some j" for u j
    using that assms(4) by (cases "u = t") auto
  have old: "thread_work (ths[t := th'] ! u) = Some j \<longleftrightarrow> u = t \<and> j = nat n \<or> thread_work (ths ! u) = Some j"
    if "u < length ths" for u j
    using that n assms(4) by (cases "u = t") auto
  show ?thesis
    unfolding works_ok_def
  proof (intro conjI allI impI)
    fix u j
    assume u: "u < length (ths[t := th'])" "thread_work (ths[t := th'] ! u) = Some j"
    then have "u = t \<and> j = nat n \<or> thread_work (ths ! u) = Some j" using old by simp
    then show "calls_so_far ctx (ths[t := th'] ! u) (calls_of (q\<lparr>next_to_work := n + 1\<rparr>) j)"
      "queue_works (q\<lparr>next_to_work := n + 1\<rparr>) ! j = works ! j"
      using new u other assms(1,3) by (auto simp: works_ok_def)
  next
    fix j
    assume j: "j < length works"
    consider "j = nat n" | "int j < n" | "n < int j" using n(1) by linarith
    then show "if next_to_work (q\<lparr>next_to_work := n + 1\<rparr>) \<le> int j then queue_works (q\<lparr>next_to_work := n + 1\<rparr>) ! j = works ! j
      else (\<exists>u < length (ths[t := th']). thread_work (ths[t := th'] ! u) = Some j) \<or>
           finished_work ctx works (q\<lparr>next_to_work := n + 1\<rparr>) j"
    proof cases
      case 1
      then show ?thesis using n(1,2) assms(3) by (auto intro!: exI [of _ t])
    next
      case 2
      then have "(\<exists>u < length ths. thread_work (ths ! u) = Some j) \<or> finished_work ctx works q j"
        using assms(1,7) j unfolding works_ok_def by (metis linorder_not_le)
      then show ?thesis using 2 old by (auto simp: finished_work_def)
    next
      case 3
      then show ?thesis using assms(1,7) j by (auto simp: works_ok_def)
    qed
  qed
qed

lemma thread_step_works:
  assumes "thread_step ctx t c out q (ths ! t) = Some (q', th')" and "t < length ths" and "process_result c"
    and "work_count ctx = int (length works)"
    and "counter_ok ctx works q ths" and "claims_ok ths" and works: "works_ok ctx works q ths"
  shows "works_ok ctx works q' (ths[t := th'])"
proof -
  have own: "calls_so_far ctx (ths ! t) (calls_of q i)" "queue_works q ! i = works ! i" "int i < next_to_work q"
    "i < length (queue_works q)"
    if "thread_work (ths ! t) = Some i" for i
    using that works assms(2,4,5) by (force simp: works_ok_def counter_ok_def)+
  show ?thesis
    using assms(1)
  proof (cases rule: thread_cases)
    case (claim n)
    have "n \<le> work_count ctx" using claim assms(5) by (simp add: counter_ok_def)
    then have "next_to_work q < work_count ctx" using claim by simp
    with claim show ?thesis using works_claim_step [OF works assms(5,2)] assms(4) by simp
  next
    case (lock1 i)
    then show ?thesis using own [of i] by (intro works_of_step [OF works assms(6,2)]) auto
  next
    case (call1 i)
    then show ?thesis using own [of i]
      by (intro works_of_step [OF works assms(6,2)]) (auto simp: calls_of_append first_calls_def)
  next
    case (process i)
    then show ?thesis using own [of i] assms(3)
      by (intro works_of_step [OF works assms(6,2)]) (auto simp: all_calls_def)
  next
    case (lock2 i c' out')
    then show ?thesis using own [of i] by (intro works_of_step [OF works assms(6,2)]) auto
  next
    case (call2 i c' out')
    then show ?thesis using own [of i]
      by (intro works_of_step [OF works assms(6,2)]) (auto simp: calls_of_append all_calls_def)
  next
    case (store i c')
    then show ?thesis using own [of i]
      by (intro works_of_step [OF works assms(6,2)]) (auto simp: finished_work_def)
  qed (simp_all add: works_other_step [OF works assms(2)])
qed

subsection \<open>The invariant of the pool\<close>

lemma main_step:
  assumes "pool_step ctx p p'" and "main_ok n works p"
    and returned: "\<And>t. t < n \<Longrightarrow> pool_threads p ! t = Returned \<Longrightarrow> pool_threads p' ! t = Returned"
  shows "main_ok n works p'"
  using assms(1)
proof cases
  case (thread_runs t c out q th)
  have th: "pool_threads p ! t \<notin> {Not_created, Not_valid, Returned}" "th \<notin> {Not_created, Not_valid}"
    using thread_runs(4) by (auto elim: thread_cases split: if_splits)
  with thread_runs assms(2) show ?thesis
    by (cases "main p") (auto simp: main_ok_def nth_list_update)
next
  case (thread_failed i)
  then have "pool_threads p ! i = Not_created" using assms(2) by (simp add: main_ok_def)
  then have "pool_threads p ! t \<in> {Not_created, Not_valid}"
    if "(pool_threads p)[i := Not_valid] ! t \<in> {Not_created, Not_valid}" for t
    using that by (cases "t = i") auto
  then have "queue p = queue (initial_pool n works)"
    if "\<forall>t < n. (pool_threads p)[i := Not_valid] ! t \<in> {Not_created, Not_valid}"
    using that assms(2) unfolding main_ok_def by blast
  with thread_failed assms(2) show ?thesis
    unfolding main_ok_def by (intro conjI) (auto simp: nth_list_update less_Suc_eq simp del: insert_iff)
qed (use assms(2) in \<open>auto simp: main_ok_def initial_pool_def nth_list_update less_Suc_eq split: if_splits\<close>)

lemma idle_update:
  assumes "t < length ths" and "thread_work (ths ! t) = None" and "\<not> in_callback (ths ! t)"
    and "th' = Load \<or> th' = Not_valid"
    and "counter_ok ctx works q ths" and "claims_ok ths" and "lock_ok q ths" and "works_ok ctx works q ths"
  shows "counter_ok ctx works q (ths[t := th'])" "claims_ok (ths[t := th'])" "lock_ok q (ths[t := th'])"
    "works_ok ctx works q (ths[t := th'])"
proof -
  show "counter_ok ctx works q (ths[t := th'])"
    using assms(1,4,5) by (force simp: counter_ok_def nth_list_update)
  show "claims_ok (ths[t := th'])"
    using assms(4) by (intro claims_update [OF assms(6,1)]) auto
  show "lock_ok q (ths[t := th'])"
    using assms(1,3,4,7) by (force simp: lock_ok_def nth_list_update)
  show "works_ok ctx works q (ths[t := th'])"
    using assms(1,2,4,8) by (intro works_other_step) auto
qed

lemma pool_ok_step:
  assumes "pool_ok ctx n works p" and "pool_step ctx p p'"
  shows "pool_ok ctx n works p'"
proof -
  have main: "main_ok n works p'"
    using assms(2)
  proof (rule main_step)
    show "main_ok n works p" using assms(1) by (simp add: pool_ok_def)
    fix t assume t: "t < n" "pool_threads p ! t = Returned"
    have created: "\<And>i. main p = Creating i \<Longrightarrow> i < n \<Longrightarrow> pool_threads p ! i = Not_created"
      using assms(1) by (simp add: pool_ok_def main_ok_def)
    show "pool_threads p' ! t = Returned"
      using assms(2)
    proof cases
      case (thread_runs u c out q th)
      then show ?thesis using t by (cases "u = t") auto
    next
      case (thread_created i)
      then show ?thesis using t created [of i] assms(1) by (cases "i = t") (auto simp: pool_ok_def main_ok_def)
    next
      case (thread_failed i)
      then show ?thesis using t created [of i] assms(1) by (cases "i = t") (auto simp: pool_ok_def main_ok_def)
    qed (use t in simp_all)
  qed
  show ?thesis
    using assms(2)
  proof cases
    case (thread_created i)
    then have "pool_threads p ! i = Not_created" using assms(1) by (simp add: pool_ok_def main_ok_def)
    then show ?thesis
      using idle_update [of i "pool_threads p" Load ctx works "queue p"] assms(1) main thread_created
      by (simp add: pool_ok_def)
  next
    case (thread_failed i)
    then have "pool_threads p ! i = Not_created" using assms(1) by (simp add: pool_ok_def main_ok_def)
    then show ?thesis
      using idle_update [of i "pool_threads p" Not_valid ctx works "queue p"] assms(1) main thread_failed
      by (simp add: pool_ok_def)
  next
    case (thread_runs t c out q th)
    then show ?thesis
      using thread_step_counter [OF thread_runs(4,2), of works] thread_step_claims [OF thread_runs(4,2), of works]
        thread_step_lock [OF thread_runs(4,2)] thread_step_works [OF thread_runs(4,2,3), of works] assms(1) main
      by (simp add: pool_ok_def)
  qed (use assms(1) main in \<open>simp_all add: pool_ok_def\<close>)
qed

lemma pool_ok_initial:
  "work_count ctx = int (length works) \<Longrightarrow> pool_ok ctx n works (initial_pool n works)"
  by (auto simp: pool_ok_def initial_pool_def main_ok_def counter_ok_def claims_ok_def lock_ok_def works_ok_def)

subsection \<open>The end\<close>

definition thread_weight :: "int \<Rightarrow> thread \<Rightarrow> nat" where
  "thread_weight next th =
     (case th of
        Not_created \<Rightarrow> 3 | Not_valid \<Rightarrow> 0 | Load \<Rightarrow> 2 | Compare n \<Rightarrow> if n = next then 1 else 3
      | Lock_progression i \<Rightarrow> 9 | On_progression i \<Rightarrow> 8 | Process i \<Rightarrow> 7 | Lock_completion i c out \<Rightarrow> 6
      | On_completion i c out \<Rightarrow> 5 | Store i c \<Rightarrow> 4 | Returned \<Rightarrow> 0)"

definition threads_weight :: "int \<Rightarrow> thread list \<Rightarrow> nat" where
  "threads_weight next ths = (\<Sum>t < length ths. thread_weight next (ths ! t))"

fun main_weight :: "nat \<Rightarrow> main_thread \<Rightarrow> nat" where
  "main_weight n Start = 2 * n + 3"
| "main_weight n (Creating j) = n - j + n + 2"
| "main_weight n (Joining j) = n - j + 1"
| "main_weight n Main_returned = 0"

definition pool_weight :: "thread_context \<Rightarrow> pool \<Rightarrow> nat" where
  "pool_weight ctx p =
     (let n = length (pool_threads p); next = next_to_work (queue p) in
      main_weight n (main p) + nat (work_count ctx - next) * (2 * n + 9) + threads_weight next (pool_threads p))"

lemma threads_weight_update:
  "t < length ths \<Longrightarrow> thread_weight next th < thread_weight next (ths ! t) \<Longrightarrow>
    threads_weight next (ths[t := th]) < threads_weight next ths"
  unfolding threads_weight_def length_list_update
  by (rule sum_strict_mono_ex1) (auto simp: nth_list_update)

lemma threads_weight_claim:
  assumes "t < length ths" and "ths ! t = Compare next" and "thread_weight (next + 1) th \<le> 9"
  shows "threads_weight (next + 1) (ths[t := th]) \<le> threads_weight next ths + 2 * length ths + 8"
proof -
  have "threads_weight (next + 1) (ths[t := th]) \<le>
      (\<Sum>u < length ths. thread_weight next (ths ! u) + 2 + (if u = t then 8 else 0))"
    unfolding threads_weight_def length_list_update
  proof (rule sum_mono)
    fix u assume "u \<in> {..<length ths}"
    then show "thread_weight (next + 1) (ths[t := th] ! u) \<le> thread_weight next (ths ! u) + 2 + (if u = t then 8 else 0)"
      using assms(2,3) by (cases "u = t") (auto simp: thread_weight_def nth_list_update split: thread.split)
  qed
  also have "\<dots> = threads_weight next ths + 2 * length ths + 8"
    using assms(1) by (simp only: sum.distrib threads_weight_def) simp
  finally show ?thesis .
qed

lemma pool_weight_step:
  assumes "pool_ok ctx n works p" and "pool_step ctx p p'"
  shows "pool_weight ctx p' < pool_weight ctx p"
  using assms(2)
proof cases
  case (thread_created i)
  then have "pool_threads p ! i = Not_created" using assms(1) by (simp add: pool_ok_def main_ok_def)
  then show ?thesis
    using thread_created threads_weight_update [of i "pool_threads p" "next_to_work (queue p)" Load]
    by (simp add: pool_weight_def Let_def thread_weight_def)
next
  case (thread_failed i)
  then have "pool_threads p ! i = Not_created" using assms(1) by (simp add: pool_ok_def main_ok_def)
  then show ?thesis
    using thread_failed threads_weight_update [of i "pool_threads p" "next_to_work (queue p)" Not_valid]
    by (simp add: pool_weight_def Let_def thread_weight_def)
next
  case (thread_runs t c out q th)
  have counter: "counter_ok ctx works (queue p) (pool_threads p)" using assms(1) by (simp add: pool_ok_def)
  show ?thesis
  proof (cases "next_to_work q = next_to_work (queue p)")
    case True
    have "thread_weight (next_to_work q) th < thread_weight (next_to_work q) (pool_threads p ! t)"
      using thread_runs(4)
      by (cases rule: thread_cases)
        (use counter thread_runs(2) True in \<open>force simp: thread_weight_def counter_ok_def split: if_splits\<close>)+
    then show ?thesis
      using threads_weight_update [OF thread_runs(2)] True thread_runs(1) by (simp add: pool_weight_def Let_def)
  next
    case False
    from thread_runs(4) False obtain m where m: "pool_threads p ! t = Compare m" "m = next_to_work (queue p)"
      "m \<noteq> work_count ctx" "next_to_work q = m + 1" "thread_weight (m + 1) th \<le> 9"
      by (auto elim!: thread_cases simp: thread_weight_def split: if_splits)
    moreover have "m \<le> work_count ctx" using counter m(2) by (simp add: counter_ok_def)
    then have "nat (work_count ctx - m) = Suc (nat (work_count ctx - (m + 1)))" using m(3) by simp
    ultimately show ?thesis
      using threads_weight_claim [OF thread_runs(2), of m th] thread_runs(1)
      by (simp add: pool_weight_def Let_def algebra_simps)
  qed
qed (use assms(1) in \<open>auto simp: pool_weight_def Let_def pool_ok_def main_ok_def\<close>)

lemma thread_moves:
  "th \<notin> {Not_created, Not_valid, Returned} \<Longrightarrow> callback_lock q = None \<or> in_callback th \<Longrightarrow>
    thread_step ctx t 0 out q th \<noteq> None"
  by (cases th) auto

lemma pool_moves:
  assumes "pool_ok ctx n works p" and "main p \<noteq> Main_returned"
  shows "\<exists>p'. pool_step ctx p p'"
proof -
  have runs: "\<exists>p'. pool_step ctx p p'"
    if "t < length (pool_threads p)" "pool_threads p ! t \<notin> {Not_created, Not_valid, Returned}"
      "callback_lock (queue p) = None \<or> in_callback (pool_threads p ! t)" for t
    using thread_moves [OF that(2,3), of ctx t "[]"] pool_step.thread_runs [OF that(1), of 0 ctx "[]"]
    by (auto simp: process_result_def)
  show ?thesis
  proof (cases "main p")
    case Start
    then show ?thesis by (blast intro: pool_step.lock_created)
  next
    case (Creating j)
    then show ?thesis
      using assms(1) pool_step.thread_created [OF Creating] pool_step.all_created [of p ctx]
      by (cases "j < length (pool_threads p)") (auto simp: pool_ok_def main_ok_def)
  next
    case (Joining j)
    then have j: "j \<le> length (pool_threads p)" "\<forall>t < length (pool_threads p). pool_threads p ! t \<noteq> Not_created"
      using assms(1) by (auto simp: pool_ok_def main_ok_def)
    consider "j = length (pool_threads p)"
      | "j < length (pool_threads p)" "pool_threads p ! j \<in> {Not_valid, Returned}"
      | "j < length (pool_threads p)" "pool_threads p ! j \<notin> {Not_created, Not_valid, Returned}"
      using j by fastforce
    then show ?thesis
    proof cases
      case 3
      show ?thesis
      proof (cases "callback_lock (queue p)")
        case (Some t)
        then have "t < length (pool_threads p)" "in_callback (pool_threads p ! t)"
          using assms(1) by (auto simp: pool_ok_def lock_ok_def)
        then show ?thesis using runs [of t] by (cases "pool_threads p ! t") auto
      qed (use runs 3 in blast)
    qed (use Joining in \<open>blast intro: pool_step.joined pool_step.all_joined\<close>)+
  qed (use assms(2) in simp)
qed

interpretation pool: transition_system
  "\<lambda>p. work_count ctx = int (length works) \<and> p = initial_pool n works"
  "pool_step ctx" "pool_ok ctx n works" "pool_weight ctx" for ctx n works
  by unfold_locales (auto intro: pool_ok_initial pool_ok_step pool_weight_step)

lemmas pool_reached = pool.reached [OF conjI [OF _ refl]]

subsection \<open>Runs given by a schedule\<close>

text \<open>The executable form of \<open>pool_step\<close>, to run examples: which thread moves, whether a creation
  succeeds, and how a process ends.\<close>

datatype move = Main_moves bool | Thread_moves nat int string

fun main_move :: "bool \<Rightarrow> pool \<Rightarrow> pool option" where
  "main_move ok p =
     (case main p of
        Start \<Rightarrow> Some (p\<lparr>main := if ok then Creating 0 else Main_returned\<rparr>)
      | Creating i \<Rightarrow>
          if i < length (pool_threads p)
          then Some (p\<lparr>main := Creating (Suc i),
                       pool_threads := (pool_threads p)[i := if ok then Load else Not_valid]\<rparr>)
          else if i = length (pool_threads p) then Some (p\<lparr>main := Joining 0\<rparr>) else None
      | Joining i \<Rightarrow>
          if i = length (pool_threads p) then Some (p\<lparr>main := Main_returned\<rparr>)
          else if i < length (pool_threads p) \<and> pool_threads p ! i \<in> {Not_valid, Returned}
          then Some (p\<lparr>main := Joining (Suc i)\<rparr>) else None
      | Main_returned \<Rightarrow> None)"

fun pool_move :: "thread_context \<Rightarrow> move \<Rightarrow> pool \<Rightarrow> pool option" where
  "pool_move ctx (Main_moves ok) p = main_move ok p"
| "pool_move ctx (Thread_moves t c out) p =
     (if t < length (pool_threads p) \<and> process_result c
      then map_option (\<lambda>(q, th). p\<lparr>pool_threads := (pool_threads p)[t := th], queue := q\<rparr>)
             (thread_step ctx t c out (queue p) (pool_threads p ! t))
      else None)"

fun pool_moves_by :: "thread_context \<Rightarrow> move list \<Rightarrow> pool \<Rightarrow> pool option" where
  "pool_moves_by ctx [] p = Some p"
| "pool_moves_by ctx (m # ms) p = (case pool_move ctx m p of None \<Rightarrow> None | Some p' \<Rightarrow> pool_moves_by ctx ms p')"

lemma pool_move_step: "pool_move ctx m p = Some p' \<Longrightarrow> pool_step ctx p p'"
proof (cases m)
  case (Main_moves ok)
  assume "pool_move ctx m p = Some p'"
  with Main_moves show ?thesis
    by (cases "main p") (auto split: if_splits intro: pool_step.intros)
next
  case (Thread_moves t c out)
  assume "pool_move ctx m p = Some p'"
  with Thread_moves show ?thesis
    by (auto split: if_splits intro: pool_step.thread_runs)
qed

lemma pool_moves_by_steps: "pool_moves_by ctx ms p = Some p' \<Longrightarrow> (pool_step ctx)\<^sup>*\<^sup>* p p'"
proof (induction ms arbitrary: p)
  case (Cons m ms)
  then obtain q where "pool_move ctx m p = Some q" "(pool_step ctx)\<^sup>*\<^sup>* q p'" by (auto split: option.splits)
  then show ?case by (auto intro: converse_rtranclp_into_rtranclp pool_move_step)
qed simp

text \<open>One thread that runs one work.\<close>

definition sample_context :: thread_context where
  "sample_context = \<lparr>work_count = 1, has_progression = True, has_completion = True\<rparr>"

definition sample_work :: work where
  "sample_work = \<lparr>exit_code = 0, work_command = ''make'', work_dir = ''d'', stdout_path = [], stderr_path = []\<rparr>"

definition sample_end :: pool where
  "sample_end =
     \<lparr>main = Main_returned, pool_threads = [Returned],
      queue = \<lparr>next_to_work = 1, queue_works = [sample_work\<lparr>exit_code := 2\<rparr>], callback_lock = None,
               callbacks = [Progression 0, Completion 0 2 ''out'']\<rparr>\<rparr>"

lemma sample_run: "(pool_step sample_context)\<^sup>*\<^sup>* (initial_pool 1 [sample_work]) sample_end"
proof (rule pool_moves_by_steps)
  show "pool_moves_by sample_context
      (replicate 3 (Main_moves True) @ replicate 10 (Thread_moves 0 2 ''out'') @ replicate 2 (Main_moves True))
      (initial_pool 1 [sample_work]) = Some sample_end"
    by code_simp
qed

text \<open>When the main thread has returned and a thread has run, every work is finished.\<close>

lemma finished_works:
  assumes "work_count ctx = int (length works)"
    and "(pool_step ctx)\<^sup>*\<^sup>* (initial_pool n works) p"
    and "main p = Main_returned" and "Returned \<in> set (pool_threads p)"
  shows "length (queue_works (queue p)) = length works \<and> (\<forall>i < length works. finished_work ctx works (queue p) i)"
proof -
  have ok: "pool_ok ctx n works p" by (rule pool_reached [OF assms(1,2)])
  obtain t where t: "t < length (pool_threads p)" "pool_threads p ! t = Returned"
    using assms(4) by (auto simp: in_set_conv_nth)
  then have all: "next_to_work (queue p) = int (length works)"
    using ok assms(1) by (auto simp: pool_ok_def counter_ok_def)
  have "\<forall>u < length (pool_threads p). pool_threads p ! u \<in> {Not_valid, Returned}"
    using ok assms(3) t by (auto simp: pool_ok_def main_ok_def)
  then have "\<forall>u < length (pool_threads p). thread_work (pool_threads p ! u) = None" by auto
  then have "finished_work ctx works (queue p) i" if "i < length works" for i
    using ok all that by (force simp: pool_ok_def works_ok_def)
  then show ?thesis
    using ok by (auto simp: pool_ok_def counter_ok_def)
qed

subsection \<open>Properties\<close>

text \<open>C22: when \<open>wait_for_completion\<close> returns and at least one thread could be created, every work has
  been run exactly once, however the threads were interleaved: its callbacks are one call of
  \<open>on_progression\<close> and then one of \<open>on_completion\<close> (where given), and its exit code is the one reported.\<close>

theorem works_run_once:
  assumes "work_count ctx = int (length works)"
    and "(pool_step ctx)\<^sup>*\<^sup>* (initial_pool n works) p"
    and "main p = Main_returned" and "Returned \<in> set (pool_threads p)"
  shows "length (queue_works (queue p)) = length works \<and>
    (\<forall>i < length works. \<exists>c out. process_result c \<and>
       filter (\<lambda>cb. callback_index cb = i) (callbacks (queue p)) =
         (if has_progression ctx then [Progression i] else []) @ (if has_completion ctx then [Completion i c out] else []) \<and>
       queue_works (queue p) ! i = (works ! i)\<lparr>exit_code := c\<rparr>)"
  using finished_works [OF assms]
  by (auto simp: finished_work_def calls_of_def all_calls_def first_calls_def)

theorem works_run_once_witness:
  "length (queue_works (queue sample_end)) = 1 \<and>
    (\<exists>c out. process_result c \<and>
       filter (\<lambda>cb. callback_index cb = 0) (callbacks (queue sample_end)) = [Progression 0, Completion 0 c out] \<and>
       queue_works (queue sample_end) ! 0 = sample_work\<lparr>exit_code := c\<rparr>)"
proof -
  have "length (queue_works (queue sample_end)) = length [sample_work] \<and>
    (\<forall>i < length [sample_work]. \<exists>c out. process_result c \<and>
       filter (\<lambda>cb. callback_index cb = i) (callbacks (queue sample_end)) =
         (if has_progression sample_context then [Progression i] else []) @
         (if has_completion sample_context then [Completion i c out] else []) \<and>
       queue_works (queue sample_end) ! i = ([sample_work] ! i)\<lparr>exit_code := c\<rparr>)"
    by (rule works_run_once [OF _ sample_run]) (simp_all add: sample_context_def sample_end_def)
  then show ?thesis by (simp add: sample_context_def)
qed

text \<open>At no moment are two threads inside a callback, or two threads at the same work.\<close>

lemma callbacks_exclusive:
  assumes "work_count ctx = int (length works)"
    and "(pool_step ctx)\<^sup>*\<^sup>* (initial_pool n works) p"
    and "t < length (pool_threads p)" and "u < length (pool_threads p)" and "t \<noteq> u"
  shows "\<not> (in_callback (pool_threads p ! t) \<and> in_callback (pool_threads p ! u)) \<and>
    (thread_work (pool_threads p ! t) = None \<or> thread_work (pool_threads p ! t) \<noteq> thread_work (pool_threads p ! u))"
proof -
  have "lock_ok (queue p) (pool_threads p)" "claims_ok (pool_threads p)"
    using pool_reached [OF assms(1,2)] by (auto simp: pool_ok_def)
  then show ?thesis
    using assms(3-5) unfolding lock_ok_def claims_ok_def by (metis option.exhaust option.inject)
qed

text \<open>C23: \<open>wait_for_completion\<close> returns, provided every command does: no run is longer than a bound
  given by the numbers of threads and works, a compare-and-swap that fails and is repeated included,
  and the threads cannot block each other, so every run can be continued until the main thread returns.\<close>

theorem wait_for_completion_ends:
  assumes "work_count ctx = int (length works)"
  shows "(\<forall>r k. r 0 = initial_pool n works \<longrightarrow> (\<forall>i < k. pool_step ctx (r i) (r (Suc i))) \<longrightarrow>
      k \<le> 5 * n + 3 + length works * (2 * n + 9)) \<and>
    (\<forall>p. (pool_step ctx)\<^sup>*\<^sup>* (initial_pool n works) p \<longrightarrow>
      (\<exists>p'. (pool_step ctx)\<^sup>*\<^sup>* p p' \<and> main p' = Main_returned))"
proof (intro conjI allI impI)
  fix r k
  assume r: "r (0::nat) = initial_pool n works" "\<forall>i < k. pool_step ctx (r i) (r (Suc i))"
  have "pool_ok ctx n works (r 0)" unfolding r(1) by (rule pool_ok_initial [OF assms])
  from pool.run_length [OF this r(2)]
  have "k \<le> pool_weight ctx (initial_pool n works)" by (simp add: r(1))
  also have "\<dots> = 5 * n + 3 + length works * (2 * n + 9)"
    using assms
    by (simp add: pool_weight_def initial_pool_def Let_def threads_weight_def thread_weight_def nth_replicate
        cong: sum.cong_simp)
  finally show "k \<le> 5 * n + 3 + length works * (2 * n + 9)" .
next
  fix p assume "(pool_step ctx)\<^sup>*\<^sup>* (initial_pool n works) p"
  from pool_reached [OF assms this]
  show "\<exists>p'. (pool_step ctx)\<^sup>*\<^sup>* p p' \<and> main p' = Main_returned"
    by (rule pool.ends) (rule pool_moves)
qed

theorem wait_for_completion_ends_witness:
  "\<exists>p'. (pool_step sample_context)\<^sup>*\<^sup>* (initial_pool 1 [sample_work]) p' \<and> main p' = Main_returned"
proof -
  have "work_count sample_context = int (length [sample_work])" by (simp add: sample_context_def)
  from wait_for_completion_ends [OF this, of 1] show ?thesis by blast
qed

text \<open>When no thread can be created, or the lock cannot, \<open>wait_for_completion\<close> returns as if all was
  well: nothing is run and every exit code is still what the caller put there, which is 0, the
  code of success, for the works \<open>grade-homework\<close> allocates.\<close>

lemma no_thread_no_work:
  assumes "work_count ctx = int (length works)"
    and "(pool_step ctx)\<^sup>*\<^sup>* (initial_pool n works) p"
    and "main p = Main_returned" and "Returned \<notin> set (pool_threads p)"
  shows "queue_works (queue p) = works \<and> callbacks (queue p) = []"
proof -
  have ok: "main_ok n works p" using pool_reached [OF assms(1,2)] by (simp add: pool_ok_def)
  have "pool_threads p ! t \<noteq> Returned" if "t < n" for t
    using that assms(4) ok by (auto simp: main_ok_def dest: nth_mem)
  then have "\<forall>t < n. pool_threads p ! t \<in> {Not_created, Not_valid}"
    using ok assms(3) by (auto simp: main_ok_def)
  then show ?thesis using ok by (simp add: main_ok_def initial_pool_def)
qed

end
