(* ===== verification/ProcessIO.thy ===== *)
theory ProcessIO imports GrowBuffer WorkQueue begin

text \<open>
  What \<open>linux_exec_process\<close> and \<open>win32_exec_process\<close> (\<open>code/linux_main.c\<close>, \<open>code/win32_main.c\<close>) share: the
  loop that reads both streams of a process into buffers on the heap, the output files and the
  callbacks. What the operating system answers is a parameter: one answer per stream and turn of
  the loop.

  The locale \<open>stream_reader\<close> is the contract of reading one stream once; under it the loop collects
  in each buffer the bytes the answers carry, and stays inside the allocated blocks. Each platform
  interprets it.
\<close>

datatype stream = Std_out | Std_err

text \<open>What the function does outside its own memory, in order.\<close>

datatype os_call =
    Os_lock
  | Os_unlock
  | Os_progression nat
  | Os_completion nat int string string
  | Os_pipe stream
  | Os_close_read stream
  | Os_close_write stream
  | Os_create_process
  | Os_close_process
  | Os_close_thread
  | Os_close_indeterminate
  | Os_lock_directory
  | Os_set_directory "string option"
  | Os_unlock_directory
  | Os_write_file string string

definition progression_calls :: "thread_context \<Rightarrow> nat \<Rightarrow> os_call list" where
  "progression_calls ctx index =
     (if has_progression ctx then [Os_lock, Os_progression index, Os_unlock] else [])"

text \<open>
  The loop: \<open>None\<close> in \<open>rounds\<close> is a turn whose \<open>select\<close> fails; the result \<open>None\<close> says that the loop is
  still running after these turns.
\<close>

fun pump_loop ::
  "('a \<Rightarrow> bool \<times> GrowableBuffer \<Rightarrow> (bool \<times> GrowableBuffer) mem) \<Rightarrow> ('a \<times> 'a) option list \<Rightarrow>
   bool \<times> GrowableBuffer \<Rightarrow> bool \<times> GrowableBuffer \<Rightarrow> (GrowableBuffer \<times> GrowableBuffer) option mem" where
  "pump_loop serve rounds (more_stdout, stdout_content) (more_stderr, stderr_content) =
     (if \<not> (more_stdout \<or> more_stderr) then ret (Some (stdout_content, stderr_content))
      else case rounds of
        [] \<Rightarrow> ret None
      | None # _ \<Rightarrow> ret (Some (stdout_content, stderr_content))
      | Some (a, b) # rest \<Rightarrow>
          bnd (serve a (more_stdout, stdout_content)) (\<lambda>out.
          bnd (serve b (more_stderr, stderr_content)) (\<lambda>err.
          pump_loop serve rest out err)))"

declare pump_loop.simps [simp del]

fun load_bytes :: "nat \<Rightarrow> ptr \<Rightarrow> string mem" where
  "load_bytes 0 p = ret []"
| "load_bytes (Suc n) p = bnd (load_byte p) (\<lambda>c. bnd (load_bytes n (plus_ptr p 1)) (\<lambda>s. ret (c # s)))"

text \<open>\<open>opens\<close>: the paths \<open>fopen\<close> can open for writing.\<close>

definition save_stream :: "(string \<Rightarrow> bool) \<Rightarrow> string option \<Rightarrow> GrowableBuffer \<Rightarrow> os_call list mem" where
  "save_stream opens path content =
     (case path of
        Some path \<Rightarrow>
          if opens path
          then bnd (load_bytes (unat (buf_used content)) (buf_memory content)) (\<lambda>s. ret [Os_write_file path s])
          else ret []
      | None \<Rightarrow> ret [])"

definition completion_calls ::
  "thread_context \<Rightarrow> nat \<Rightarrow> int \<Rightarrow> GrowableBuffer \<Rightarrow> GrowableBuffer \<Rightarrow> os_call list mem" where
  "completion_calls ctx index status stdout_content stderr_content =
     (if has_completion ctx
      then bnd (load_cstring (buf_memory stdout_content)) (\<lambda>out.
           bnd (load_cstring (buf_memory stderr_content)) (\<lambda>err.
           ret [Os_lock, Os_completion index status out err, Os_unlock]))
      else ret [])"

text \<open>The end of both functions, from the last \<open>null_terminate\<close>.\<close>

definition finish_process ::
  "thread_context \<Rightarrow> (string \<Rightarrow> bool) \<Rightarrow> nat \<Rightarrow> string option \<Rightarrow> string option \<Rightarrow>
   int \<Rightarrow> GrowableBuffer \<Rightarrow> GrowableBuffer \<Rightarrow> os_call list mem" where
  "finish_process ctx opens index out_path err_path status stdout_content stderr_content =
     bnd (null_terminate stdout_content) (\<lambda>stdout_content.
     bnd (null_terminate stderr_content) (\<lambda>stderr_content.
     bnd (save_stream opens out_path stdout_content) (\<lambda>out_calls.
     bnd (save_stream opens err_path stderr_content) (\<lambda>err_calls.
     bnd (completion_calls ctx index status stdout_content stderr_content) (\<lambda>calls.
     bnd (free_growable_buffer stdout_content) (\<lambda>_.
     bnd (free_growable_buffer stderr_content) (\<lambda>_.
     ret (out_calls @ err_calls @ calls))))))))"

subsection \<open>The same on strings\<close>

fun serve_text :: "('a \<Rightarrow> string) \<Rightarrow> ('a \<Rightarrow> bool) \<Rightarrow> 'a \<Rightarrow> bool \<times> string \<Rightarrow> bool \<times> string" where
  "serve_text bytes_of goes_on a (going, s) = (if going then (goes_on a, s @ bytes_of a) else (False, s))"

fun pump_text :: "('a \<Rightarrow> string) \<Rightarrow> ('a \<Rightarrow> bool) \<Rightarrow> ('a \<times> 'a) option list \<Rightarrow>
    bool \<times> string \<Rightarrow> bool \<times> string \<Rightarrow> (string \<times> string) option" where
  "pump_text bytes_of goes_on rounds (mo, s) (me, t) =
     (if \<not> (mo \<or> me) then Some (s, t)
      else case rounds of
        [] \<Rightarrow> None
      | None # _ \<Rightarrow> Some (s, t)
      | Some (a, b) # rest \<Rightarrow>
          pump_text bytes_of goes_on rest (serve_text bytes_of goes_on a (mo, s)) (serve_text bytes_of goes_on b (me, t)))"

declare pump_text.simps [simp del]

text \<open>All a stream delivers: up to the first answer that ends it.\<close>

fun stream_text :: "('a \<Rightarrow> string) \<Rightarrow> ('a \<Rightarrow> bool) \<Rightarrow> 'a list \<Rightarrow> string" where
  "stream_text bytes_of goes_on [] = []"
| "stream_text bytes_of goes_on (a # as) = bytes_of a @ (if goes_on a then stream_text bytes_of goes_on as else [])"

definition stream_ends :: "('a \<Rightarrow> bool) \<Rightarrow> 'a list \<Rightarrow> bool" where
  "stream_ends goes_on as \<longleftrightarrow> (\<exists>a \<in> set as. \<not> goes_on a)"

lemma pump_text_served:
  assumes "(mo \<longrightarrow> stream_ends goes_on (map fst rs)) \<and> (me \<longrightarrow> stream_ends goes_on (map snd rs)) \<or>
      (\<exists>rest'. rest = None # rest')"
  shows "pump_text bytes_of goes_on (map Some rs @ rest) (mo, s) (me, t) =
    Some (s @ (if mo then stream_text bytes_of goes_on (map fst rs) else []),
          t @ (if me then stream_text bytes_of goes_on (map snd rs) else []))"
  using assms
proof (induction rs arbitrary: mo me s t)
  case Nil
  then show ?case by (auto simp: pump_text.simps stream_ends_def)
next
  case (Cons r rs)
  obtain a b where r: "r = (a, b)" by fastforce
  show ?case
  proof (cases "mo \<or> me")
    case True
    have "pump_text bytes_of goes_on (map Some (r # rs) @ rest) (mo, s) (me, t) =
        pump_text bytes_of goes_on (map Some rs @ rest)
          (mo \<and> goes_on a, s @ (if mo then bytes_of a else [])) (me \<and> goes_on b, t @ (if me then bytes_of b else []))"
      using True by (simp add: r pump_text.simps [of _ _ "_ # _"])
    also have "\<dots> = Some
       ((s @ (if mo then bytes_of a else [])) @ (if mo \<and> goes_on a then stream_text bytes_of goes_on (map fst rs) else []),
        (t @ (if me then bytes_of b else [])) @ (if me \<and> goes_on b then stream_text bytes_of goes_on (map snd rs) else []))"
      using Cons.prems by (intro Cons.IH) (auto simp: r stream_ends_def)
    finally show ?thesis by (simp add: r)
  qed (simp add: pump_text.simps)
qed

lemma pump_text_running:
  assumes "mo \<and> \<not> stream_ends goes_on (map fst rs) \<or> me \<and> \<not> stream_ends goes_on (map snd rs)"
  shows "pump_text bytes_of goes_on (map Some rs) (mo, s) (me, t) = None"
  using assms
proof (induction rs arbitrary: mo me s t)
  case Nil
  then show ?case by (auto simp: pump_text.simps)
next
  case (Cons r rs)
  obtain a b where r: "r = (a, b)" by fastforce
  have "pump_text bytes_of goes_on (map Some (r # rs)) (mo, s) (me, t) =
      pump_text bytes_of goes_on (map Some rs)
        (mo \<and> goes_on a, s @ (if mo then bytes_of a else [])) (me \<and> goes_on b, t @ (if me then bytes_of b else []))"
    using Cons.prems by (auto simp: r pump_text.simps [of _ _ "_ # _"])
  also have "\<dots> = None"
    using Cons.prems by (intro Cons.IH) (auto simp: r stream_ends_def)
  finally show ?case .
qed

subsection \<open>Two buffers on the heap\<close>

text \<open>
  \<open>two_buffers (S, h0) h b c s t\<close>: the buffers hold \<open>s\<close> and \<open>t\<close> in blocks of their own, among the
  blocks \<open>S\<close> or new since \<open>h0\<close>; no other block has changed since \<open>h0\<close>.
\<close>

definition two_buffers ::
  "nat set \<times> heap \<Rightarrow> heap \<Rightarrow> GrowableBuffer \<Rightarrow> GrowableBuffer \<Rightarrow> string \<Rightarrow> string \<Rightarrow> bool" where
  "two_buffers h0 h b c s t \<longleftrightarrow> heap_ok h \<and> frame (fst h0) (snd h0) h \<and>
     (\<forall>k \<in> {buf_block b, buf_block c}. k \<in> fst h0 \<or> next_block (snd h0) \<le> k) \<and>
     buf_block b \<noteq> buf_block c \<and> buf_bytes h b s \<and> buf_bytes h c t"

lemma two_buffersD:
  assumes "two_buffers h0 h b c s t"
  shows "heap_ok h" "buf_bytes h b s" "buf_bytes h c t"
  using assms by (simp_all add: two_buffers_def)

lemma two_buffers_swap: "two_buffers h0 h b c s t \<longleftrightarrow> two_buffers h0 h c b t s"
  by (auto simp: two_buffers_def)

lemma buf_step_other:
  assumes "buf_step b h b' h'" and "buf_bytes h c t" and "buf_block b \<noteq> buf_block c" and "heap_ok h"
  shows "buf_bytes h' c t" "buf_block b' \<noteq> buf_block c"
proof -
  show "buf_bytes h' c t"
    using assms by (auto simp: buf_step_def intro: buf_bytes_frame)
  show "buf_block b' \<noteq> buf_block c"
    using assms buf_block_less [OF assms(2,4)] buf_block_eq [of b' b] by (auto simp: buf_step_def)
qed

lemma two_buffers_step:
  assumes "two_buffers h0 h b c s t" and "buf_step b h b' h'" and "buf_bytes h' b' s'"
  shows "two_buffers h0 h' b' c s' t"
proof -
  have "frame (fst h0) (snd h0) h'"
    using assms(1,2) by (intro frame_trans [of "fst h0" "snd h0" h "{buf_block b}" h']) (auto simp: two_buffers_def buf_step_def)
  moreover have "buf_block b' \<in> fst h0 \<or> next_block (snd h0) \<le> buf_block b'" "heap_ok h'"
    using assms(1,2) buf_block_eq [of b' b] by (auto simp: two_buffers_def buf_step_def frame_def)
  moreover have "buf_bytes h' c t" "buf_block b' \<noteq> buf_block c"
    using assms(1) buf_step_other [OF assms(2), of c t] by (simp_all add: two_buffers_def)
  ultimately show ?thesis
    using assms(1,3) by (simp add: two_buffers_def)
qed

lemma two_buffers_step_right:
  "two_buffers h0 h b c s t \<Longrightarrow> buf_step c h c' h' \<Longrightarrow> buf_bytes h' c' t' \<Longrightarrow> two_buffers h0 h' b c' s t'"
  using two_buffers_step [of h0 h c b t s c' h' t'] two_buffers_swap by blast

text \<open>An operation on one of them.\<close>

lemma runs_left:
  assumes "two_buffers h0 h b c s t" and "runs m h (\<lambda>b' h'. buf_bytes h' b' s' \<and> buf_step b h b' h')"
    and "\<And>b' h'. two_buffers h0 h' b' c s' t \<Longrightarrow> runs (f b') h' Q"
  shows "runs (bnd m f) h Q"
  using assms(2) by (rule runs_bnd_mono) (auto intro: assms(3) two_buffers_step [OF assms(1)])

lemma runs_right:
  assumes "two_buffers h0 h b c s t" and "runs m h (\<lambda>c' h'. buf_bytes h' c' t' \<and> buf_step c h c' h')"
    and "\<And>c' h'. two_buffers h0 h' b c' s t' \<Longrightarrow> runs (f c') h' Q"
  shows "runs (bnd m f) h Q"
  using assms(2) by (rule runs_bnd_mono) (auto intro: assms(3) two_buffers_step_right [OF assms(1)])

lemma runs_after: "m h = Ok x h' \<Longrightarrow> grants h' = grants h \<Longrightarrow> runs (bnd m f) h Q \<longleftrightarrow> runs (f x) h' Q"
  by (auto simp: runs_def split: mres.split)

text \<open>Bytes stored behind the used part of a buffer that has room for them, and terminated.\<close>

lemma terminate_runs:
  assumes "buf_bytes h1 c s" and "length s < 2 ^ 63" and "buf_step b h c h1"
  shows "runs (bnd (null_terminate c) (\<lambda>content. ret (m, content))) h1
    (\<lambda>(more, b') h'. more = m \<and> buf_bytes h' b' s \<and> buf_step b h b' h')"
proof -
  have "heap_ok h1" using assms(3) by (simp add: buf_step_def)
  from null_terminate_rep [OF this assms(1,2)] show ?thesis
    using assms(3) by (auto elim!: runs_bnd_mono intro: buf_step_trans simp: buf_rep_bytes)
qed

lemma store_runs:
  assumes "buf_bytes h1 c s" and "buf_step b h c h1"
    and "length s + length bytes < unat (buf_max c)" and "length s + length bytes < 2 ^ 63"
  shows "runs (bnd (copy_bytes (plus_ptr (buf_memory c) (unat (buf_used c))) bytes) (\<lambda>_.
      bnd (null_terminate (c\<lparr>buf_used := buf_used c + of_nat (length bytes)\<rparr>)) (\<lambda>content. ret (m, content)))) h1
    (\<lambda>(more, b') h'. more = m \<and> buf_bytes h' b' (s @ bytes) \<and> buf_step b h b' h')"
proof -
  let ?c = "c\<lparr>buf_used := buf_used c + of_nat (length bytes)\<rparr>"
  obtain cs where copy: "copy_bytes (plus_ptr (buf_memory c) (unat (buf_used c))) bytes h1
      = Ok () (set_block (buf_block c) cs h1)"
    and bytes: "buf_bytes (set_block (buf_block c) cs h1) ?c (s @ bytes)"
    using fill_bytes [OF assms(1,3)] by blast
  have "buf_step b h ?c (set_block (buf_block c) cs h1)"
    using assms(1,2) by (intro buf_step_set_block [where s = s]) simp_all
  from terminate_runs [OF bytes _ this] show ?thesis
    unfolding runs_after [where m = "copy_bytes _ _" and h = h1, OF copy set_block_rest(2)]
    using assms(4) by simp
qed

subsection \<open>The loop collects what the answers carry\<close>

text \<open>
  \<open>serve a\<close> reads a stream with the answer \<open>a\<close> of the system: \<open>bytes_of\<close> are the bytes it stores,
  \<open>goes_on\<close> whether the stream stays open, \<open>room_of\<close> the bytes the system may store.
\<close>

fun rounds_ok :: "('a \<Rightarrow> bool) \<Rightarrow> ('a \<times> 'a) option list \<Rightarrow> bool" where
  "rounds_ok ok rounds = list_all (\<lambda>r. case r of None \<Rightarrow> True | Some (a, b) \<Rightarrow> ok a \<and> ok b) rounds"

definition rounds_room :: "('a \<Rightarrow> nat) \<Rightarrow> ('a \<times> 'a) option list \<Rightarrow> nat" where
  "rounds_room room_of rounds = (\<Sum>r\<leftarrow>rounds. case r of None \<Rightarrow> 0 | Some (a, b) \<Rightarrow> room_of a + room_of b)"

locale stream_reader =
  fixes serve :: "'a \<Rightarrow> bool \<times> GrowableBuffer \<Rightarrow> (bool \<times> GrowableBuffer) mem"
    and bytes_of :: "'a \<Rightarrow> string"
    and goes_on :: "'a \<Rightarrow> bool"
    and room_of :: "'a \<Rightarrow> nat"
    and ok :: "'a \<Rightarrow> bool"
  assumes closed: "serve a (False, b) = ret (False, b)"
    and opened: "\<lbrakk>ok a; heap_ok h; buf_bytes h b s; length s + room_of a < 2 ^ 63\<rbrakk> \<Longrightarrow>
      runs (serve a (True, b)) h
        (\<lambda>(more, b') h'. more = goes_on a \<and> buf_bytes h' b' (s @ bytes_of a) \<and> buf_step b h b' h')"
    and bytes_fit: "ok a \<Longrightarrow> length (bytes_of a) \<le> room_of a"
begin

lemma serve_runs:
  assumes "ok a" and "heap_ok h" and "buf_bytes h b s" and "length s + room_of a < 2 ^ 63"
  shows "runs (serve a (m, b)) h (\<lambda>r h'. fst r = fst (serve_text bytes_of goes_on a (m, s)) \<and>
    buf_bytes h' (snd r) (snd (serve_text bytes_of goes_on a (m, s))) \<and> buf_step b h (snd r) h')"
proof (cases m)
  case True
  then show ?thesis
    using opened [OF assms] by (auto elim: runs_mono)
next
  case False
  then show ?thesis
    using assms by (simp add: closed buf_step_def)
qed

lemma serve_text_length:
  "ok a \<Longrightarrow> length (snd (serve_text bytes_of goes_on a (m, s))) \<le> length s + room_of a"
  using bytes_fit by simp

lemma pump_runs:
  assumes "two_buffers h0 h b c s t" and "rounds_ok ok rounds"
    and "length s + length t + rounds_room room_of rounds < n" and "n \<le> 2 ^ 63"
  shows "runs (pump_loop serve rounds (mo, b) (me, c)) h (\<lambda>r h'.
    case pump_text bytes_of goes_on rounds (mo, s) (me, t) of
      None \<Rightarrow> r = None
    | Some (s', t') \<Rightarrow> (\<exists>b' c'. r = Some (b', c') \<and> two_buffers h0 h' b' c' s' t') \<and> length s' + length t' < n)"
  using assms
proof (induction rounds arbitrary: mo me b c s t h)
  case Nil
  then show ?case by (simp add: pump_loop.simps pump_text.simps)
next
  case (Cons r rounds)
  show ?case
  proof (cases "mo \<or> me")
    case False
    then show ?thesis using Cons.prems by (simp add: pump_loop.simps pump_text.simps)
  next
    case True
    show ?thesis
    proof (cases r)
      case None
      then show ?thesis using Cons.prems by (simp add: pump_loop.simps pump_text.simps)
    next
      case (Some ab)
      obtain x y where r: "r = Some (x, y)" using Some by (cases ab) auto
      obtain m1 s1 where s1: "serve_text bytes_of goes_on x (mo, s) = (m1, s1)" by fastforce
      obtain m2 t1 where t1: "serve_text bytes_of goes_on y (me, t) = (m2, t1)" by fastforce
      have ok: "ok x" "ok y" and room: "length s + length t + (room_of x + room_of y + rounds_room room_of rounds) < n"
        using Cons.prems(2,3) by (simp_all add: r rounds_room_def)
      have len: "length s1 \<le> length s + room_of x" "length t1 \<le> length t + room_of y"
        using serve_text_length [OF ok(1), of mo s] serve_text_length [OF ok(2), of me t]
        unfolding s1 t1 by simp_all
      let ?Q = "\<lambda>res h'. case pump_text bytes_of goes_on rounds (m1, s1) (m2, t1) of None \<Rightarrow> res = None
        | Some (s', t') \<Rightarrow> (\<exists>b' c'. res = Some (b', c') \<and> two_buffers h0 h' b' c' s' t') \<and> length s' + length t' < n"
      have "runs (bnd (serve x (mo, b)) (\<lambda>out. bnd (serve y (me, c)) (\<lambda>err. pump_loop serve rounds out err))) h ?Q"
      proof (rule runs_bnd_mono [OF serve_runs [OF ok(1) two_buffersD(1,2) [OF Cons.prems(1)], where m = mo]], goal_cases)
        case 1
        show ?case using room Cons.prems(4) by simp
      next
        case (2 o1 h1)
        then obtain b1 where o1: "o1 = (m1, b1)" and b1: "two_buffers h0 h1 b1 c s1 t"
          using two_buffers_step [OF Cons.prems(1)] unfolding s1 by (cases o1) simp
        show ?case
        proof (rule runs_bnd_mono [OF serve_runs [OF ok(2) two_buffersD(1,3) [OF b1], where m = me]], goal_cases)
          case 1
          show ?case using room Cons.prems(4) by simp
        next
          case (2 e1 h2)
          then obtain c1 where e1: "e1 = (m2, c1)" and b2: "two_buffers h0 h2 b1 c1 s1 t1"
            using two_buffers_step_right [OF b1] unfolding t1 by (cases e1) simp
          show ?case
            unfolding o1 e1 using Cons.prems(2,4) len room by (intro Cons.IH [OF b2]) (simp_all add: r)
        qed
      qed
      then have "runs (bnd (serve x (mo, b)) (\<lambda>out. bnd (serve y (me, c)) (\<lambda>err. pump_loop serve rounds out err))) h
          (\<lambda>res h'. case pump_text bytes_of goes_on (r # rounds) (mo, s) (me, t) of None \<Rightarrow> res = None
            | Some (s', t') \<Rightarrow> (\<exists>b' c'. res = Some (b', c') \<and> two_buffers h0 h' b' c' s' t') \<and> length s' + length t' < n)"
        using True s1 t1 by (simp add: r pump_text.simps [of _ _ "_ # _"] del: serve_text.simps)
      then show ?thesis using True by (simp add: r pump_loop.simps)
    qed
  qed
qed

end

subsection \<open>The end of the functions\<close>

definition saved :: "(string \<Rightarrow> bool) \<Rightarrow> string option \<Rightarrow> string \<Rightarrow> os_call list" where
  "saved opens path s =
     (case path of Some path \<Rightarrow> if opens path then [Os_write_file path s] else [] | None \<Rightarrow> [])"

definition finish_text ::
  "thread_context \<Rightarrow> (string \<Rightarrow> bool) \<Rightarrow> nat \<Rightarrow> string option \<Rightarrow> string option \<Rightarrow>
   int \<Rightarrow> string \<Rightarrow> string \<Rightarrow> os_call list" where
  "finish_text ctx opens index out_path err_path status s t =
     saved opens out_path s @ saved opens err_path t @
     (if has_completion ctx then [Os_lock, Os_completion index status (cstr s) (cstr t), Os_unlock] else [])"

lemma load_bytes_Ok:
  assumes "blocks h b = Some cs" and "i + length s \<le> length cs" and "take (length s) (drop i cs) = map Byte s"
  shows "load_bytes (length s) (Ptr b i) h = Ok s h"
  using assms(2,3)
proof (induction s arbitrary: i)
  case (Cons c s)
  then have i: "i < length cs" by simp
  have "drop i cs = cs ! i # drop (Suc i) cs" using i by (simp add: Cons_nth_drop_Suc)
  then have "cs ! i = Byte c" "take (length s) (drop (Suc i) cs) = map Byte s"
    using Cons.prems(2) by simp_all
  then show ?case
    using Cons.IH [of "Suc i"] Cons.prems(1) assms(1) i by (simp add: load_byte_Ok)
qed simp

lemma load_bytes_buffer:
  "buf_bytes h b s \<Longrightarrow> load_bytes (unat (buf_used b)) (buf_memory b) h = Ok s h"
  using load_bytes_Ok [of h "buf_block b" _ 0 s] by (auto simp: buf_bytes_def)

lemma load_cstring_buffer:
  assumes "buf_rep h b s"
  shows "load_cstring (buf_memory b) h = Ok (cstr s) h"
proof -
  obtain cs where b: "buf_memory b = Ptr (buf_block b) 0" "blocks h (buf_block b) = Some cs"
    "take (length s) cs = map Byte s" "length s < length cs" "cs ! length s = Byte NUL"
    using assms by (auto simp: buf_rep_def buf_bytes_def)
  have nth: "cs ! j = Byte (s ! j)" if "j < length s" for j
    using b(3) that by (metis length_map nth_map nth_take)
  have cs: "cstr s = take (length (cstr s)) s"
    unfolding cstr_def by (rule takeWhile_eq_take)
  have "cs ! length (cstr s) = Byte NUL"
  proof (cases "length (cstr s) < length s")
    case True
    then show ?thesis
      using nth nth_length_takeWhile [of "\<lambda>c. c \<noteq> NUL" s] by (simp add: cstr_def)
  next
    case False
    then have "length (cstr s) = length s" using length_cstr_le [of s] by simp
    then show ?thesis using b(5) by simp
  qed
  moreover have "cs ! j = Byte (cstr s ! j)" if "j < length (cstr s)" for j
    using that nth [of j] length_cstr_le [of s] by (subst cs) simp
  ultimately show ?thesis
    using load_cstring_Ok [of h "buf_block b" cs 0 "cstr s"] b(1,2,4) cstr_no_NUL [of s] length_cstr_le [of s] by simp
qed

lemma save_stream_Ok: "buf_bytes h b s \<Longrightarrow> save_stream opens path b h = Ok (saved opens path s) h"
  by (simp add: save_stream_def saved_def load_bytes_buffer split: option.split)

lemma free_buffer_Ok: "buf_bytes h b s \<Longrightarrow> \<exists>r. free_growable_buffer b h = Ok r (drop_block (buf_block b) h)"
  by (auto simp: free_growable_buffer_def buf_bytes_def bnd_def)

lemma finish_runs:
  assumes "two_buffers h0 h b c s t" and "length s < 2 ^ 63" and "length t < 2 ^ 63"
  shows "runs (finish_process ctx opens index out_path err_path status b c) h (\<lambda>calls h'.
    calls = finish_text ctx opens index out_path err_path status s t \<and> heap_ok h' \<and> frame (fst h0) (snd h0) h')"
  unfolding finish_process_def
proof (rule runs_bnd_mono [OF null_terminate_rep [OF two_buffersD(1,2) [OF assms(1)] assms(2)]], elim conjE)
  fix b1 h1
  assume rep1: "buf_rep h1 b1 s" and step1: "buf_step b h b1 h1"
  then have two1: "two_buffers h0 h1 b1 c s t"
    using two_buffers_step [OF assms(1)] buf_rep_bytes by blast
  let ?rest = "\<lambda>b c. bnd (save_stream opens out_path b) (\<lambda>out_calls. bnd (save_stream opens err_path c) (\<lambda>err_calls.
     bnd (completion_calls ctx index status b c) (\<lambda>calls. bnd (free_growable_buffer b) (\<lambda>_.
     bnd (free_growable_buffer c) (\<lambda>_. ret (out_calls @ err_calls @ calls))))))"
  let ?Q = "\<lambda>calls h'. calls = finish_text ctx opens index out_path err_path status s t \<and> heap_ok h' \<and> frame (fst h0) (snd h0) h'"
  show "runs (bnd (null_terminate c) (?rest b1)) h1 ?Q"
  proof (rule runs_bnd_mono [OF null_terminate_rep [OF two_buffersD(1,3) [OF two1] assms(3)]], elim conjE)
    fix c1 h2
    assume rep2: "buf_rep h2 c1 t" and step2: "buf_step c h1 c1 h2"
    have two2: "two_buffers h0 h2 b1 c1 s t"
      using two_buffers_step_right [OF two1 step2] buf_rep_bytes [OF rep2] by blast
    have rep3: "buf_rep h2 b1 s"
      using rep1 step2 two1 by (auto simp: buf_step_def two_buffers_def intro: buf_rep_frame)
    obtain r where free1: "free_growable_buffer b1 h2 = Ok r (drop_block (buf_block b1) h2)"
      using free_buffer_Ok two_buffersD(2) [OF two2] by blast
    have "buf_bytes (drop_block (buf_block b1) h2) c1 t"
      using two2 by (auto simp: two_buffers_def buf_bytes_def)
    then obtain r' where free2: "free_growable_buffer c1 (drop_block (buf_block b1) h2)
        = Ok r' (drop_block (buf_block c1) (drop_block (buf_block b1) h2))"
      using free_buffer_Ok by blast
    have calls: "completion_calls ctx index status b1 c1 h2 = Ok
        (if has_completion ctx then [Os_lock, Os_completion index status (cstr s) (cstr t), Os_unlock] else []) h2"
      by (simp add: completion_calls_def load_cstring_buffer [OF rep3] load_cstring_buffer [OF rep2])
    have "?rest b1 c1 h2 = Ok (finish_text ctx opens index out_path err_path status s t)
        (drop_block (buf_block c1) (drop_block (buf_block b1) h2))"
      using two_buffersD(2,3) [OF two2] by (simp add: save_stream_Ok calls free1 free2 finish_text_def)
    moreover have "heap_ok (drop_block (buf_block c1) (drop_block (buf_block b1) h2))"
      using two2 by (intro heap_ok_drop_block) (simp add: two_buffers_def)
    moreover have "frame (fst h0) (snd h0) (drop_block (buf_block c1) (drop_block (buf_block b1) h2))"
      using two2 by (auto simp: two_buffers_def frame_def)
    ultimately show "runs (?rest b1 c1) h2 ?Q"
      by (simp add: runs_def)
  qed
qed

text \<open>Two new buffers.\<close>

lemma allocate_two:
  assumes "heap_ok h" and "\<And>b c h'. two_buffers ({}, h) h' b c [] [] \<Longrightarrow> runs (f b c) h' Q"
  shows "runs (bnd allocate_growable_buffer (\<lambda>b. bnd allocate_growable_buffer (\<lambda>c. f b c))) h Q"
proof (rule runs_bnd_mono [OF allocate_rep [OF assms(1)]], elim conjE)
  fix b h1
  assume b: "buf_rep h1 b []" "heap_ok h1" "frame {} h h1" "next_block h \<le> buf_block b"
  show "runs (bnd allocate_growable_buffer (\<lambda>c. f b c)) h1 Q"
  proof (rule runs_bnd_mono [OF allocate_rep [OF b(2)]], elim conjE)
    fix c h2
    assume c: "buf_rep h2 c []" "heap_ok h2" "frame {} h1 h2" "next_block h1 \<le> buf_block c"
    have "buf_rep h2 b []" using buf_rep_frame [OF b(1,2) c(3)] by simp
    moreover have "buf_block b < next_block h1"
      using buf_block_less [OF buf_rep_bytes [OF b(1)] b(2)] .
    moreover have "frame {} h h2" using b(3) c(3) by (auto simp: frame_def)
    ultimately show "runs (f b c) h2 Q"
      using b c by (intro assms(2)) (auto simp: two_buffers_def frame_def buf_rep_bytes)
  qed
qed

lemma write_right:
  assumes "two_buffers h0 h b c s t" and "length t + length u < 2 ^ 63"
    and "\<And>c' h'. two_buffers h0 h' b c' s (t @ u) \<Longrightarrow> runs (f c') h' Q"
  shows "runs (bnd (write_growable_buffer c u) f) h Q"
proof -
  have "runs (write_growable_buffer c u) h (\<lambda>c' h'. buf_rep h' c' (t @ u) \<and> buf_step c h c' h')"
    by (rule write_rep [OF two_buffersD(1,3) [OF assms(1)] assms(2)])
  then show ?thesis
    by (rule runs_bnd_mono) (auto intro: assms(3) two_buffers_step_right [OF assms(1)] buf_rep_bytes)
qed

definition run_result ::
  "nat set \<times> heap \<Rightarrow> (int \<times> string \<times> string \<times> os_call list) option \<Rightarrow>
   (int \<times> GrowableBuffer \<times> GrowableBuffer \<times> os_call list) option \<Rightarrow> heap \<Rightarrow> bool" where
  "run_result h0 spec r h \<longleftrightarrow>
     (case spec of
        None \<Rightarrow> r = None
      | Some (status, s, t, calls) \<Rightarrow>
          \<exists>b c. r = Some (status, b, c, calls) \<and> two_buffers h0 h b c s t \<and> length s < 2 ^ 63 \<and> length t < 2 ^ 63)"

text \<open>The ends of pipes the parent holds after some calls; \<open>None\<close> if one is closed that is not open.\<close>

fun open_ends :: "os_call list \<Rightarrow> (stream \<times> bool) set \<Rightarrow> (stream \<times> bool) set option" where
  "open_ends [] ends = Some ends"
| "open_ends (Os_pipe s # calls) ends = open_ends calls (ends \<union> {(s, True), (s, False)})"
| "open_ends (Os_close_read s # calls) ends =
     (if (s, True) \<in> ends then open_ends calls (ends - {(s, True)}) else None)"
| "open_ends (Os_close_write s # calls) ends =
     (if (s, False) \<in> ends then open_ends calls (ends - {(s, False)}) else None)"
| "open_ends (_ # calls) ends = open_ends calls ends"

lemma open_ends_append:
  "open_ends (xs @ ys) ends = (case open_ends xs ends of None \<Rightarrow> None | Some ends \<Rightarrow> open_ends ys ends)"
  by (induction xs ends rule: open_ends.induct) auto

lemma open_ends_rest [simp]:
  "open_ends (progression_calls ctx index) ends = Some ends"
  "open_ends (finish_text ctx opens index out_path err_path status s t) ends = Some ends"
  by (simp_all add: progression_calls_def finish_text_def saved_def split: option.split)

end
