(* ===== verification/LinuxExec.thy ===== *)
theory LinuxExec imports ProcessIO begin

text \<open>
  \<open>linux_exec_process\<close> (\<open>code/linux_main.c\<close>): a command runs in a child process whose standard output and
  standard error are pipes; the parent reads both, waits for the child, writes the output files
  and calls the callbacks. \<open>linux_exec_text\<close> gives the result of every branch on strings, and
  \<open>linux_exec_runs\<close> shows that the code on the heap computes it.
\<close>

unbundle bit_operations_syntax

text \<open>What \<open>select\<close> and \<open>read\<close> answer for one stream: not ready, the bytes read (none at the end), or -1.\<close>

datatype linux_read = Not_set | Read_bytes string | Read_failed

definition max_byte_read :: nat where "max_byte_read = 4096"

fun linux_read_stream :: "linux_read \<Rightarrow> bool \<times> GrowableBuffer \<Rightarrow> (bool \<times> GrowableBuffer) mem" where
  "linux_read_stream answer (going, content) =
     (if going \<and> answer \<noteq> Not_set
      then bnd (reserve_growable_buffer content (of_nat max_byte_read)) (\<lambda>content.
           case answer of
             Read_bytes bytes \<Rightarrow>
               bnd (copy_bytes (plus_ptr (buf_memory content) (unat (buf_used content))) bytes) (\<lambda>_.
               let going = (0 < length bytes);
                   content = (if going then content\<lparr>buf_used := buf_used content + of_nat (length bytes)\<rparr> else content)
               in bnd (null_terminate content) (\<lambda>content. ret (going, content)))
           | _ \<Rightarrow> bnd (null_terminate content) (\<lambda>content. ret (False, content)))
      else ret (going, content))"

text \<open>The macros of \<open>sys/wait.h\<close> on the status word that \<open>waitpid\<close> stores.\<close>

definition wifexited :: "32 word \<Rightarrow> bool" where
  "wifexited status \<longleftrightarrow> status AND 0x7f = 0"

definition wexitstatus :: "32 word \<Rightarrow> int" where
  "wexitstatus status = uint (drop_bit 8 (status AND 0xff00))"

text \<open>The answers of the system to one call; \<open>lk_status\<close> is \<open>None\<close> when \<open>waitpid\<close> fails.\<close>

record linux_kernel =
  lk_stdout_pipe :: bool
  lk_stderr_pipe :: bool
  lk_forks :: bool
  lk_rounds :: "(linux_read \<times> linux_read) option list"
  lk_status :: "32 word option"
  lk_opens :: "string \<Rightarrow> bool"

definition exit_status :: "linux_kernel \<Rightarrow> int option" where
  "exit_status os =
     (case lk_status os of
        Some status \<Rightarrow> if wifexited status then Some (wexitstatus status) else None
      | None \<Rightarrow> None)"

text \<open>From \<open>pipe\<close> to the last \<open>close\<close>; \<open>None\<close> while the loop is running.\<close>

definition linux_run :: "linux_kernel \<Rightarrow> GrowableBuffer \<Rightarrow> GrowableBuffer \<Rightarrow>
    (int \<times> GrowableBuffer \<times> GrowableBuffer \<times> os_call list) option mem" where
  "linux_run os stdout_content stderr_content =
     (let stdout_created = lk_stdout_pipe os;
          stderr_created = lk_stderr_pipe os;
          pipes = (if stdout_created then [Os_pipe Std_out] else []) @ (if stderr_created then [Os_pipe Std_err] else []);
          write_ends = [Os_close_write Std_out, Os_close_write Std_err];
          read_ends = [Os_close_read Std_out, Os_close_read Std_err]
      in if stdout_created \<and> stderr_created
         then if lk_forks os
              then bnd (pump_loop linux_read_stream (lk_rounds os) (True, stdout_content) (True, stderr_content)) (\<lambda>r.
                   case r of
                     None \<Rightarrow> ret None
                   | Some (stdout_content, stderr_content) \<Rightarrow>
                       (case exit_status os of
                          Some status \<Rightarrow>
                            ret (Some (status, stdout_content, stderr_content, pipes @ [Os_create_process] @ write_ends @ read_ends))
                        | None \<Rightarrow>
                            bnd (write_growable_buffer stderr_content ''Unable to obtain exit code'') (\<lambda>stderr_content.
                            ret (Some (- 1, stdout_content, stderr_content, pipes @ [Os_create_process] @ write_ends @ read_ends)))))
              else bnd (write_growable_buffer stderr_content ''Unable to fork'') (\<lambda>stderr_content.
                   ret (Some (- 1, stdout_content, stderr_content, pipes @ write_ends @ read_ends)))
         else bnd (write_growable_buffer stderr_content ''Unable to create pipe'') (\<lambda>stderr_content.
              ret (Some (- 1, stdout_content, stderr_content,
                pipes @ (if stdout_created then [Os_close_read Std_out, Os_close_write Std_out] else [])
                      @ (if stderr_created then [Os_close_read Std_err, Os_close_write Std_err] else [])))))"

definition linux_exec_process ::
  "thread_context \<Rightarrow> linux_kernel \<Rightarrow> nat \<Rightarrow> string option \<Rightarrow> string option \<Rightarrow> (int \<times> os_call list) option mem" where
  "linux_exec_process ctx os index out_path err_path =
     bnd allocate_growable_buffer (\<lambda>stdout_content.
     bnd allocate_growable_buffer (\<lambda>stderr_content.
     bnd (linux_run os stdout_content stderr_content) (\<lambda>r.
     case r of
       None \<Rightarrow> ret None
     | Some (status, stdout_content, stderr_content, calls) \<Rightarrow>
         bnd (finish_process ctx (lk_opens os) index out_path err_path status stdout_content stderr_content) (\<lambda>rest.
         ret (Some (status, progression_calls ctx index @ calls @ rest))))))"

subsection \<open>The child\<close>

text \<open>
  The branch of the child between \<open>fork\<close> and \<open>execl\<close>, on its table of descriptors. \<open>execs\<close> is whether
  \<open>/bin/sh\<close> can be executed.
\<close>

datatype descriptor = Inherited | Read_end stream | Write_end stream

datatype child = Runs_shell "string option" | Exits int

definition fd_close :: "int \<Rightarrow> (int \<Rightarrow> descriptor option) \<Rightarrow> int \<Rightarrow> descriptor option" where
  "fd_close fd table = table(fd := None)"

definition fd_dup2 :: "int \<Rightarrow> int \<Rightarrow> (int \<Rightarrow> descriptor option) \<Rightarrow> int \<Rightarrow> descriptor option" where
  "fd_dup2 old new table = (case table old of Some d \<Rightarrow> table(new \<mapsto> d) | None \<Rightarrow> table)"

fun linux_child :: "int \<times> int \<Rightarrow> int \<times> int \<Rightarrow> bool \<Rightarrow> bool \<Rightarrow> string option \<Rightarrow> (int \<Rightarrow> descriptor option) \<Rightarrow>
    child \<times> (int \<Rightarrow> descriptor option)" where
  "linux_child (out_read, out_write) (err_read, err_write) chdirs execs command table =
     (let table = fd_close out_read table;
          table = fd_close err_read table;
          table = fd_dup2 out_write 1 table;
          table = fd_dup2 err_write 2 table;
          table = fd_close out_write table;
          table = fd_close err_write table
      in (if chdirs \<and> execs then Runs_shell command else Exits (- 1), table))"

subsection \<open>The same on strings\<close>

fun linux_bytes :: "linux_read \<Rightarrow> string" where
  "linux_bytes (Read_bytes s) = s"
| "linux_bytes _ = []"

fun linux_goes_on :: "linux_read \<Rightarrow> bool" where
  "linux_goes_on (Read_bytes s) = (s \<noteq> [])"
| "linux_goes_on Not_set = True"
| "linux_goes_on Read_failed = False"

fun linux_room :: "linux_read \<Rightarrow> nat" where
  "linux_room Not_set = 0"
| "linux_room _ = max_byte_read"

text \<open>\<open>read\<close> returns at most the number of bytes it is asked for.\<close>

fun linux_answer_ok :: "linux_read \<Rightarrow> bool" where
  "linux_answer_ok (Read_bytes s) = (length s \<le> max_byte_read)"
| "linux_answer_ok _ = True"

interpretation linux: stream_reader linux_read_stream linux_bytes linux_goes_on linux_room linux_answer_ok
proof
  fix a :: linux_read and b :: GrowableBuffer and h :: heap and s :: string
  show "linux_read_stream a (False, b) = ret (False, b)" by simp
  show "linux_answer_ok a \<Longrightarrow> length (linux_bytes a) \<le> linux_room a" by (cases a) auto
  assume a: "linux_answer_ok a" "heap_ok h" "buf_bytes h b s" "length s + linux_room a < 2 ^ 63"
  have n: "unat (of_nat max_byte_read :: 64 word) = max_byte_read" by (simp add: max_byte_read_def)
  let ?Q = "\<lambda>(more, b') h'. more = linux_goes_on a \<and> buf_bytes h' b' (s @ linux_bytes a) \<and> buf_step b h b' h'"
  show "runs (linux_read_stream a (True, b)) h ?Q"
  proof (cases "a = Not_set")
    case True
    then show ?thesis using a by (simp add: buf_step_def)
  next
    case False
    then have room: "linux_room a = max_byte_read" by (cases a) simp_all
    let ?store = "\<lambda>content. case a of
             Read_bytes bytes \<Rightarrow>
               bnd (copy_bytes (plus_ptr (buf_memory content) (unat (buf_used content))) bytes) (\<lambda>_.
               let going = (0 < length bytes);
                   content = (if going then content\<lparr>buf_used := buf_used content + of_nat (length bytes)\<rparr> else content)
               in bnd (null_terminate content) (\<lambda>content. ret (going, content)))
           | _ \<Rightarrow> bnd (null_terminate content) (\<lambda>content. ret (False, content))"
    have "runs (bnd (reserve_growable_buffer b (of_nat max_byte_read)) ?store) h ?Q"
    proof (rule runs_bnd_mono [OF reserve_room [OF a(2,3)]])
      show "length s + unat (of_nat max_byte_read :: 64 word) < 2 ^ 63" using a(4) room n by simp
    next
      fix c h1
      assume h1: "buf_bytes h1 c s \<and> length s + unat (of_nat max_byte_read :: 64 word) < unat (buf_max c) \<and> buf_step b h c h1"
      then have ok1: "heap_ok h1" by (simp add: buf_step_def)
      show "runs (?store c) h1 ?Q"
      proof (cases a)
        case Read_failed
        have "runs (bnd (null_terminate c) (\<lambda>content. ret (False, content))) h1 ?Q"
          using terminate_runs [of h1 c s b h False] h1 a(4) Read_failed by simp
        then show ?thesis by (simp add: Read_failed)
      next
        case (Read_bytes bytes)
        let ?c = "c\<lparr>buf_used := buf_used c + of_nat (length bytes)\<rparr>"
        have len: "length s + length bytes < unat (buf_max c)" "length (s @ bytes) < 2 ^ 63"
          using a(1,4) h1 n room Read_bytes by simp_all
        have eq: "(if 0 < length bytes then ?c else c) = ?c" by simp
        show ?thesis
          unfolding Read_bytes linux_read.case Let_def eq
          using store_runs [of h1 c s b h bytes "0 < length bytes"] h1 len by simp
      qed (use False in simp)
    qed
    then show ?thesis using False by simp
  qed
qed

text \<open>The result of \<open>linux_run\<close>: the exit code, both texts and the calls.\<close>

definition linux_run_text :: "linux_kernel \<Rightarrow> (int \<times> string \<times> string \<times> os_call list) option" where
  "linux_run_text os =
     (let pipes = (if lk_stdout_pipe os then [Os_pipe Std_out] else []) @ (if lk_stderr_pipe os then [Os_pipe Std_err] else []);
          write_ends = [Os_close_write Std_out, Os_close_write Std_err];
          read_ends = [Os_close_read Std_out, Os_close_read Std_err]
      in if lk_stdout_pipe os \<and> lk_stderr_pipe os
         then if lk_forks os
              then (case pump_text linux_bytes linux_goes_on (lk_rounds os) (True, []) (True, []) of
                      None \<Rightarrow> None
                    | Some (s, t) \<Rightarrow>
                        Some (case exit_status os of Some status \<Rightarrow> status | None \<Rightarrow> - 1, s,
                              t @ (if exit_status os = None then ''Unable to obtain exit code'' else []),
                              pipes @ [Os_create_process] @ write_ends @ read_ends))
              else Some (- 1, [], ''Unable to fork'', pipes @ write_ends @ read_ends)
         else Some (- 1, [], ''Unable to create pipe'',
                pipes @ (if lk_stdout_pipe os then [Os_close_read Std_out, Os_close_write Std_out] else [])
                      @ (if lk_stderr_pipe os then [Os_close_read Std_err, Os_close_write Std_err] else [])))"

definition linux_exec_text ::
  "thread_context \<Rightarrow> linux_kernel \<Rightarrow> nat \<Rightarrow> string option \<Rightarrow> string option \<Rightarrow> (int \<times> os_call list) option" where
  "linux_exec_text ctx os index out_path err_path =
     (case linux_run_text os of
        None \<Rightarrow> None
      | Some (status, s, t, calls) \<Rightarrow>
          Some (status, progression_calls ctx index @ calls @
            finish_text ctx (lk_opens os) index out_path err_path status s t))"

text \<open>The answers of the system are possible, and no buffer outgrows the address space.\<close>

definition linux_kernel_ok :: "linux_kernel \<Rightarrow> bool" where
  "linux_kernel_ok os \<longleftrightarrow> rounds_ok linux_answer_ok (lk_rounds os) \<and> rounds_room linux_room (lk_rounds os) < 2 ^ 62"

lemma linux_run_runs:
  assumes "two_buffers h0 h b c [] []" and "linux_kernel_ok os"
  shows "runs (linux_run os b c) h (run_result h0 (linux_run_text os))"
proof (cases "lk_stdout_pipe os \<and> lk_stderr_pipe os \<and> lk_forks os")
  case False
  then show ?thesis
    unfolding linux_run_def linux_run_text_def Let_def
    by (auto intro!: write_right [OF assms(1)] simp: run_result_def)
next
  case True
  let ?calls = "[Os_pipe Std_out, Os_pipe Std_err, Os_create_process, Os_close_write Std_out, Os_close_write Std_err,
      Os_close_read Std_out, Os_close_read Std_err]"
  let ?rest = "\<lambda>r. case r of
      None \<Rightarrow> ret None
    | Some (b, c) \<Rightarrow>
        (case exit_status os of
           Some status \<Rightarrow> ret (Some (status, b, c, ?calls))
         | None \<Rightarrow> bnd (write_growable_buffer c ''Unable to obtain exit code'') (\<lambda>c. ret (Some (- 1, b, c, ?calls))))"
  let ?loop = "pump_loop linux_read_stream (lk_rounds os) (True, b) (True, c)"
  have run: "linux_run os b c = bnd ?loop ?rest"
    unfolding linux_run_def Let_def True [THEN conjunct1, THEN eqTrueI] True [THEN conjunct2, THEN conjunct1, THEN eqTrueI]
      True [THEN conjunct2, THEN conjunct2, THEN eqTrueI] if_True append.simps simp_thms ..
  have "rounds_ok linux_answer_ok (lk_rounds os)" "length [] + length [] + rounds_room linux_room (lk_rounds os) < 2 ^ 62"
    "(2 ^ 62 :: nat) \<le> 2 ^ 63"
    using assms(2) by (simp_all add: linux_kernel_ok_def)
  then have "runs ?loop h (\<lambda>r h'.
    case pump_text linux_bytes linux_goes_on (lk_rounds os) (True, []) (True, []) of
      None \<Rightarrow> r = None
    | Some (s', t') \<Rightarrow> (\<exists>b' c'. r = Some (b', c') \<and> two_buffers h0 h' b' c' s' t') \<and> length s' + length t' < 2 ^ 62)"
    by (rule linux.pump_runs [OF assms(1)])
  then have "runs (bnd ?loop ?rest) h (run_result h0 (linux_run_text os))"
  proof (rule runs_bnd_mono)
    fix r h'
    assume r: "case pump_text linux_bytes linux_goes_on (lk_rounds os) (True, []) (True, []) of
      None \<Rightarrow> r = None
    | Some (s', t') \<Rightarrow> (\<exists>b' c'. r = Some (b', c') \<and> two_buffers h0 h' b' c' s' t') \<and> length s' + length t' < 2 ^ 62"
    show "runs (?rest r) h' (run_result h0 (linux_run_text os))"
    proof (cases "pump_text linux_bytes linux_goes_on (lk_rounds os) (True, []) (True, [])")
      case None
      then show ?thesis using r True by (simp add: run_result_def linux_run_text_def)
    next
      case (Some st)
      then obtain s t b' c' where spec: "pump_text linux_bytes linux_goes_on (lk_rounds os) (True, []) (True, []) = Some (s, t)"
        and b': "r = Some (b', c')" "two_buffers h0 h' b' c' s t" "length s + length t < 2 ^ 62"
        using r by (cases st) auto
      show ?thesis
      proof (cases "exit_status os")
        case None
        then show ?thesis
          using b' True spec by (auto intro!: write_right [OF b'(2)] simp: run_result_def linux_run_text_def)
      next
        case (Some status)
        then show ?thesis
          using b' True spec by (simp add: run_result_def linux_run_text_def)
      qed
    qed
  qed
  then show ?thesis unfolding run .
qed

lemma linux_exec_runs:
  assumes "heap_ok h" and "linux_kernel_ok os"
  shows "runs (linux_exec_process ctx os index out_path err_path) h (\<lambda>r h'.
    r = linux_exec_text ctx os index out_path err_path \<and> (r \<noteq> None \<longrightarrow> heap_ok h' \<and> frame {} h h'))"
  unfolding linux_exec_process_def
proof (rule allocate_two [OF assms(1)])
  fix b c h1
  assume two: "two_buffers ({}, h) h1 b c [] []"
  let ?rest = "\<lambda>r. case r of
       None \<Rightarrow> ret None
     | Some (status, b, c, calls) \<Rightarrow>
         bnd (finish_process ctx (lk_opens os) index out_path err_path status b c) (\<lambda>rest.
         ret (Some (status, progression_calls ctx index @ calls @ rest)))"
  show "runs (bnd (linux_run os b c) ?rest) h1 (\<lambda>r h'.
      r = linux_exec_text ctx os index out_path err_path \<and> (r \<noteq> None \<longrightarrow> heap_ok h' \<and> frame {} h h'))"
  proof (rule runs_bnd_mono [OF linux_run_runs [OF two assms(2)]])
    fix r h'
    assume r: "run_result ({}, h) (linux_run_text os) r h'"
    show "runs (?rest r) h' (\<lambda>r h'.
      r = linux_exec_text ctx os index out_path err_path \<and> (r \<noteq> None \<longrightarrow> heap_ok h' \<and> frame {} h h'))"
    proof (cases "linux_run_text os")
      case None
      then show ?thesis using r by (simp add: run_result_def linux_exec_text_def)
    next
      case (Some res)
      then obtain status s t calls b' c' where spec: "linux_run_text os = Some (status, s, t, calls)"
        and b': "r = Some (status, b', c', calls)" "two_buffers ({}, h) h' b' c' s t" "length s < 2 ^ 63" "length t < 2 ^ 63"
        using r by (cases res) (auto simp: run_result_def)
      show ?thesis
        using spec b'(1)
        by (simp add: linux_exec_text_def) (rule runs_bnd_mono [OF finish_runs [OF b'(2,3,4)]], simp)
    qed
  qed
qed

subsection \<open>What a process delivers\<close>

lemma linux_exec_served:
  assumes "heap_ok h" and "linux_kernel_ok os"
    and "lk_stdout_pipe os" and "lk_stderr_pipe os" and "lk_forks os"
    and "lk_rounds os = map Some rs @ rest"
    and "stream_ends linux_goes_on (map fst rs) \<and> stream_ends linux_goes_on (map snd rs) \<or>
      (\<exists>rest'. rest = None # rest')"
  shows "runs (linux_exec_process ctx os index out_path err_path) h (\<lambda>r h'.
    r = Some (case exit_status os of Some status \<Rightarrow> status | None \<Rightarrow> - 1,
      progression_calls ctx index @
      [Os_pipe Std_out, Os_pipe Std_err, Os_create_process, Os_close_write Std_out, Os_close_write Std_err,
       Os_close_read Std_out, Os_close_read Std_err] @
      finish_text ctx (lk_opens os) index out_path err_path
        (case exit_status os of Some status \<Rightarrow> status | None \<Rightarrow> - 1)
        (stream_text linux_bytes linux_goes_on (map fst rs))
        (stream_text linux_bytes linux_goes_on (map snd rs) @
          (if exit_status os = None then ''Unable to obtain exit code'' else []))) \<and>
    heap_ok h' \<and> frame {} h h')"
proof -
  have "pump_text linux_bytes linux_goes_on (lk_rounds os) (True, []) (True, []) =
      Some (stream_text linux_bytes linux_goes_on (map fst rs), stream_text linux_bytes linux_goes_on (map snd rs))"
    unfolding assms(6) using pump_text_served [of True linux_goes_on rs True rest linux_bytes "[]" "[]"] assms(7) by auto
  then show ?thesis
    using assms(3-5)
    by (intro runs_mono [OF linux_exec_runs [OF assms(1,2)]])
      (auto simp: linux_exec_text_def linux_run_text_def split: option.split)
qed

text \<open>When pipes and child can be made and the system ends both streams, or \<open>select\<close> fails in some
  turn, \<open>linux_exec_process\<close> returns the exit code of the child, or -1 if there is none, and writes
  and reports for each stream exactly the bytes read from it up to then, whatever the order in
  which the streams became ready and however often the buffers had to be moved. Nothing is read
  or written outside an allocated block, and no block that existed before is changed.\<close>

lemma linux_exec_collects:
  assumes "heap_ok h" and "linux_kernel_ok os"
    and "lk_stdout_pipe os" and "lk_stderr_pipe os" and "lk_forks os"
    and "lk_rounds os = map Some rs @ rest"
    and "stream_ends linux_goes_on (map fst rs) \<and> stream_ends linux_goes_on (map snd rs) \<or>
      (\<exists>rest'. rest = None # rest')"
  shows "runs (linux_exec_process ctx os index out_path err_path) h (\<lambda>r h'.
    r = Some (case exit_status os of Some status \<Rightarrow> status | None \<Rightarrow> - 1,
      progression_calls ctx index @
      [Os_pipe Std_out, Os_pipe Std_err, Os_create_process, Os_close_write Std_out, Os_close_write Std_err,
       Os_close_read Std_out, Os_close_read Std_err] @
      finish_text ctx (lk_opens os) index out_path err_path
        (case exit_status os of Some status \<Rightarrow> status | None \<Rightarrow> - 1)
        (concat (map linux_bytes (takeWhile linux_goes_on (map fst rs))))
        (concat (map linux_bytes (takeWhile linux_goes_on (map snd rs))) @
          (if exit_status os = None then ''Unable to obtain exit code'' else []))) \<and>
    heap_ok h' \<and> frame {} h h')"
proof -
  have "stream_text linux_bytes linux_goes_on as = concat (map linux_bytes (takeWhile linux_goes_on as))" for as
  proof (induction as)
    case (Cons a as)
    then show ?case by (cases a) auto
  qed simp
  then show ?thesis using linux_exec_served [OF assms] by simp
qed

text \<open>The same for a process that writes two lines on standard output and one on standard error.\<close>

definition sample_rounds :: "(linux_read \<times> linux_read) list" where
  "sample_rounds =
     [(Read_bytes ''one'', Not_set), (Not_set, Not_set), (Read_bytes ''two'', Read_bytes ''warn''),
      (Read_bytes [], Not_set), (Read_bytes [], Read_bytes [])]"

definition sample_os :: linux_kernel where
  "sample_os = \<lparr>lk_stdout_pipe = True, lk_stderr_pipe = True, lk_forks = True, lk_rounds = map Some sample_rounds,
     lk_status = Some 0x0300, lk_opens = \<lambda>path. path = ''out.txt''\<rparr>"

lemma sample_status: "exit_status sample_os = Some 3"
  by (simp add: exit_status_def sample_os_def wifexited_def wexitstatus_def)

lemma sample_os_ok: "linux_kernel_ok sample_os"
  by (simp add: linux_kernel_ok_def sample_os_def sample_rounds_def rounds_room_def max_byte_read_def)

lemma wexitstatus_range: "0 \<le> wexitstatus status \<and> wexitstatus status < 256"
proof -
  have "uint (status AND 0xff00) \<le> 0xff00"
    by (simp add: uint_and AND_upper2)
  from zdiv_mono1 [OF this, of 256] show ?thesis
    by (simp add: wexitstatus_def drop_bit_eq_div uint_div pos_imp_zdiv_nonneg_iff)
qed

text \<open>Whatever fails, \<open>linux_exec_process\<close> closes both ends of every pipe it has made, each once,
  and its result is -1 or an exit code of 8 bits.\<close>

lemma linux_exec_closes:
  assumes "heap_ok h" and "linux_kernel_ok os"
    and "linux_exec_process ctx os index out_path err_path h = Ok (Some (status, calls)) h'"
  shows "open_ends calls {} = Some {} \<and> - 1 \<le> status \<and> status < 256"
proof -
  have "Some (status, calls) = linux_exec_text ctx os index out_path err_path"
    using linux_exec_runs [OF assms(1,2), of "ctx" index out_path err_path] assms(3) by (simp add: runs_def)
  moreover have "- 1 \<le> (case exit_status os of Some status \<Rightarrow> status | None \<Rightarrow> - 1)"
    "(case exit_status os of Some status \<Rightarrow> status | None \<Rightarrow> - 1) < 256"
    using wexitstatus_range by (auto simp: exit_status_def split: option.split) (smt (verit))+
  ultimately show ?thesis
    by (auto simp: linux_exec_text_def linux_run_text_def open_ends_append Let_def
        split: option.splits if_splits)
qed

definition no_fork_os :: linux_kernel where
  "no_fork_os = sample_os\<lparr>lk_forks := False\<rparr>"

text \<open>The shell of the child has the write ends of the two pipes as its standard output and standard
  error and holds no other end of them, so that each stream ends when the child and what it started
  have closed their output.\<close>

lemma child_descriptors:
  assumes "distinct [r1, w1, r2, w2]" and "list_all (\<lambda>fd. 2 < fd) [r1, w1, r2, w2]"
    and "\<And>fd. fd \<notin> {r1, w1, r2, w2} \<Longrightarrow> table fd \<in> {None, Some Inherited}"
    and "table w1 = Some (Write_end Std_out)" and "table w2 = Some (Write_end Std_err)"
    and "linux_child (r1, w1) (r2, w2) chdirs execs command table = (child, table')"
  shows "table' 1 = Some (Write_end Std_out) \<and> table' 2 = Some (Write_end Std_err) \<and>
    (table' fd \<notin> {None, Some Inherited} \<longrightarrow> fd = 1 \<or> fd = 2) \<and>
    (child = Runs_shell command \<longleftrightarrow> chdirs \<and> execs)"
proof -
  have ends: "table w1 = Some (Write_end Std_out)" "table w2 = Some (Write_end Std_err)" by fact+
  have ne: "w1 \<noteq> 1" "w1 \<noteq> 2" "w2 \<noteq> 1" "w2 \<noteq> 2" "r1 \<noteq> w1" "r1 \<noteq> w2" "r2 \<noteq> w1" "r2 \<noteq> w2" "w1 \<noteq> w2"
    using assms(1,2) by auto
  have table': "table' = (table(r1 := None, r2 := None, 1 \<mapsto> Write_end Std_out, 2 \<mapsto> Write_end Std_err, w1 := None, w2 := None))"
    and child: "child = (if chdirs \<and> execs then Runs_shell command else Exits (- 1))"
  proof -
    let ?t = "table(r1 := None, r2 := None)"
    let ?table = "?t(1 \<mapsto> Write_end Std_out, 2 \<mapsto> Write_end Std_err, w1 := None, w2 := None)"
    have dups: "fd_dup2 w1 1 ?t = ?t(1 \<mapsto> Write_end Std_out)"
      "fd_dup2 w2 2 (?t(1 \<mapsto> Write_end Std_out)) = ?t(1 \<mapsto> Write_end Std_out, 2 \<mapsto> Write_end Std_err)"
      using ends ne by (simp_all add: fd_dup2_def)
    have "linux_child (r1, w1) (r2, w2) chdirs execs command table =
        (if chdirs \<and> execs then Runs_shell command else Exits (- 1), ?table)"
      unfolding linux_child.simps Let_def fd_close_def dups ..
    then have "(child, table') = (if chdirs \<and> execs then Runs_shell command else Exits (- 1), ?table)"
      by (rule trans [OF assms(6) [symmetric]])
    then have both: "child = (if chdirs \<and> execs then Runs_shell command else Exits (- 1)) \<and> table' = ?table"
      by (rule prod.inject [THEN iffD1])
    show "table' = ?table" using both by (rule conjunct2)
    show "child = (if chdirs \<and> execs then Runs_shell command else Exits (- 1))" using both by (rule conjunct1)
  qed
  have "fd = 1 \<or> fd = 2" if "table' fd \<notin> {None, Some Inherited}"
  proof (rule ccontr)
    assume "\<not> (fd = 1 \<or> fd = 2)"
    then have "table' fd = None \<or> fd \<notin> {r1, w1, r2, w2} \<and> table' fd = table fd"
      unfolding table' fun_upd_apply by auto
    with assms(3) [of fd] that show False by auto
  qed
  moreover have "table' 1 = Some (Write_end Std_out)" "table' 2 = Some (Write_end Std_err)"
    unfolding table' fun_upd_apply using ne by auto
  moreover have "child = Runs_shell command \<longleftrightarrow> chdirs \<and> execs"
    by (simp add: child)
  ultimately show ?thesis by blast
qed

definition sample_table :: "int \<Rightarrow> descriptor option" where
  "sample_table = [0 \<mapsto> Inherited, 1 \<mapsto> Inherited, 2 \<mapsto> Inherited, 3 \<mapsto> Read_end Std_out, 4 \<mapsto> Write_end Std_out,
     5 \<mapsto> Read_end Std_err, 6 \<mapsto> Write_end Std_err]"

end
