(* ===== verification/ExecSystem.thy ===== *)
theory ExecSystem imports LinuxExec begin

text \<open>
  The loop of \<open>linux_exec_process\<close> beside the process it started: \<open>parent_step\<close> is the code of the parent,
  one call of the system at a time, whether it succeeds (\<open>served_step\<close>) or fails (\<open>failing_step\<close>);
  \<open>child_step\<close> is what happens to the pipes, which hold at most \<open>capacity\<close> bytes. The answers of the
  system are no longer given but follow from the state of the pipes; the turns of the loop that
  come out are the \<open>lk_rounds\<close> of \<open>LinuxExec\<close>.

  The process writes its pieces of output in order, whatever it is, and exits with any status. A
  pipe has ended when all write ends are closed: not before the process has written its output, but
  perhaps before its exit, and perhaps long after it, since the processes that other threads start
  between \<open>pipe\<close> and \<open>close\<close> inherit the write ends and keep them until they exit.
\<close>

datatype parent = Selecting | Reading bool bool | Reading_err linux_read bool | Waiting | Parent_returned

record system =
  todo :: "(stream \<times> string) list"
  child_status :: "32 word option"
  out_open :: bool
  err_open :: bool
  out_pipe :: string
  err_pipe :: string
  parent :: parent
  more_stdout :: bool
  more_stderr :: bool
  turns :: "(linux_read \<times> linux_read) option list"

definition initial_system :: "(stream \<times> string) list \<Rightarrow> system" where
  "initial_system program =
     \<lparr>todo = program, child_status = None, out_open = True, err_open = True, out_pipe = [], err_pipe = [],
      parent = Selecting, more_stdout = True, more_stderr = True, turns = []\<rparr>"

text \<open>A pipe is readable when it holds a byte or all its write ends are closed.\<close>

definition readable :: "string \<Rightarrow> bool \<Rightarrow> bool" where
  "readable pipe is_open \<longleftrightarrow> pipe \<noteq> [] \<or> \<not> is_open"

text \<open>\<open>read\<close> takes some bytes, at most \<open>max_byte_read\<close>, from the front of the pipe, or none at the end.\<close>

definition read_from :: "string \<Rightarrow> string \<Rightarrow> string \<Rightarrow> bool" where
  "read_from pipe bytes rest \<longleftrightarrow> pipe = bytes @ rest \<and> length bytes \<le> max_byte_read \<and> (bytes = [] \<longrightarrow> pipe = [])"

inductive served_step :: "system \<Rightarrow> system \<Rightarrow> bool" where
  loop_ends: "parent s = Selecting \<Longrightarrow> \<not> (more_stdout s \<or> more_stderr s) \<Longrightarrow>
    served_step s (s\<lparr>parent := Waiting\<rparr>)"
| selected: "parent s = Selecting \<Longrightarrow> more_stdout s \<or> more_stderr s \<Longrightarrow>
    served_step s (s\<lparr>parent := Reading (readable (out_pipe s) (out_open s)) (readable (err_pipe s) (err_open s))\<rparr>)"
| reads_out: "parent s = Reading True e \<Longrightarrow> more_stdout s \<Longrightarrow> read_from (out_pipe s) bytes rest \<Longrightarrow>
    served_step s (s\<lparr>out_pipe := rest, more_stdout := bytes \<noteq> [], parent := Reading_err (Read_bytes bytes) e\<rparr>)"
| skips_out: "parent s = Reading r e \<Longrightarrow> \<not> (r \<and> more_stdout s) \<Longrightarrow>
    served_step s (s\<lparr>parent := Reading_err Not_set e\<rparr>)"
| reads_err: "parent s = Reading_err a True \<Longrightarrow> more_stderr s \<Longrightarrow> read_from (err_pipe s) bytes rest \<Longrightarrow>
    served_step s (s\<lparr>err_pipe := rest, more_stderr := bytes \<noteq> [], parent := Selecting,
      turns := turns s @ [Some (a, Read_bytes bytes)]\<rparr>)"
| skips_err: "parent s = Reading_err a e \<Longrightarrow> \<not> (e \<and> more_stderr s) \<Longrightarrow>
    served_step s (s\<lparr>parent := Selecting, turns := turns s @ [Some (a, Not_set)]\<rparr>)"
| waited: "parent s = Waiting \<Longrightarrow> child_status s \<noteq> None \<Longrightarrow> served_step s (s\<lparr>parent := Parent_returned\<rparr>)"

text \<open>\<open>select\<close> fails, for instance since a signal has come, and the loop is left; \<open>read\<close> fails, and the stream counts as ended.\<close>

inductive failing_step :: "system \<Rightarrow> system \<Rightarrow> bool" where
  select_fails: "parent s = Selecting \<Longrightarrow> more_stdout s \<or> more_stderr s \<Longrightarrow>
    failing_step s (s\<lparr>parent := Waiting, turns := turns s @ [None]\<rparr>)"
| read_out_fails: "parent s = Reading True e \<Longrightarrow> more_stdout s \<Longrightarrow>
    failing_step s (s\<lparr>more_stdout := False, parent := Reading_err Read_failed e\<rparr>)"
| read_err_fails: "parent s = Reading_err a True \<Longrightarrow> more_stderr s \<Longrightarrow>
    failing_step s (s\<lparr>more_stderr := False, parent := Selecting, turns := turns s @ [Some (a, Read_failed)]\<rparr>)"

definition parent_step :: "system \<Rightarrow> system \<Rightarrow> bool" where
  "parent_step s s' \<longleftrightarrow> served_step s s' \<or> failing_step s s'"

definition output_of :: "stream \<Rightarrow> (stream \<times> string) list \<Rightarrow> string" where
  "output_of stream program = concat (map snd (filter (\<lambda>(st, u). st = stream) program))"

lemma output_of_simps [simp]:
  "output_of st [] = []" "output_of st ((st', u) # program) = (if st' = st then u else []) @ output_of st program"
  by (simp_all add: output_of_def)

inductive child_step :: "nat \<Rightarrow> system \<Rightarrow> system \<Rightarrow> bool" for capacity where
  writes_out: "todo s = (Std_out, u @ v) # rest \<Longrightarrow> u \<noteq> [] \<Longrightarrow> length (out_pipe s @ u) \<le> capacity \<Longrightarrow>
    child_step capacity s (s\<lparr>todo := (Std_out, v) # rest, out_pipe := out_pipe s @ u\<rparr>)"
| writes_err: "todo s = (Std_err, u @ v) # rest \<Longrightarrow> u \<noteq> [] \<Longrightarrow> length (err_pipe s @ u) \<le> capacity \<Longrightarrow>
    child_step capacity s (s\<lparr>todo := (Std_err, v) # rest, err_pipe := err_pipe s @ u\<rparr>)"
| written: "todo s = (stream, []) # rest \<Longrightarrow> child_step capacity s (s\<lparr>todo := rest\<rparr>)"
| closes_out: "out_open s \<Longrightarrow> output_of Std_out (todo s) = [] \<Longrightarrow> child_step capacity s (s\<lparr>out_open := False\<rparr>)"
| closes_err: "err_open s \<Longrightarrow> output_of Std_err (todo s) = [] \<Longrightarrow> child_step capacity s (s\<lparr>err_open := False\<rparr>)"
| exits: "todo s = [] \<Longrightarrow> child_status s = None \<Longrightarrow> child_step capacity s (s\<lparr>child_status := Some w\<rparr>)"

definition exec_step :: "nat \<Rightarrow> system \<Rightarrow> system \<Rightarrow> bool" where
  "exec_step capacity s s' \<longleftrightarrow> parent_step s s' \<or> child_step capacity s s'"

text \<open>The answers of the turn that has been begun, and whether a call has failed.\<close>

fun current :: "parent \<Rightarrow> linux_read list" where
  "current (Reading_err a e) = [a]"
| "current _ = []"

definition failed :: "system \<Rightarrow> bool" where
  "failed s \<longleftrightarrow> None \<in> set (turns s) \<or>
     (\<exists>a b. Some (a, b) \<in> set (turns s) \<and> (a = Read_failed \<or> b = Read_failed)) \<or> Read_failed \<in> set (current (parent s))"

inductive_cases served_stepE: "served_step s s'"
inductive_cases failing_stepE: "failing_step s s'"
inductive_cases child_stepE: "child_step capacity s s'"

lemma served_failed: "served_step s s' \<Longrightarrow> failed s' \<longleftrightarrow> failed s"
  by (erule served_stepE) (auto simp: failed_def)

lemma failing_failed: "failing_step s s' \<Longrightarrow> failed s'"
  by (erule failing_stepE) (auto simp: failed_def)

lemma child_failed: "child_step capacity s s' \<Longrightarrow> failed s' \<longleftrightarrow> failed s"
  by (erule child_stepE) (auto simp: failed_def)

text \<open>A step after which no call has failed.\<close>

definition good_step :: "nat \<Rightarrow> system \<Rightarrow> system \<Rightarrow> bool" where
  "good_step capacity s s' \<longleftrightarrow> served_step s s' \<or> child_step capacity s s'"

lemma good_steps: "(exec_step capacity)\<^sup>*\<^sup>* s s' \<Longrightarrow> \<not> failed s' \<Longrightarrow> (good_step capacity)\<^sup>*\<^sup>* s s'"
proof (induction rule: rtranclp_induct)
  case (step t u)
  then have "good_step capacity t u" "\<not> failed t"
    using served_failed failing_failed child_failed by (auto simp: exec_step_def parent_step_def good_step_def)
  with step.IH show ?case using rtranclp.rtrancl_into_rtrancl by metis
qed simp

subsection \<open>What holds at every moment\<close>

definition collected :: "linux_read list \<Rightarrow> string" where
  "collected as = concat (map linux_bytes as)"

lemma collected_simps [simp]:
  "collected [] = []" "collected (as @ bs) = collected as @ collected bs"
  "collected (a # as) = linux_bytes a @ collected as"
  by (simp_all add: collected_def)

text \<open>The answers of the turns and of the turn that has been begun.\<close>

definition out_answers :: "system \<Rightarrow> linux_read list" where
  "out_answers s = map (fst \<circ> the) (turns s) @ current (parent s)"

definition err_answers :: "system \<Rightarrow> linux_read list" where
  "err_answers s = map (snd \<circ> the) (turns s)"

text \<open>
  Per stream: the answers carry what the program has written less what is still in the pipe or to
  be written; only an empty answer ends the stream, and only when everything has been read.
\<close>

definition stream_ok :: "string \<Rightarrow> string \<Rightarrow> string \<Rightarrow> bool \<Rightarrow> bool \<Rightarrow> linux_read list \<Rightarrow> bool" where
  "stream_ok whole pipe rest ended going as \<longleftrightarrow>
     whole = collected as @ pipe @ rest \<and> list_all linux_answer_ok as \<and> (ended \<longrightarrow> rest = []) \<and>
     (if going then list_all linux_goes_on as
      else ended \<and> pipe = [] \<and> rest = [] \<and> stream_ends linux_goes_on as \<and>
        stream_text linux_bytes linux_goes_on as = collected as)"

fun phase_ok :: "system \<Rightarrow> parent \<Rightarrow> bool" where
  "phase_ok s (Reading o' e) = ((more_stdout s \<or> more_stderr s) \<and>
     (o' \<longrightarrow> more_stdout s \<longrightarrow> readable (out_pipe s) (out_open s)) \<and> (e \<longrightarrow> more_stderr s \<longrightarrow> readable (err_pipe s) (err_open s)))"
| "phase_ok s (Reading_err a e) = (e \<longrightarrow> more_stderr s \<longrightarrow> readable (err_pipe s) (err_open s))"
| "phase_ok s Selecting = True"
| "phase_ok s Waiting = (\<not> more_stdout s \<and> \<not> more_stderr s)"
| "phase_ok s Parent_returned = (\<not> more_stdout s \<and> \<not> more_stderr s \<and> child_status s \<noteq> None)"

definition system_ok :: "(stream \<times> string) list \<Rightarrow> system \<Rightarrow> bool" where
  "system_ok program s \<longleftrightarrow>
     None \<notin> set (turns s) \<and>
     stream_ok (output_of Std_out program) (out_pipe s) (output_of Std_out (todo s)) (\<not> out_open s)
       (more_stdout s) (out_answers s) \<and>
     stream_ok (output_of Std_err program) (err_pipe s) (output_of Std_err (todo s)) (\<not> err_open s)
       (more_stderr s) (err_answers s) \<and>
     (child_status s \<noteq> None \<longrightarrow> todo s = []) \<and> phase_ok s (parent s)"

lemma system_ok_initial: "system_ok program (initial_system program)"
  by (simp add: system_ok_def initial_system_def stream_ok_def out_answers_def err_answers_def)

lemma stream_text_all:
  "list_all linux_goes_on as \<Longrightarrow> stream_text linux_bytes linux_goes_on (as @ bs) =
     collected as @ stream_text linux_bytes linux_goes_on bs"
  by (induction as) simp_all

lemma stream_ok_read:
  assumes "stream_ok whole pipe rest ended True as" and "read_from pipe bytes pipe'" and "pipe \<noteq> [] \<or> ended"
  shows "stream_ok whole pipe' rest ended (bytes \<noteq> []) (as @ [Read_bytes bytes])"
  using assms stream_text_all [of as "[Read_bytes bytes]"]
  by (auto simp: stream_ok_def read_from_def stream_ends_def)

lemma stream_text_ended:
  "stream_ends linux_goes_on as \<Longrightarrow> stream_text linux_bytes linux_goes_on (as @ bs) = stream_text linux_bytes linux_goes_on as"
  by (induction as) (auto simp: stream_ends_def)

lemma stream_ok_skip:
  "stream_ok whole pipe rest exited going as \<Longrightarrow> stream_ok whole pipe rest exited going (as @ [Not_set])"
  using stream_text_ended [of as "[Not_set]"] by (auto simp: stream_ok_def stream_ends_def split: if_splits)

lemma stream_ok_write:
  "stream_ok whole pipe (u @ v) False going as \<Longrightarrow> stream_ok whole (pipe @ u) v False going as"
  by (auto simp: stream_ok_def split: if_splits)

lemma stream_ok_close: "stream_ok whole pipe [] ended going as \<Longrightarrow> stream_ok whole pipe [] True going as"
  by (auto simp: stream_ok_def split: if_splits)

lemma served_step_ok: "system_ok program s \<Longrightarrow> served_step s s' \<Longrightarrow> system_ok program s'"
proof (erule served_stepE, goal_cases)
  case (3 e bytes rest)
  then show ?case
    using stream_ok_read [of "output_of Std_out program" "out_pipe s" "output_of Std_out (todo s)" "\<not> out_open s" "out_answers s" bytes rest]
    by (auto simp: system_ok_def readable_def out_answers_def err_answers_def)
next
  case (5 a bytes rest)
  then show ?case
    using stream_ok_read [of "output_of Std_err program" "err_pipe s" "output_of Std_err (todo s)" "\<not> err_open s" "err_answers s" bytes rest]
    by (auto simp: system_ok_def readable_def out_answers_def err_answers_def)
next
  case (4 r e)
  then show ?case
    using stream_ok_skip by (auto simp: system_ok_def readable_def out_answers_def err_answers_def)
next
  case (6 a e)
  then show ?case
    using stream_ok_skip by (auto simp: system_ok_def readable_def out_answers_def err_answers_def)
qed (auto simp: system_ok_def readable_def out_answers_def err_answers_def)

lemma phase_ok_mono:
  "\<lbrakk>phase_ok s p; more_stdout s' = more_stdout s; more_stderr s' = more_stderr s; child_status s \<noteq> None \<Longrightarrow> child_status s' \<noteq> None;
    readable (out_pipe s) (out_open s) \<Longrightarrow> readable (out_pipe s') (out_open s');
    readable (err_pipe s) (err_open s) \<Longrightarrow> readable (err_pipe s') (err_open s')\<rbrakk> \<Longrightarrow>
    phase_ok s' p"
  by (cases p) auto

lemma child_phase_ok: "phase_ok s (parent s) \<Longrightarrow> child_step capacity s s' \<Longrightarrow> phase_ok s' (parent s')"
  by (erule child_stepE) (auto simp: readable_def elim!: phase_ok_mono)

lemma open_if_todo: "stream_ok whole pipe (u @ v) ended going as \<Longrightarrow> u \<noteq> [] \<Longrightarrow> \<not> ended"
  by (auto simp: stream_ok_def)

lemma child_step_ok: "system_ok program s \<Longrightarrow> child_step capacity s s' \<Longrightarrow> system_ok program s'"
proof -
  assume ok: "system_ok program s" and step: "child_step capacity s s'"
  have phase: "phase_ok s' (parent s')" using ok child_phase_ok [OF _ step] by (simp add: system_ok_def)
  from step show ?thesis
  proof cases
    case (writes_out u v rest)
    then have out: "stream_ok (output_of Std_out program) (out_pipe s) (u @ v @ output_of Std_out rest) (\<not> out_open s) (more_stdout s) (out_answers s)"
      using ok by (simp add: system_ok_def)
    then have "out_open s" using open_if_todo [OF out] writes_out(3) by simp
    then show ?thesis
      using writes_out ok phase out stream_ok_write [of _ "out_pipe s" u "v @ output_of Std_out rest"]
      by (auto simp: system_ok_def out_answers_def err_answers_def)
  next
    case (writes_err u v rest)
    then have err: "stream_ok (output_of Std_err program) (err_pipe s) (u @ v @ output_of Std_err rest) (\<not> err_open s) (more_stderr s) (err_answers s)"
      using ok by (simp add: system_ok_def)
    then have "err_open s" using open_if_todo [OF err] writes_err(3) by simp
    then show ?thesis
      using writes_err ok phase err stream_ok_write [of _ "err_pipe s" u "v @ output_of Std_err rest"]
      by (auto simp: system_ok_def out_answers_def err_answers_def)
  next
    case (closes_out)
    then show ?thesis
      using ok phase stream_ok_close by (auto simp: system_ok_def out_answers_def err_answers_def)
  next
    case (closes_err)
    then show ?thesis
      using ok phase stream_ok_close by (auto simp: system_ok_def out_answers_def err_answers_def)
  qed (use ok phase in \<open>auto simp: system_ok_def out_answers_def err_answers_def\<close>)
qed

lemma good_steps_ok: "(good_step capacity)\<^sup>*\<^sup>* s s' \<Longrightarrow> system_ok program s \<Longrightarrow> system_ok program s'"
  by (induction rule: rtranclp_induct) (auto simp: good_step_def intro: served_step_ok child_step_ok)

lemma reached_ok: "(exec_step capacity)\<^sup>*\<^sup>* (initial_system program) s \<Longrightarrow> \<not> failed s \<Longrightarrow> system_ok program s"
  using good_steps_ok good_steps system_ok_initial by blast

subsection \<open>What arrives\<close>

lemma map_Some_the: "None \<notin> set ts \<Longrightarrow> map Some (map the ts) = ts"
  by (induction ts) auto

lemma turns_rounds_ok:
  "None \<notin> set ts \<Longrightarrow> list_all linux_answer_ok (map (fst \<circ> the) ts) \<Longrightarrow> list_all linux_answer_ok (map (snd \<circ> the) ts) \<Longrightarrow>
    rounds_ok linux_answer_ok ts"
  by (induction ts) (auto split: option.split)

text \<open>C26: However the kernel interleaves a process with \<open>linux_exec_process\<close> and in whatever portions its
  output passes through the pipes, once the parent has returned it has written to the output files
  and handed to the callback exactly what the process wrote, each stream in order and complete, and the
  process has exited, unless a \<open>select\<close> or a \<open>read\<close> has failed.\<close>

theorem exec_delivers_output:
  assumes "(exec_step capacity)\<^sup>*\<^sup>* (initial_system program) s" and "\<not> failed s" and "parent s = Parent_returned"
    and "heap_ok h" and "lk_stdout_pipe os" and "lk_stderr_pipe os" and "lk_forks os"
    and "lk_rounds os = turns s" and "lk_status os = child_status s"
    and "rounds_room linux_room (turns s) < 2 ^ 62"
  shows "runs (linux_exec_process ctx os index out_path err_path) h (\<lambda>r h'.
    r = Some (case exit_status os of Some status \<Rightarrow> status | None \<Rightarrow> - 1,
      progression_calls ctx index @
      [Os_pipe Std_out, Os_pipe Std_err, Os_create_process, Os_close_write Std_out, Os_close_write Std_err,
       Os_close_read Std_out, Os_close_read Std_err] @
      finish_text ctx (lk_opens os) index out_path err_path
        (case exit_status os of Some status \<Rightarrow> status | None \<Rightarrow> - 1)
        (output_of Std_out program)
        (output_of Std_err program @ (if exit_status os = None then ''Unable to obtain exit code'' else []))) \<and>
    child_status s \<noteq> None \<and> heap_ok h' \<and> frame {} h h')"
proof -
  have ok: "system_ok program s" by (rule reached_ok [OF assms(1,2)])
  let ?rs = "map the (turns s)"
  have outs: "map fst ?rs = out_answers s" and errs: "map snd ?rs = err_answers s"
    using assms(3) by (simp_all add: out_answers_def err_answers_def)
  have turns: "lk_rounds os = map Some ?rs @ []"
    using ok map_Some_the [of "turns s"] assms(8) by (simp add: system_ok_def del: map_map)
  have out: "stream_ok (output_of Std_out program) (out_pipe s) (output_of Std_out (todo s)) (\<not> out_open s) False (out_answers s)"
    and err: "stream_ok (output_of Std_err program) (err_pipe s) (output_of Std_err (todo s)) (\<not> err_open s) False (err_answers s)"
    and exited: "child_status s \<noteq> None"
    using ok assms(3) by (auto simp: system_ok_def)
  have "linux_kernel_ok os"
    using ok assms(8,10) out err turns_rounds_ok [of "turns s"]
    by (simp add: linux_kernel_ok_def system_ok_def stream_ok_def out_answers_def err_answers_def assms(3) comp_def)
  moreover have "stream_ends linux_goes_on (map fst ?rs) \<and> stream_ends linux_goes_on (map snd ?rs)"
    using out err unfolding outs errs by (simp add: stream_ok_def)
  moreover have "stream_text linux_bytes linux_goes_on (map fst ?rs) = output_of Std_out program"
    "stream_text linux_bytes linux_goes_on (map snd ?rs) = output_of Std_err program"
    using out err unfolding outs errs by (simp_all add: stream_ok_def)
  ultimately show ?thesis
    using linux_exec_served [OF assms(4) _ assms(5-7) turns] exited by simp
qed

text \<open>A run whose process writes one byte.\<close>

definition one_byte :: "(stream \<times> string) list" where "one_byte = [(Std_out, ''a'')]"

definition one_byte_turns :: "(linux_read \<times> linux_read) option list" where
  "one_byte_turns = [Some (Read_bytes ''a'', Read_bytes []), Some (Read_bytes [], Not_set)]"

definition one_byte_end :: system where
  "one_byte_end =
     \<lparr>todo = [], child_status = Some 0, out_open = False, err_open = False, out_pipe = [], err_pipe = [],
      parent = Parent_returned, more_stdout = False, more_stderr = False, turns = one_byte_turns\<rparr>"

lemma one_byte_run: "(exec_step 1)\<^sup>*\<^sup>* (initial_system one_byte) one_byte_end"
proof -
  let ?s = "\<lambda>todo status oo eo out p mo me turns. \<lparr>todo = todo, child_status = status, out_open = oo, err_open = eo,
    out_pipe = out, err_pipe = [], parent = p, more_stdout = mo, more_stderr = me, turns = turns\<rparr>"
  let ?t1 = "[Some (Read_bytes ''a'', Read_bytes [])]"
  have cs: "child_step 1 s s' \<Longrightarrow> exec_step 1 s s'" and ps: "served_step s s' \<Longrightarrow> exec_step 1 s s'" for s s'
    by (simp_all add: exec_step_def parent_step_def)
  note into = converse_rtranclp_into_rtranclp [of "exec_step 1"]
  have s1: "child_step 1 (initial_system one_byte) (?s [(Std_out, [])] None True True ''a'' Selecting True True [])"
    using writes_out [of "initial_system one_byte" "''a''" "[]" "[]" 1] by (simp add: initial_system_def one_byte_def)
  have s2: "child_step 1 (?s [(Std_out, [])] None True True ''a'' Selecting True True []) (?s [] None True True ''a'' Selecting True True [])"
    using written [of "?s [(Std_out, [])] None True True ''a'' Selecting True True []" Std_out "[]" 1] by simp
  have s3: "child_step 1 (?s [] None True True ''a'' Selecting True True []) (?s [] (Some 0) True True ''a'' Selecting True True [])"
    using exits [of "?s [] None True True ''a'' Selecting True True []" 1 0] by simp
  have c1: "child_step 1 (?s [] (Some 0) True True ''a'' Selecting True True []) (?s [] (Some 0) False True ''a'' Selecting True True [])"
    using closes_out [of "?s [] (Some 0) True True ''a'' Selecting True True []" 1] by simp
  have c2: "child_step 1 (?s [] (Some 0) False True ''a'' Selecting True True []) (?s [] (Some 0) False False ''a'' Selecting True True [])"
    using closes_err [of "?s [] (Some 0) False True ''a'' Selecting True True []" 1] by simp
  have s4: "served_step (?s [] (Some 0) False False ''a'' Selecting True True []) (?s [] (Some 0) False False ''a'' (Reading True True) True True [])"
    using selected [of "?s [] (Some 0) False False ''a'' Selecting True True []"] by (simp add: readable_def)
  have s5: "served_step (?s [] (Some 0) False False ''a'' (Reading True True) True True [])
      (?s [] (Some 0) False False [] (Reading_err (Read_bytes ''a'') True) True True [])"
    using reads_out [of "?s [] (Some 0) False False ''a'' (Reading True True) True True []" True "''a''" "[]"]
    by (simp add: read_from_def max_byte_read_def)
  have s6: "served_step (?s [] (Some 0) False False [] (Reading_err (Read_bytes ''a'') True) True True [])
      (?s [] (Some 0) False False [] Selecting True False ?t1)"
    using reads_err [of "?s [] (Some 0) False False [] (Reading_err (Read_bytes ''a'') True) True True []" "Read_bytes ''a''" "[]" "[]"]
    by (simp add: read_from_def)
  have s7: "served_step (?s [] (Some 0) False False [] Selecting True False ?t1) (?s [] (Some 0) False False [] (Reading True True) True False ?t1)"
    using selected [of "?s [] (Some 0) False False [] Selecting True False ?t1"] by (simp add: readable_def)
  have s8: "served_step (?s [] (Some 0) False False [] (Reading True True) True False ?t1)
      (?s [] (Some 0) False False [] (Reading_err (Read_bytes []) True) False False ?t1)"
    using reads_out [of "?s [] (Some 0) False False [] (Reading True True) True False ?t1" True "[]" "[]"] by (simp add: read_from_def)
  have s9: "served_step (?s [] (Some 0) False False [] (Reading_err (Read_bytes []) True) False False ?t1)
      (?s [] (Some 0) False False [] Selecting False False one_byte_turns)"
    using skips_err [of "?s [] (Some 0) False False [] (Reading_err (Read_bytes []) True) False False ?t1" "Read_bytes []" True]
    by (simp add: one_byte_turns_def)
  have s10: "served_step (?s [] (Some 0) False False [] Selecting False False one_byte_turns) (?s [] (Some 0) False False [] Waiting False False one_byte_turns)"
    using loop_ends [of "?s [] (Some 0) False False [] Selecting False False one_byte_turns"] by simp
  have s11: "served_step (?s [] (Some 0) False False [] Waiting False False one_byte_turns) one_byte_end"
    using waited [of "?s [] (Some 0) False False [] Waiting False False one_byte_turns"] by (simp add: one_byte_end_def)
  show ?thesis
    by (rule into [OF cs [OF s1] into [OF cs [OF s2] into [OF cs [OF s3] into [OF cs [OF c1] into [OF cs [OF c2]
      into [OF ps [OF s4] into [OF ps [OF s5] into [OF ps [OF s6] into [OF ps [OF s7] into [OF ps [OF s8] into [OF ps [OF s9]
      into [OF ps [OF s10] into [OF ps [OF s11] rtranclp.rtrancl_refl]]]]]]]]]]]]])
qed

lemma one_byte_end_simps:
  "\<not> failed one_byte_end" "parent one_byte_end = Parent_returned" "turns one_byte_end = one_byte_turns"
  "child_status one_byte_end = Some 0"
  by (auto simp: one_byte_end_def failed_def one_byte_turns_def)

definition one_byte_os :: linux_kernel where
  "one_byte_os = sample_os\<lparr>lk_rounds := one_byte_turns, lk_status := Some 0\<rparr>"

lemma one_byte_os_simps:
  "lk_stdout_pipe one_byte_os" "lk_stderr_pipe one_byte_os" "lk_forks one_byte_os"
  "lk_rounds one_byte_os = one_byte_turns" "lk_status one_byte_os = Some 0" "lk_opens one_byte_os = (\<lambda>path. path = ''out.txt'')"
  "exit_status one_byte_os = Some 0"
  by (simp_all add: one_byte_os_def sample_os_def exit_status_def wifexited_def wexitstatus_def)

theorem exec_delivers_output_witness:
  "\<exists>h'. linux_exec_process \<lparr>work_count = 1, has_progression = False, has_completion = True\<rparr>
      one_byte_os 0 (Some ''out.txt'') None empty_heap =
    Ok (Some (0, [Os_pipe Std_out, Os_pipe Std_err, Os_create_process, Os_close_write Std_out, Os_close_write Std_err,
       Os_close_read Std_out, Os_close_read Std_err,
       Os_write_file ''out.txt'' ''a'', Os_lock, Os_completion 0 0 ''a'' [], Os_unlock])) h'"
proof -
  let ?ctx = "\<lparr>work_count = 1, has_progression = False, has_completion = True\<rparr>"
  have "rounds_room linux_room one_byte_turns < 2 ^ 62"
    by (simp add: one_byte_turns_def rounds_room_def max_byte_read_def)
  then have "runs (linux_exec_process ?ctx one_byte_os 0 (Some ''out.txt'') None) empty_heap (\<lambda>r h'.
      r = Some (case exit_status one_byte_os of Some status \<Rightarrow> status | None \<Rightarrow> - 1,
      progression_calls ?ctx 0 @
      [Os_pipe Std_out, Os_pipe Std_err, Os_create_process, Os_close_write Std_out, Os_close_write Std_err,
       Os_close_read Std_out, Os_close_read Std_err] @
      finish_text ?ctx (lk_opens one_byte_os) 0 (Some ''out.txt'') None
        (case exit_status one_byte_os of Some status \<Rightarrow> status | None \<Rightarrow> - 1)
        (output_of Std_out one_byte)
        (output_of Std_err one_byte @ (if exit_status one_byte_os = None then ''Unable to obtain exit code'' else []))) \<and>
      Some (0 :: 32 word) \<noteq> None \<and> heap_ok h' \<and> frame {} empty_heap h')"
    using exec_delivers_output [OF one_byte_run one_byte_end_simps(1,2) empty_heap_ok, of one_byte_os ?ctx 0 "Some ''out.txt''" None]
      one_byte_os_simps one_byte_end_simps by simp
  from runs_returns [OF this empty_heap_grants] show ?thesis
    by (auto simp: one_byte_os_simps progression_calls_def finish_text_def saved_def one_byte_def)
qed

subsection \<open>The parent returns\<close>

fun rank :: "parent \<Rightarrow> nat" where
  "rank Selecting = 3"
| "rank (Reading o' e) = 2"
| "rank (Reading_err Not_set e) = 1"
| "rank (Reading_err a e) = 4"
| "rank Waiting = 1"
| "rank Parent_returned = 0"

definition weight_of :: "system \<Rightarrow> nat" where
  "weight_of s = 4 * (length (out_pipe s) + length (err_pipe s) + of_bool (more_stdout s) + of_bool (more_stderr s)) +
     rank (parent s)"

text \<open>The process has exited and all write ends are closed.\<close>

definition finished :: "system \<Rightarrow> bool" where
  "finished s \<longleftrightarrow> child_status s \<noteq> None \<and> \<not> out_open s \<and> \<not> err_open s"

text \<open>From the first turn begun then on, every stream that still goes on is readable.\<close>

fun fresh_turn :: "system \<Rightarrow> parent \<Rightarrow> bool" where
  "fresh_turn s (Reading o' e) = (o' \<and> e \<and> (more_stdout s \<or> more_stderr s))"
| "fresh_turn s (Reading_err a e) = (e \<and> (a = Not_set \<longrightarrow> more_stderr s))"
| "fresh_turn s _ = True"

definition finished_ok :: "system \<Rightarrow> bool" where
  "finished_ok s \<longleftrightarrow> finished s \<and> fresh_turn s (parent s)"

lemma served_step_keeps: "served_step s s' \<Longrightarrow>
    child_status s' = child_status s \<and> todo s' = todo s \<and> out_open s' = out_open s \<and> err_open s' = err_open s"
  by (erule served_stepE) auto

lemma failing_step_keeps: "failing_step s s' \<Longrightarrow>
    child_status s' = child_status s \<and> todo s' = todo s \<and> out_open s' = out_open s \<and> err_open s' = err_open s"
  by (erule failing_stepE) auto

lemma parent_step_finished: "parent_step s s' \<Longrightarrow> finished s' \<longleftrightarrow> finished s"
proof -
  assume "parent_step s s'"
  then have "child_status s' = child_status s \<and> out_open s' = out_open s \<and> err_open s' = err_open s"
    using served_step_keeps failing_step_keeps by (auto simp: parent_step_def)
  then show ?thesis by (simp add: finished_def)
qed

lemma fresh_turn_step: "parent_step s s' \<Longrightarrow> finished_ok s \<Longrightarrow> fresh_turn s' (parent s')"
  unfolding parent_step_def finished_ok_def finished_def
  by (elim disjE served_stepE failing_stepE) (auto simp: readable_def)

lemma rank_Reading_err: "rank (Reading_err a e) = (if a = Not_set then 1 else 4)"
  by (cases a) simp_all

lemma twice_length: "Suc 0 < 2 * length xs \<longleftrightarrow> xs \<noteq> []"
  by (cases xs) auto

lemma read_from_length:
  "read_from pipe bytes rest \<Longrightarrow> length pipe = length bytes + length rest \<and> (bytes = [] \<longrightarrow> pipe = [])"
  by (auto simp: read_from_def)

lemma served_weight: "served_step s s' \<Longrightarrow> fresh_turn s (parent s) \<Longrightarrow> weight_of s' < weight_of s"
  by (cases rule: served_step.cases)
    (auto simp: weight_of_def rank_Reading_err of_bool_def twice_length dest!: read_from_length split: if_splits)

lemma failing_weight: "failing_step s s' \<Longrightarrow> weight_of s' < weight_of s"
  by (cases rule: failing_step.cases) (auto simp: weight_of_def rank_Reading_err)

interpretation finished: transition_system "\<lambda>s. finished s \<and> parent s = Selecting" parent_step finished_ok weight_of
proof
  fix s s'
  show "finished s \<and> parent s = Selecting \<Longrightarrow> finished_ok s" by (simp add: finished_ok_def)
  assume ok: "finished_ok s" and step: "parent_step s s'"
  then show "finished_ok s'"
    using fresh_turn_step [OF step ok] parent_step_finished [OF step] by (simp add: finished_ok_def)
  show "weight_of s' < weight_of s"
    using ok step served_weight failing_weight by (auto simp: finished_ok_def parent_step_def)
qed

lemma read_one: "pipe \<noteq> [] \<Longrightarrow> read_from pipe [hd pipe] (tl pipe)"
  by (cases pipe) (simp_all add: read_from_def max_byte_read_def)

lemma read_some: "\<exists>bytes rest. read_from pipe bytes rest"
proof (cases "pipe = []")
  case True
  then have "read_from pipe [] []" by (simp add: read_from_def)
  then show ?thesis by blast
next
  case False
  from read_one [OF this] show ?thesis by blast
qed

lemma parent_moves:
  assumes "finished s" and "parent s \<noteq> Parent_returned"
  shows "\<exists>s'. served_step s s'"
proof (cases "parent s")
  case (Reading r e)
  obtain bytes rest where "read_from (out_pipe s) bytes rest" using read_some by blast
  with Reading show ?thesis
    using reads_out [of s e bytes rest] skips_out [of s r e] by (cases "r \<and> more_stdout s") auto
next
  case (Reading_err a e)
  obtain bytes rest where "read_from (err_pipe s) bytes rest" using read_some by blast
  with Reading_err show ?thesis
    using reads_err [of s a bytes rest] skips_err [of s a e] by (cases "e \<and> more_stderr s") auto
qed (use assms loop_ends selected waited in \<open>unfold finished_def, blast+\<close>)

text \<open>While the process runs, the parent goes on reading, so that the process can go on.\<close>

definition in_pipes :: "system \<Rightarrow> nat" where
  "in_pipes s = length (out_pipe s) + length (err_pipe s)"

lemma to_good: "served_step\<^sup>*\<^sup>* s s' \<Longrightarrow> (good_step capacity)\<^sup>*\<^sup>* s s'"
  by (rule rtranclp_mono [THEN predicate2D]) (auto simp: good_step_def)

lemma to_parent: "served_step\<^sup>*\<^sup>* s s' \<Longrightarrow> parent_step\<^sup>*\<^sup>* s s'"
  by (rule rtranclp_mono [THEN predicate2D]) (auto simp: parent_step_def)

lemma to_exec: "(good_step capacity)\<^sup>*\<^sup>* s s' \<Longrightarrow> (exec_step capacity)\<^sup>*\<^sup>* s s'"
  by (rule rtranclp_mono [THEN predicate2D]) (auto simp: good_step_def exec_step_def parent_step_def)

lemma good_steps_failed: "(good_step capacity)\<^sup>*\<^sup>* s s' \<Longrightarrow> failed s' \<longleftrightarrow> failed s"
  by (induction rule: rtranclp_induct) (auto simp: good_step_def served_failed child_failed)

lemma served_steps_keep: "served_step\<^sup>*\<^sup>* s s' \<Longrightarrow>
    child_status s' = child_status s \<and> todo s' = todo s \<and> out_open s' = out_open s \<and> err_open s' = err_open s"
  by (induction rule: rtranclp_induct) (auto dest: served_step_keeps)

lemma served_steps_ok: "served_step\<^sup>*\<^sup>* s s' \<Longrightarrow> system_ok program s \<Longrightarrow> system_ok program s'"
  by (induction rule: rtranclp_induct) (auto intro: served_step_ok)

lemma in_pipes_step: "served_step s s' \<Longrightarrow> in_pipes s' \<le> in_pipes s"
  by (erule served_stepE) (auto simp: in_pipes_def dest!: read_from_length)

lemma full_going:
  "system_ok program s \<Longrightarrow> (out_pipe s \<noteq> [] \<longrightarrow> more_stdout s) \<and> (err_pipe s \<noteq> [] \<longrightarrow> more_stderr s)"
  by (auto simp: system_ok_def stream_ok_def split: if_splits)

lemma full_not_waiting:
  "system_ok program s \<Longrightarrow> 0 < in_pipes s \<Longrightarrow> parent s \<notin> {Waiting, Parent_returned}"
proof -
  assume ok: "system_ok program s" and full: "0 < in_pipes s"
  have "phase_ok s (parent s)" using ok by (simp add: system_ok_def)
  then show ?thesis using full_going [OF ok] full by (auto simp: in_pipes_def)
qed

lemma finish_turn:
  "\<exists>s'. served_step\<^sup>*\<^sup>* s s' \<and> parent s' \<in> {Selecting, Waiting, Parent_returned} \<and> in_pipes s' \<le> in_pipes s"
proof -
  have second: "\<exists>t'. served_step t t' \<and> parent t' = Selecting \<and> in_pipes t' \<le> in_pipes t"
    if "parent t = Reading_err a e" for t a e
  proof -
    obtain bytes rest where "read_from (err_pipe t) bytes rest" using read_some by blast
    then have "\<exists>t'. served_step t t' \<and> parent t' = Selecting"
      using that reads_err [of t a bytes rest] skips_err [of t a e] by (cases "e \<and> more_stderr t") fastforce+
    then show ?thesis using in_pipes_step by blast
  qed
  show ?thesis
  proof (cases "parent s")
    case (Reading r e)
    obtain bytes rest where "read_from (out_pipe s) bytes rest" using read_some by blast
    then obtain t a where t: "served_step s t" "parent t = Reading_err a e"
      using Reading reads_out [of s e bytes rest] skips_out [of s r e] by (cases "r \<and> more_stdout s") fastforce+
    obtain u where u: "served_step t u" "parent u = Selecting" "in_pipes u \<le> in_pipes t"
      using second [OF t(2)] by blast
    have "served_step\<^sup>*\<^sup>* s u" using t(1) u(1) by simp
    moreover have "in_pipes u \<le> in_pipes s" using u(3) in_pipes_step [OF t(1)] by simp
    ultimately show ?thesis using u(2) by blast
  next
    case (Reading_err a e)
    with second show ?thesis by blast
  qed auto
qed

lemma drain:
  assumes "system_ok program s" and "parent s = Selecting" and "0 < in_pipes s"
  shows "\<exists>s'. served_step\<^sup>*\<^sup>* s s' \<and> in_pipes s' < in_pipes s"
proof -
  have more: "out_pipe s \<noteq> [] \<longrightarrow> more_stdout s" "err_pipe s \<noteq> [] \<longrightarrow> more_stderr s"
    using full_going [OF assms(1)] by simp_all
  let ?e = "readable (err_pipe s) (err_open s)"
  let ?s = "s\<lparr>parent := Reading (readable (out_pipe s) (out_open s)) ?e\<rparr>"
  have first: "served_step s ?s"
    using selected [of s] assms(2,3) more by (cases "out_pipe s = []") (auto simp: in_pipes_def)
  show ?thesis
  proof (cases "out_pipe s = []")
    case False
    have "served_step ?s (?s\<lparr>out_pipe := tl (out_pipe s), more_stdout := [hd (out_pipe s)] \<noteq> [],
        parent := Reading_err (Read_bytes [hd (out_pipe s)]) ?e\<rparr>)" (is "served_step ?s ?t")
      using False more reads_out [of ?s ?e "[hd (out_pipe s)]" "tl (out_pipe s)"] read_one [of "out_pipe s"]
      by (simp add: readable_def)
    moreover have "in_pipes ?t < in_pipes s" using False by (simp add: in_pipes_def)
    ultimately show ?thesis using first by (meson r_into_rtranclp rtranclp.rtrancl_into_rtrancl)
  next
    case True
    then have err: "err_pipe s \<noteq> []" using assms(3) by (simp add: in_pipes_def)
    then have e: "?e" by (simp add: readable_def)
    obtain t a where t: "served_step ?s t" "parent t = Reading_err a True" "more_stderr t" "err_pipe t = err_pipe s" "out_pipe t = []"
    proof (cases "readable (out_pipe s) (out_open s) \<and> more_stdout s")
      case out: True
      have "read_from (out_pipe s) [] []" using True by (simp add: read_from_def)
      then show thesis
        using that [OF reads_out [of ?s True "[]" "[]"]] out e err more by simp
    next
      case False
      then show thesis
        using that [OF skips_out [of ?s "readable (out_pipe s) (out_open s)" True]] True e err more by simp
    qed
    have "served_step t (t\<lparr>err_pipe := tl (err_pipe s), more_stderr := [hd (err_pipe s)] \<noteq> [], parent := Selecting,
        turns := turns t @ [Some (a, Read_bytes [hd (err_pipe s)])]\<rparr>)" (is "served_step t ?u")
      using t err reads_err [of t a "[hd (err_pipe s)]" "tl (err_pipe s)"] read_one [of "err_pipe s"] by simp
    moreover have "in_pipes ?u < in_pipes s" using err t(5) by (cases "err_pipe s") (simp_all add: in_pipes_def)
    ultimately show ?thesis using first t(1) by (meson r_into_rtranclp rtranclp.rtrancl_into_rtrancl)
  qed
qed

text \<open>What has still to be done until all is finished, in steps.\<close>

definition child_weight :: "system \<Rightarrow> nat" where
  "child_weight s = 2 * length (concat (map snd (todo s))) + length (todo s) + in_pipes s +
     of_bool (out_open s) + of_bool (err_open s) + of_bool (child_status s = None)"

lemma child_progress:
  assumes "system_ok program s" and "\<not> finished s" and "0 < capacity"
  shows "\<exists>s'. (good_step capacity)\<^sup>*\<^sup>* s s' \<and> child_weight s' < child_weight s"
proof -
  have one: ?thesis if "child_step capacity s s'" "child_weight s' < child_weight s" for s'
    using that r_into_rtranclp [of "good_step capacity" s s'] by (auto simp: good_step_def)
  have blocked: ?thesis if pipes: "0 < in_pipes s"
  proof -
    obtain t where t: "served_step\<^sup>*\<^sup>* s t" "parent t \<in> {Selecting, Waiting, Parent_returned}" "in_pipes t \<le> in_pipes s"
      using finish_turn [of s] by (elim exE conjE)
    have ok: "system_ok program t" using served_steps_ok [OF t(1) assms(1)] .
    obtain u where "served_step\<^sup>*\<^sup>* s u" "in_pipes u < in_pipes s"
    proof (cases "in_pipes t < in_pipes s")
      case False
      with t(3) pipes have full: "0 < in_pipes t" by simp
      then have "parent t = Selecting" using full_not_waiting [OF ok] t(2) by blast
      then obtain u where "served_step\<^sup>*\<^sup>* t u" "in_pipes u < in_pipes t"
        using drain [OF ok _ full] by blast
      with t(1,3) that show thesis by (meson less_le_trans rtranclp_trans)
    qed (use t(1) that in blast)
    then show ?thesis
      using served_steps_keep [of s u] to_good [of s u capacity] by (intro exI [of _ u]) (simp add: child_weight_def)
  qed
  show ?thesis
  proof (cases "todo s")
    case Nil
    consider "child_status s = None" | "out_open s" | "err_open s" using assms(2) by (auto simp: finished_def)
    then show ?thesis
    proof cases
      case 1
      then show ?thesis by (intro one [OF exits [OF Nil, where w = 0]]) (simp_all add: child_weight_def in_pipes_def)
    next
      case 2
      then show ?thesis using Nil by (intro one [OF closes_out]) (simp_all add: child_weight_def in_pipes_def)
    next
      case 3
      then show ?thesis using Nil by (intro one [OF closes_err]) (simp_all add: child_weight_def in_pipes_def)
    qed
  next
    case (Cons p rest)
    obtain st u where p: "p = (st, u)" by fastforce
    show ?thesis
    proof (cases u)
      case Nil
      then show ?thesis using written [of s st rest capacity] Cons p by (intro one) (auto simp: child_weight_def in_pipes_def)
    next
      case u: (Cons x xs)
      show ?thesis
      proof (cases "0 < in_pipes s")
        case False
        then have empty: "out_pipe s = []" "err_pipe s = []" by (simp_all add: in_pipes_def)
        show ?thesis
        proof (cases st)
          case Std_out
          then have "child_step capacity s (s\<lparr>todo := (Std_out, xs) # rest, out_pipe := out_pipe s @ [x]\<rparr>)"
            using Cons p u assms(3) empty by (intro writes_out) simp_all
          then show ?thesis by (rule one) (use Cons p u in \<open>simp add: child_weight_def in_pipes_def\<close>)
        next
          case Std_err
          then have "child_step capacity s (s\<lparr>todo := (Std_err, xs) # rest, err_pipe := err_pipe s @ [x]\<rparr>)"
            using Cons p u assms(3) empty by (intro writes_err) simp_all
          then show ?thesis by (rule one) (use Cons p u in \<open>simp add: child_weight_def in_pipes_def\<close>)
        qed
      qed (rule blocked)
    qed
  qed
qed

lemma child_finishes:
  assumes "system_ok program s" and "0 < capacity"
  shows "\<exists>s'. (good_step capacity)\<^sup>*\<^sup>* s s' \<and> finished s'"
  using assms(1)
proof (induction "child_weight s" arbitrary: s rule: less_induct)
  case less
  show ?case
  proof (cases "finished s")
    case False
    from child_progress [OF less.prems this assms(2)]
    obtain t where t: "(good_step capacity)\<^sup>*\<^sup>* s t" "child_weight t < child_weight s"
      by (elim exE conjE)
    obtain u where "(good_step capacity)\<^sup>*\<^sup>* t u" "finished u"
      using less.hyps [OF t(2) good_steps_ok [OF t(1) less.prems]] by blast
    with t(1) show ?thesis using rtranclp_trans [of "good_step capacity" s t u] by blast
  qed auto
qed

text \<open>The same measure bounds the runs of the parent in which no call fails.\<close>

interpretation served: transition_system "\<lambda>s. finished s \<and> parent s = Selecting" served_step finished_ok weight_of
  using finished.inv_start finished.inv_step finished.weight_step
  by unfold_locales (auto simp: parent_step_def)

lemma parent_returns:
  assumes "finished s"
  shows "\<exists>s'. served_step\<^sup>*\<^sup>* s s' \<and> parent s' = Parent_returned"
proof -
  obtain t where t: "served_step\<^sup>*\<^sup>* s t" "parent t \<in> {Selecting, Waiting, Parent_returned}"
    using finish_turn [of s] by (elim exE conjE)
  have "finished t"
    using served_steps_keep [OF t(1)] assms by (simp add: finished_def)
  then have "finished_ok t" using t(2) by (auto simp: finished_ok_def)
  from served.ends [OF this, of "\<lambda>s. parent s = Parent_returned"]
  obtain u where "served_step\<^sup>*\<^sup>* t u" "parent u = Parent_returned"
    using parent_moves by (auto simp: finished_ok_def)
  with rtranclp_trans [OF t(1)] show ?thesis by blast
qed

lemma returned_finished: "system_ok program s \<Longrightarrow> parent s = Parent_returned \<Longrightarrow> finished s"
  by (auto simp: system_ok_def stream_ok_def finished_def)

text \<open>C27: as long as no \<open>select\<close> or \<open>read\<close> has failed, \<open>linux_exec_process\<close> and its process never block each other:
  from every state they reach, the process can be brought to its exit and the parent to its return. It has
  returned only after the exit of the process and the closing of every write end of the pipes, those included
  which processes of other threads have inherited. Once both have happened, the parent returns by itself,
  whatever portions it reads and whether calls fail or not, after at most four steps for each byte left in the
  pipes and eleven more.\<close>

theorem exec_returns:
  assumes "(exec_step capacity)\<^sup>*\<^sup>* (initial_system program) s" and "0 < capacity"
  shows "(\<not> failed s \<longrightarrow> (\<exists>s'. (exec_step capacity)\<^sup>*\<^sup>* s s' \<and> parent s' = Parent_returned \<and> \<not> failed s')) \<and>
    (\<not> failed s \<longrightarrow> parent s = Parent_returned \<longrightarrow> finished s) \<and>
    (finished s \<longrightarrow> (\<exists>s'. parent_step\<^sup>*\<^sup>* s s' \<and> parent s' = Parent_returned)) \<and>
    (finished s \<longrightarrow> parent s = Selecting \<longrightarrow>
      (\<forall>r n. r 0 = s \<longrightarrow> (\<forall>i < n. parent_step (r i) (r (Suc i))) \<longrightarrow> n \<le> 4 * in_pipes s + 11))"
proof (intro conjI impI allI)
  show "\<exists>s'. (exec_step capacity)\<^sup>*\<^sup>* s s' \<and> parent s' = Parent_returned \<and> \<not> failed s'" if ok: "\<not> failed s"
  proof -
    obtain t where t: "(good_step capacity)\<^sup>*\<^sup>* s t" "finished t"
      using child_finishes [OF reached_ok [OF assms(1) ok] assms(2)] by (elim exE conjE)
    obtain u where u: "served_step\<^sup>*\<^sup>* t u" "parent u = Parent_returned"
      using parent_returns [OF t(2)] by (elim exE conjE)
    note run = rtranclp_trans [OF t(1) to_good [OF u(1)]]
    show ?thesis using to_exec [OF run] good_steps_failed [OF run] ok u(2) by blast
  qed
  show "finished s" if "\<not> failed s" "parent s = Parent_returned"
    using returned_finished [OF reached_ok [OF assms(1)]] that by blast
  show "\<exists>s'. parent_step\<^sup>*\<^sup>* s s' \<and> parent s' = Parent_returned" if "finished s"
    using parent_returns [OF that] to_parent by blast
  fix r and n :: nat
  assume "finished s" "parent s = Selecting" and r: "r 0 = s" "\<forall>i < n. parent_step (r i) (r (Suc i))"
  then have start: "finished_ok (r 0)" by (simp add: finished_ok_def)
  have "weight_of s \<le> 4 * in_pipes s + 11"
    using \<open>parent s = Selecting\<close> by (simp add: weight_of_def in_pipes_def)
  with finished.run_length [OF start r(2)] r(1) show "n \<le> 4 * in_pipes s + 11" by simp
qed

theorem exec_returns_witness:
  "(\<exists>s'. (exec_step 1)\<^sup>*\<^sup>* (initial_system [(Std_out, ''ab''), (Std_err, ''c'')]) s' \<and> parent s' = Parent_returned \<and> \<not> failed s') \<and>
   finished one_byte_end"
  using exec_returns [of 1 "[(Std_out, ''ab''), (Std_err, ''c'')]" "initial_system [(Std_out, ''ab''), (Std_err, ''c'')]"]
    exec_returns [OF one_byte_run] one_byte_end_simps
  by (simp add: failed_def initial_system_def)

text \<open>C31: If \<open>select\<close> fails once, the parent waits for the exit of the process without reading: a process
  that writes one byte more than a pipe holds can then never go on, and neither returns, whatever happens afterwards.\<close>

theorem select_failure_deadlocks:
  "\<exists>s. (exec_step capacity)\<^sup>*\<^sup>* (initial_system [(Std_out, replicate (Suc capacity) c)]) s \<and>
     (\<forall>s'. (exec_step capacity)\<^sup>*\<^sup>* s s' \<longrightarrow> parent s' \<noteq> Parent_returned \<and> child_status s' = None)"
proof -
  let ?s0 = "initial_system [(Std_out, replicate (Suc capacity) c)]"
  let ?s1 = "?s0\<lparr>parent := Waiting, turns := [None]\<rparr>"
  let ?s2 = "?s1\<lparr>todo := [(Std_out, [c])], out_pipe := replicate capacity c\<rparr>"
  define stuck where "stuck \<equiv> \<lambda>s :: system. parent s = Waiting \<and> child_status s = None \<and> todo s = [(Std_out, [c])] \<and> length (out_pipe s) = capacity"
  have "failing_step ?s0 ?s1"
    using select_fails [of ?s0] by (simp add: initial_system_def)
  then have one: "(exec_step capacity)\<^sup>*\<^sup>* ?s0 ?s1"
    by (simp add: exec_step_def parent_step_def r_into_rtranclp)
  have "(exec_step capacity)\<^sup>*\<^sup>* ?s1 ?s2"
  proof (cases "capacity = 0")
    case True
    then have "?s2 = ?s1" by (simp add: initial_system_def)
    then show ?thesis by simp
  next
    case False
    have "replicate (Suc capacity) c = replicate capacity c @ [c]"
      by (simp add: replicate_append_same)
    then have "child_step capacity ?s1 ?s2"
      using False writes_out [of ?s1 "replicate capacity c" "[c]" "[]" capacity] by (simp add: initial_system_def)
    then show ?thesis by (simp add: exec_step_def r_into_rtranclp)
  qed
  moreover have step: "stuck s \<Longrightarrow> exec_step capacity s s' \<Longrightarrow> stuck s'" for s s'
    unfolding stuck_def exec_step_def parent_step_def
    by (elim disjE served_stepE failing_stepE child_stepE) (auto simp: append_eq_Cons_conv)
  have "(exec_step capacity)\<^sup>*\<^sup>* s s' \<Longrightarrow> stuck s \<Longrightarrow> stuck s'" for s s'
    by (erule rtranclp_induct) (blast intro: step)+
  moreover have "stuck ?s2" by (simp add: stuck_def initial_system_def)
  ultimately show ?thesis
    using rtranclp_trans [OF one] by (intro exI [of _ ?s2]) (fastforce simp: stuck_def)
qed

theorem select_failure_deadlocks_witness:
  "\<exists>s. (exec_step 1)\<^sup>*\<^sup>* (initial_system [(Std_out, ''aa'')]) s \<and>
     (\<forall>s'. (exec_step 1)\<^sup>*\<^sup>* s s' \<longrightarrow> parent s' \<noteq> Parent_returned \<and> child_status s' = None)"
  using select_failure_deadlocks [of 1 "CHR ''a''"] by simp

end
