(* ===== verification/Win32Exec.thy ===== *)
theory Win32Exec imports LinuxExec begin

text \<open>
  \<open>win32_exec_process\<close> and \<open>win32_thread_proc\<close> (\<open>code/win32_main.c\<close>). The loop asks each pipe how many bytes
  it holds and reads that many; a stream ends when \<open>PeekNamedPipe\<close> or \<open>ReadFile\<close> fails. Under the
  contract of \<open>ProcessIO\<close> it collects the same bytes as the loop of \<open>LinuxExec\<close>. The threads compare
  and swap the counter of works as on Linux.
\<close>

text \<open>What \<open>PeekNamedPipe\<close> and \<open>ReadFile\<close> answer: the bytes available, and the bytes read, if any.\<close>

datatype win32_read = Peek_failed | Available "32 word" "string option"

fun win32_read_stream :: "win32_read \<Rightarrow> bool \<times> GrowableBuffer \<Rightarrow> (bool \<times> GrowableBuffer) mem" where
  "win32_read_stream answer (going, content) =
     (if going
      then case answer of
        Available byte_available read \<Rightarrow>
          if 0 < byte_available
          then bnd (reserve_growable_buffer content (ucast byte_available)) (\<lambda>content.
               case read of
                 Some bytes \<Rightarrow>
                   bnd (copy_bytes (plus_ptr (buf_memory content) (unat (buf_used content))) bytes) (\<lambda>_.
                   bnd (null_terminate (content\<lparr>buf_used := buf_used content + of_nat (length bytes)\<rparr>)) (\<lambda>content.
                   ret (True, content)))
               | None \<Rightarrow> bnd (null_terminate content) (\<lambda>content. ret (False, content)))
          else ret (True, content)
      | Peek_failed \<Rightarrow> ret (False, content)
      else ret (False, content))"

text \<open>
  The answers of the system to one call. \<open>wk_command\<close> and \<open>wk_work_dir\<close>: whether the conversion to
  UTF-16 succeeds; \<open>wk_command_len\<close>, \<open>wk_work_dir_len\<close> the units it needs; \<open>wk_exit_code\<close> is \<open>None\<close> when
  waiting for the process or asking for its exit code fails.
\<close>

record win32_os =
  wk_command :: bool
  wk_work_dir :: bool
  wk_command_len :: nat
  wk_work_dir_len :: nat
  wk_stdout_pipe :: bool
  wk_stderr_pipe :: bool
  wk_stdout_inherit :: bool
  wk_stderr_inherit :: bool
  wk_creates :: bool
  wk_rounds :: "(win32_read \<times> win32_read) list"
  wk_exit_code :: "32 word option"
  wk_opens :: "string \<Rightarrow> bool"

text \<open>From \<open>CreatePipe\<close> to the last \<open>CloseHandle\<close>; \<open>None\<close> while the loop is running.\<close>

definition win32_run :: "win32_os \<Rightarrow> string option \<Rightarrow> GrowableBuffer \<Rightarrow> GrowableBuffer \<Rightarrow>
    (int \<times> GrowableBuffer \<times> GrowableBuffer \<times> os_call list) option mem" where
  "win32_run os dir stdout_content stderr_content =
     (let stdout_created = wk_stdout_pipe os;
          stderr_created = wk_stderr_pipe os;
          pipes = (if stdout_created then [Os_pipe Std_out] else []) @ (if stderr_created then [Os_pipe Std_err] else []);
          create = [Os_lock_directory, Os_set_directory dir] @ (if wk_creates os then [Os_create_process] else []) @
            [Os_set_directory None, Os_unlock_directory];
          write_ends = [Os_close_write Std_out, Os_close_write Std_err];
          read_ends = [Os_close_read Std_out, Os_close_read Std_err]
      in if stdout_created \<and> stderr_created \<and> wk_stdout_inherit os \<and> wk_stderr_inherit os
         then if wk_creates os
              then bnd (pump_loop win32_read_stream (map Some (wk_rounds os)) (True, stdout_content) (True, stderr_content)) (\<lambda>r.
                   case r of
                     None \<Rightarrow> ret None
                   | Some (stdout_content, stderr_content) \<Rightarrow>
                       let calls = pipes @ create @ write_ends @ [Os_close_process, Os_close_thread] @ read_ends
                       in (case wk_exit_code os of
                             Some win32_exit_code \<Rightarrow>
                               ret (Some (sint win32_exit_code, stdout_content, stderr_content, calls))
                           | None \<Rightarrow>
                               bnd (write_growable_buffer stderr_content ''Unable to obtain exit code'') (\<lambda>stderr_content.
                               ret (Some (- 1, stdout_content, stderr_content, calls)))))
              else bnd (write_growable_buffer stderr_content ''Unable to create process'') (\<lambda>stderr_content.
                   ret (Some (- 1, stdout_content, stderr_content,
                     pipes @ create @ write_ends @ [Os_close_indeterminate, Os_close_indeterminate] @ read_ends)))
         else bnd (write_growable_buffer stderr_content ''Unable to create pipe'') (\<lambda>stderr_content.
              ret (Some (- 1, stdout_content, stderr_content,
                pipes @ (if stdout_created then [Os_close_read Std_out, Os_close_write Std_out] else [])
                      @ (if stderr_created then [Os_close_read Std_err, Os_close_write Std_err] else [])))))"

text \<open>The message when a conversion fails; \<open>string_len\<close> of a null pointer is undefined.\<close>

definition conversion_failed :: "string \<Rightarrow> string option \<Rightarrow> GrowableBuffer \<Rightarrow> GrowableBuffer mem" where
  "conversion_failed command dir stderr_content =
     bnd (write_growable_buffer stderr_content (''MultiByteToWideChar failed'' @ [CHR 0x0A])) (\<lambda>stderr_content.
     bnd (write_growable_buffer stderr_content (take (string_len command) command)) (\<lambda>stderr_content.
     bnd (write_growable_buffer stderr_content [CHR 0x0A]) (\<lambda>stderr_content.
     case dir of
       None \<Rightarrow> (\<lambda>h. Undefined)
     | Some dir \<Rightarrow>
         bnd (write_growable_buffer stderr_content (take (string_len dir) dir)) (\<lambda>stderr_content.
         write_growable_buffer stderr_content [CHR 0x0A]))))"

definition win32_exec_process ::
  "thread_context \<Rightarrow> win32_os \<Rightarrow> nat \<Rightarrow> string \<Rightarrow> string option \<Rightarrow> string option \<Rightarrow> string option \<Rightarrow>
   (int \<times> os_call list) option mem" where
  "win32_exec_process ctx os index command dir out_path err_path =
     bnd allocate_growable_buffer (\<lambda>stdout_content.
     bnd allocate_growable_buffer (\<lambda>stderr_content.
     bnd (allocate_memory 2 (of_nat (wk_command_len os * 2))) (\<lambda>utf16_command.
     bnd (allocate_memory 2 (of_nat (wk_work_dir_len os * 2))) (\<lambda>utf16_work_dir.
     bnd (if wk_command os \<and> wk_work_dir os
          then win32_run os dir stdout_content stderr_content
          else bnd (conversion_failed command dir stderr_content) (\<lambda>stderr_content.
               ret (Some (- 1, stdout_content, stderr_content, [])))) (\<lambda>r.
     case r of
       None \<Rightarrow> ret None
     | Some (status, stdout_content, stderr_content, calls) \<Rightarrow>
         bnd (free_memory utf16_work_dir) (\<lambda>_.
         bnd (free_memory utf16_command) (\<lambda>_.
         bnd (finish_process ctx (wk_opens os) index out_path err_path status stdout_content stderr_content) (\<lambda>rest.
         ret (Some (status, progression_calls ctx index @ calls @ rest))))))))))"

subsection \<open>The contract of reading a stream\<close>

fun win32_bytes :: "win32_read \<Rightarrow> string" where
  "win32_bytes (Available n (Some s)) = (if 0 < n then s else [])"
| "win32_bytes _ = []"

fun win32_goes_on :: "win32_read \<Rightarrow> bool" where
  "win32_goes_on Peek_failed = False"
| "win32_goes_on (Available n read) = (n = 0 \<or> read \<noteq> None)"

fun win32_room :: "win32_read \<Rightarrow> nat" where
  "win32_room (Available n read) = unat n"
| "win32_room Peek_failed = 0"

text \<open>\<open>ReadFile\<close> reads at most the number of bytes it is asked for.\<close>

fun win32_answer_ok :: "win32_read \<Rightarrow> bool" where
  "win32_answer_ok (Available n (Some s)) = (length s \<le> unat n)"
| "win32_answer_ok _ = True"

interpretation win32: stream_reader win32_read_stream win32_bytes win32_goes_on win32_room win32_answer_ok
proof
  fix a :: win32_read and b :: GrowableBuffer and h :: heap and s :: string
  show "win32_read_stream a (False, b) = ret (False, b)" by simp
  show "win32_answer_ok a \<Longrightarrow> length (win32_bytes a) \<le> win32_room a"
    by (cases a rule: win32_answer_ok.cases) auto
  assume a: "win32_answer_ok a" "heap_ok h" "buf_bytes h b s" "length s + win32_room a < 2 ^ 63"
  let ?Q = "\<lambda>(more, b') h'. more = win32_goes_on a \<and> buf_bytes h' b' (s @ win32_bytes a) \<and> buf_step b h b' h'"
  have same: "buf_step b h b h" using a(2) by (simp add: buf_step_def)
  show "runs (win32_read_stream a (True, b)) h ?Q"
  proof (cases a)
    case Peek_failed
    then show ?thesis using a same by simp
  next
    case (Available n read)
    show ?thesis
    proof (cases "0 < n")
      case False
      then have "n = 0" using word_gt_0 [of n] by simp
      then show ?thesis using a same Available by (cases read) auto
    next
      case True
      let ?store = "\<lambda>content. case read of
               Some bytes \<Rightarrow>
                 bnd (copy_bytes (plus_ptr (buf_memory content) (unat (buf_used content))) bytes) (\<lambda>_.
                 bnd (null_terminate (content\<lparr>buf_used := buf_used content + of_nat (length bytes)\<rparr>)) (\<lambda>content.
                 ret (True, content)))
             | None \<Rightarrow> bnd (null_terminate content) (\<lambda>content. ret (False, content))"
      have n0: "n \<noteq> 0" using True by auto
      have n: "unat (ucast n :: 64 word) = unat n" 
        using unsigned_less [of n, where ?'a = nat] by (simp add: unsigned_ucast_eq take_bit_nat_eq_self)
      have "runs (bnd (reserve_growable_buffer b (ucast n)) ?store) h ?Q"
      proof (rule runs_bnd_mono [OF reserve_room [OF a(2,3)]])
        show "length s + unat (ucast n :: 64 word) < 2 ^ 63" using a(4) n Available by simp
      next
        fix c h1
        assume h1: "buf_bytes h1 c s \<and> length s + unat (ucast n :: 64 word) < unat (buf_max c) \<and> buf_step b h c h1"
        show "runs (?store c) h1 ?Q"
        proof (cases read)
          case None
          then show ?thesis
            using terminate_runs [of h1 c s b h False] h1 a(4) Available n0 True by auto
        next
          case (Some bytes)
          then have "length s + length bytes < unat (buf_max c)" "length s + length bytes < 2 ^ 63"
            using a(1,4) h1 n Available by simp_all
          then show ?thesis
            using store_runs [of h1 c s b h bytes True] h1 Available Some n0 True by simp
        qed
      qed
      then show ?thesis using Available True by simp
    qed
  qed
qed

subsection \<open>The same on strings\<close>

definition win32_run_text :: "win32_os \<Rightarrow> string option \<Rightarrow> (int \<times> string \<times> string \<times> os_call list) option" where
  "win32_run_text os dir =
     (let pipes = (if wk_stdout_pipe os then [Os_pipe Std_out] else []) @ (if wk_stderr_pipe os then [Os_pipe Std_err] else []);
          create = [Os_lock_directory, Os_set_directory dir] @ (if wk_creates os then [Os_create_process] else []) @
            [Os_set_directory None, Os_unlock_directory];
          write_ends = [Os_close_write Std_out, Os_close_write Std_err];
          read_ends = [Os_close_read Std_out, Os_close_read Std_err]
      in if wk_stdout_pipe os \<and> wk_stderr_pipe os \<and> wk_stdout_inherit os \<and> wk_stderr_inherit os
         then if wk_creates os
              then (case pump_text win32_bytes win32_goes_on (map Some (wk_rounds os)) (True, []) (True, []) of
                      None \<Rightarrow> None
                    | Some (s, t) \<Rightarrow>
                        Some (case wk_exit_code os of Some c \<Rightarrow> sint c | None \<Rightarrow> - 1, s,
                              t @ (if wk_exit_code os = None then ''Unable to obtain exit code'' else []),
                              pipes @ create @ write_ends @ [Os_close_process, Os_close_thread] @ read_ends))
              else Some (- 1, [], ''Unable to create process'',
                     pipes @ create @ write_ends @ [Os_close_indeterminate, Os_close_indeterminate] @ read_ends)
         else Some (- 1, [], ''Unable to create pipe'',
                pipes @ (if wk_stdout_pipe os then [Os_close_read Std_out, Os_close_write Std_out] else [])
                      @ (if wk_stderr_pipe os then [Os_close_read Std_err, Os_close_write Std_err] else [])))"

definition win32_exec_text ::
  "thread_context \<Rightarrow> win32_os \<Rightarrow> nat \<Rightarrow> string \<Rightarrow> string \<Rightarrow> string option \<Rightarrow> string option \<Rightarrow> (int \<times> os_call list) option" where
  "win32_exec_text ctx os index command dir out_path err_path =
     (case if wk_command os \<and> wk_work_dir os then win32_run_text os (Some dir)
           else Some (- 1, [], ''MultiByteToWideChar failed'' @ [CHR 0x0A] @ cstr command @ [CHR 0x0A] @ cstr dir @ [CHR 0x0A], []) of
        None \<Rightarrow> None
      | Some (status, s, t, calls) \<Rightarrow>
          Some (status, progression_calls ctx index @ calls @
            finish_text ctx (wk_opens os) index out_path err_path status s t))"

definition win32_os_ok :: "win32_os \<Rightarrow> bool" where
  "win32_os_ok os \<longleftrightarrow> list_all (\<lambda>(a, b). win32_answer_ok a \<and> win32_answer_ok b) (wk_rounds os) \<and>
     rounds_room win32_room (map Some (wk_rounds os)) < 2 ^ 62"

lemma win32_run_runs:
  assumes "two_buffers h0 h b c [] []" and "win32_os_ok os"
  shows "runs (win32_run os dir b c) h (run_result h0 (win32_run_text os dir))"
proof (cases "wk_stdout_pipe os \<and> wk_stderr_pipe os \<and> wk_stdout_inherit os \<and> wk_stderr_inherit os \<and> wk_creates os")
  case False
  then show ?thesis
    unfolding win32_run_def win32_run_text_def Let_def
    by (auto intro!: write_right [OF assms(1)] simp: run_result_def)
next
  case True
  let ?calls = "[Os_pipe Std_out, Os_pipe Std_err, Os_lock_directory, Os_set_directory dir, Os_create_process,
      Os_set_directory None, Os_unlock_directory, Os_close_write Std_out, Os_close_write Std_err,
      Os_close_process, Os_close_thread, Os_close_read Std_out, Os_close_read Std_err]"
  let ?rest = "\<lambda>r. case r of
      None \<Rightarrow> ret None
    | Some (b, c) \<Rightarrow>
        (case wk_exit_code os of
           Some status \<Rightarrow> ret (Some (sint status, b, c, ?calls))
         | None \<Rightarrow> bnd (write_growable_buffer c ''Unable to obtain exit code'') (\<lambda>c. ret (Some (- 1, b, c, ?calls))))"
  let ?loop = "pump_loop win32_read_stream (map Some (wk_rounds os)) (True, b) (True, c)"
  have conds: "wk_stdout_pipe os = True" "wk_stderr_pipe os = True" "wk_stdout_inherit os = True"
    "wk_stderr_inherit os = True" "wk_creates os = True" using True by simp_all
  have run: "win32_run os dir b c = bnd ?loop ?rest"
    unfolding win32_run_def Let_def conds if_True append.simps simp_thms ..
  have "rounds_ok win32_answer_ok (map Some (wk_rounds os))"
    using assms(2) by (simp add: win32_os_ok_def list_all_length)
  moreover have "length [] + length [] + rounds_room win32_room (map Some (wk_rounds os)) < 2 ^ 62" "(2 ^ 62 :: nat) \<le> 2 ^ 63"
    using assms(2) by (simp_all add: win32_os_ok_def)
  ultimately have "runs ?loop h (\<lambda>r h'.
    case pump_text win32_bytes win32_goes_on (map Some (wk_rounds os)) (True, []) (True, []) of
      None \<Rightarrow> r = None
    | Some (s', t') \<Rightarrow> (\<exists>b' c'. r = Some (b', c') \<and> two_buffers h0 h' b' c' s' t') \<and> length s' + length t' < 2 ^ 62)"
    by (rule win32.pump_runs [OF assms(1)])
  then have "runs (bnd ?loop ?rest) h (run_result h0 (win32_run_text os dir))"
  proof (rule runs_bnd_mono)
    fix r h'
    assume r: "case pump_text win32_bytes win32_goes_on (map Some (wk_rounds os)) (True, []) (True, []) of
      None \<Rightarrow> r = None
    | Some (s', t') \<Rightarrow> (\<exists>b' c'. r = Some (b', c') \<and> two_buffers h0 h' b' c' s' t') \<and> length s' + length t' < 2 ^ 62"
    show "runs (?rest r) h' (run_result h0 (win32_run_text os dir))"
    proof (cases "pump_text win32_bytes win32_goes_on (map Some (wk_rounds os)) (True, []) (True, [])")
      case None
      then show ?thesis using r True by (simp add: run_result_def win32_run_text_def)
    next
      case (Some st)
      then obtain s t b' c' where spec: "pump_text win32_bytes win32_goes_on (map Some (wk_rounds os)) (True, []) (True, []) = Some (s, t)"
        and b': "r = Some (b', c')" "two_buffers h0 h' b' c' s t" "length s + length t < 2 ^ 62"
        using r by (cases st) auto
      show ?thesis
      proof (cases "wk_exit_code os")
        case None
        then show ?thesis
          using b' True spec by (auto intro!: write_right [OF b'(2)] simp: run_result_def win32_run_text_def)
      next
        case (Some status)
        then show ?thesis
          using b' True spec by (simp add: run_result_def win32_run_text_def)
      qed
    qed
  qed
  then show ?thesis unfolding run .
qed

text \<open>The memory of the two UTF-16 strings lies between the buffers and what comes after.\<close>

lemma buf_bytes_drop: "buf_bytes h b s \<Longrightarrow> k \<noteq> buf_block b \<Longrightarrow> buf_bytes (drop_block k h) b s"
  by (auto simp: buf_bytes_def)

lemma two_buffers_scratch:
  assumes "two_buffers ({}, h) h1 b c s t" and "heap_ok h2" and "frame {} h1 h2"
  shows "two_buffers ({buf_block b, buf_block c}, h2) h2 b c s t"
  using assms buf_bytes_frame [OF _ _ assms(3)] by (auto simp: two_buffers_def)

lemma two_buffers_dropped:
  assumes "two_buffers ({}, h) h1 b c [] []" and "frame {} h1 h2"
    and "two_buffers ({buf_block b, buf_block c}, h2) h3 b' c' s t"
    and "next_block h1 \<le> k1" "k1 < next_block h2" "next_block h1 \<le> k2" "k2 < next_block h2" "k1 \<noteq> k2"
    and "blocks h2 k1 \<noteq> None" "blocks h2 k2 \<noteq> None"
  shows "blocks h3 k1 \<noteq> None" "blocks h3 k2 \<noteq> None"
    "two_buffers ({}, h) (drop_block k1 (drop_block k2 h3)) b' c' s t"
proof -
  have old: "buf_block b < next_block h1" "buf_block c < next_block h1" "next_block h \<le> buf_block b" "next_block h \<le> buf_block c"
    "next_block h \<le> next_block h1"
    using assms(1) buf_block_less by (auto simp: two_buffers_def frame_def)
  then show "blocks h3 k1 \<noteq> None" "blocks h3 k2 \<noteq> None"
    using assms by (auto simp: two_buffers_def frame_def)
  have ne: "k \<noteq> buf_block b'" "k \<noteq> buf_block c'" if "next_block h1 \<le> k" "k < next_block h2" for k
    using assms(3) old that by (auto simp: two_buffers_def)
  have "frame {} h (drop_block k1 (drop_block k2 h3))"
    using assms old unfolding frame_def two_buffers_def by auto
  moreover have "next_block h \<le> buf_block b'" "next_block h \<le> buf_block c'"
    using assms(2,3) old by (auto simp: two_buffers_def frame_def)
  ultimately show "two_buffers ({}, h) (drop_block k1 (drop_block k2 h3)) b' c' s t"
    using assms(3) ne [OF assms(4,5)] ne [OF assms(6,7)]
    by (auto simp: two_buffers_def intro!: heap_ok_drop_block buf_bytes_drop)
qed

lemma conversion_failed_runs:
  assumes "two_buffers h0 h b c [] []" and "length command + length dir < 2 ^ 62"
  shows "runs (bnd (conversion_failed command (Some dir) c) (\<lambda>c. ret (Some (- 1, b, c, [])))) h
    (run_result h0 (Some (- 1, [],
      ''MultiByteToWideChar failed'' @ [CHR 0x0A] @ cstr command @ [CHR 0x0A] @ cstr dir @ [CHR 0x0A], [])))"
proof -
  have texts: "take (string_len s) s = cstr s" for s
    by (simp add: string_len_eq cstr_def takeWhile_eq_take [symmetric])
  have len: "length (cstr command) + length (cstr dir) < 2 ^ 62"
    using assms(2) length_cstr_le [of command] length_cstr_le [of dir] by linarith
  show ?thesis
    unfolding conversion_failed_def bnd_assoc option.case texts
    apply (rule write_right [OF assms(1)], simp)
    apply (erule write_right, use len in simp)
    apply (erule write_right, use len in simp)
    apply (erule write_right, use len in simp)
    apply (erule write_right, use len in simp)
    using len by (simp add: run_result_def)
qed

lemma win32_exec_runs:
  assumes "heap_ok h" and "win32_os_ok os" and "length command + length dir < 2 ^ 62"
  shows "runs (win32_exec_process ctx os index command (Some dir) out_path err_path) h (\<lambda>r h'.
    r = win32_exec_text ctx os index command dir out_path err_path \<and> (r \<noteq> None \<longrightarrow> heap_ok h' \<and> frame {} h h'))"
  unfolding win32_exec_process_def
proof (rule allocate_two [OF assms(1)])
  fix b c h1
  assume two: "two_buffers ({}, h) h1 b c [] []"
  let ?spec = "if wk_command os \<and> wk_work_dir os then win32_run_text os (Some dir)
           else Some (- 1, [], ''MultiByteToWideChar failed'' @ [CHR 0x0A] @ cstr command @ [CHR 0x0A] @ cstr dir @ [CHR 0x0A], [])"
  let ?run = "if wk_command os \<and> wk_work_dir os then win32_run os (Some dir) b c
    else bnd (conversion_failed command (Some dir) c) (\<lambda>c. ret (Some (- 1, b, c, [])))"
  let ?rest = "\<lambda>u1 u2 r. case r of
       None \<Rightarrow> ret None
     | Some (status, b, c, calls) \<Rightarrow>
         bnd (free_memory u2) (\<lambda>_. bnd (free_memory u1) (\<lambda>_.
         bnd (finish_process ctx (wk_opens os) index out_path err_path status b c) (\<lambda>rest.
         ret (Some (status, progression_calls ctx index @ calls @ rest)))))"
  let ?Q = "\<lambda>r h'. r = win32_exec_text ctx os index command dir out_path err_path \<and> (r \<noteq> None \<longrightarrow> heap_ok h' \<and> frame {} h h')"
  show "runs (bnd (allocate_memory 2 (of_nat (wk_command_len os * 2))) (\<lambda>u1.
      bnd (allocate_memory 2 (of_nat (wk_work_dir_len os * 2))) (\<lambda>u2. bnd ?run (?rest u1 u2)))) h1 ?Q"
  proof (rule runs_bnd, rule runs_allocate_memory [OF two_buffersD(1) [OF two]])
    fix h2 :: heap
    let ?k1 = "next_block h1"
    assume h2: "heap_ok h2" "frame {} h1 h2" "blocks h2 ?k1 = Some (replicate (unat (of_nat (wk_command_len os * 2) :: 64 word) div 2) Undef)"
      "?k1 < next_block h2"
    show "runs (bnd (allocate_memory 2 (of_nat (wk_work_dir_len os * 2))) (\<lambda>u2. bnd ?run (?rest (Ptr ?k1 0) u2))) h2 ?Q"
    proof (rule runs_bnd, rule runs_allocate_memory [OF h2(1)])
      fix h3 :: heap
      let ?k2 = "next_block h2"
      assume h3: "heap_ok h3" "frame {} h2 h3" "blocks h3 ?k2 = Some (replicate (unat (of_nat (wk_work_dir_len os * 2) :: 64 word) div 2) Undef)"
        "?k2 < next_block h3"
      have frame: "frame {} h1 h3" using h2(2) h3(2) by (auto simp: frame_def)
      have live: "blocks h3 ?k1 \<noteq> None" "blocks h3 ?k2 \<noteq> None" and k: "?k1 < next_block h3" "?k1 \<le> ?k2" "?k1 \<noteq> ?k2"
        using h2 h3 by (auto simp: frame_def)
      note two3 = two_buffers_scratch [OF two h3(1) frame]
      have "runs ?run h3 (run_result ({buf_block b, buf_block c}, h3) ?spec)"
      proof (cases "wk_command os \<and> wk_work_dir os")
        case True
        then show ?thesis using win32_run_runs [OF two3 assms(2)] by simp
      next
        case False
        then show ?thesis using conversion_failed_runs [OF two3 assms(3)] by auto
      qed
      then show "runs (bnd ?run (?rest (Ptr ?k1 0) (Ptr ?k2 0))) h3 ?Q"
      proof (rule runs_bnd_mono)
        fix r h4
        assume r: "run_result ({buf_block b, buf_block c}, h3) ?spec r h4"
        show "runs (?rest (Ptr ?k1 0) (Ptr ?k2 0) r) h4 ?Q"
        proof (cases ?spec)
          case None
          then show ?thesis using r unfolding win32_exec_text_def by (simp add: run_result_def)
        next
          case (Some res)
          then obtain status s t calls b' c' where spec: "?spec = Some (status, s, t, calls)"
            and b': "r = Some (status, b', c', calls)" "two_buffers ({buf_block b, buf_block c}, h3) h4 b' c' s t"
              "length s < 2 ^ 63" "length t < 2 ^ 63"
            using r by (cases res) (auto simp: run_result_def)
          note dropped = two_buffers_dropped [OF two frame b'(2), of ?k1 ?k2, OF order_refl k(1,2) h3(4) k(3) live]
          have free2: "free_memory (Ptr ?k2 0) h4 = Ok () (drop_block ?k2 h4)"
            and free1: "free_memory (Ptr ?k1 0) (drop_block ?k2 h4) = Ok () (drop_block ?k1 (drop_block ?k2 h4))"
            using dropped(1,2) k(3) by simp_all
          have "runs (bnd (finish_process ctx (wk_opens os) index out_path err_path status b' c') (\<lambda>rest.
              ret (Some (status, progression_calls ctx index @ calls @ rest)))) (drop_block ?k1 (drop_block ?k2 h4)) ?Q"
            unfolding win32_exec_text_def spec option.case prod.case
          proof (rule runs_bnd_mono [OF finish_runs [OF dropped(3) b'(3,4)]])
            fix x h'
            assume "x = finish_text ctx (wk_opens os) index out_path err_path status s t \<and> heap_ok h' \<and>
              frame (fst ({}, h)) (snd ({}, h)) h'"
            then show "runs (ret (Some (status, progression_calls ctx index @ calls @ x))) h'
              (\<lambda>r h'. r = Some (status, progression_calls ctx index @ calls @
                 finish_text ctx (wk_opens os) index out_path err_path status s t) \<and>
                 (r \<noteq> None \<longrightarrow> heap_ok h' \<and> frame {} h h'))"
              by simp
          qed
          then show ?thesis
            unfolding b'(1) option.case prod.case
              runs_after [where m = "free_memory _" and h = h4, OF free2 set_block_rest(4)]
              runs_after [where m = "free_memory _" and h = "drop_block ?k2 h4", OF free1 set_block_rest(4)] .
        qed
      qed
    qed
  qed
qed

subsection \<open>Both platforms\<close>

text \<open>What the rest of the program sees of a call: the callbacks with their lock, and the files.\<close>

fun visible :: "os_call \<Rightarrow> bool" where
  "visible Os_lock = True"
| "visible Os_unlock = True"
| "visible (Os_progression i) = True"
| "visible (Os_completion i c out err) = True"
| "visible (Os_write_file path s) = True"
| "visible _ = False"

lemma visible_rest [simp]:
  "filter visible (progression_calls ctx index) = progression_calls ctx index"
  "filter visible (finish_text ctx opens index out_path err_path status s t) =
     finish_text ctx opens index out_path err_path status s t"
  by (simp_all add: progression_calls_def finish_text_def saved_def split: option.split)

text \<open>C32: When a process delivers the same bytes on each stream and the same exit code, \<open>linux_exec_process\<close> and
  \<open>win32_exec_process\<close> return the same exit code, write the same files and call the callbacks with
  the same arguments, however the two systems cut the streams into portions.\<close>

theorem platforms_agree:
  assumes "heap_ok h" and "linux_kernel_ok los" and "win32_os_ok wos" and "length command + length dir < 2 ^ 62"
    and "lk_stdout_pipe los" and "lk_stderr_pipe los" and "lk_forks los" and "lk_rounds los = map Some rs"
    and "wk_command wos" and "wk_work_dir wos" and "wk_stdout_pipe wos" and "wk_stderr_pipe wos"
    and "wk_stdout_inherit wos" and "wk_stderr_inherit wos" and "wk_creates wos"
    and "stream_ends linux_goes_on (map fst rs)" and "stream_ends linux_goes_on (map snd rs)"
    and "stream_ends win32_goes_on (map fst (wk_rounds wos))" and "stream_ends win32_goes_on (map snd (wk_rounds wos))"
    and "stream_text linux_bytes linux_goes_on (map fst rs) = stream_text win32_bytes win32_goes_on (map fst (wk_rounds wos))"
    and "stream_text linux_bytes linux_goes_on (map snd rs) = stream_text win32_bytes win32_goes_on (map snd (wk_rounds wos))"
    and "exit_status los = map_option sint (wk_exit_code wos)" and "lk_opens los = wk_opens wos"
  shows "\<exists>status calls.
    runs (linux_exec_process ctx los index out_path err_path) h
      (\<lambda>r h'. \<exists>cs. r = Some (status, cs) \<and> filter visible cs = calls) \<and>
    runs (win32_exec_process ctx wos index command (Some dir) out_path err_path) h
      (\<lambda>r h'. \<exists>cs. r = Some (status, cs) \<and> filter visible cs = calls)"
proof -
  let ?s = "stream_text linux_bytes linux_goes_on (map fst rs)" and ?t = "stream_text linux_bytes linux_goes_on (map snd rs)"
  have linux: "pump_text linux_bytes linux_goes_on (lk_rounds los) (True, []) (True, []) = Some (?s, ?t)"
    using pump_text_served [of True linux_goes_on rs True "[]" linux_bytes "[]" "[]"] assms(8,16,17) by simp
  have win32: "pump_text win32_bytes win32_goes_on (map Some (wk_rounds wos)) (True, []) (True, []) = Some (?s, ?t)"
    using pump_text_served [of True win32_goes_on "wk_rounds wos" True "[]" win32_bytes "[]" "[]"] assms(18-21) by simp
  let ?status = "case exit_status los of Some status \<Rightarrow> status | None \<Rightarrow> - 1"
  let ?calls = "progression_calls ctx index @ finish_text ctx (lk_opens los) index out_path err_path ?status
     ?s (?t @ (if exit_status los = None then ''Unable to obtain exit code'' else []))"
  have "runs (linux_exec_process ctx los index out_path err_path) h
      (\<lambda>r h'. \<exists>cs. r = Some (?status, cs) \<and> filter visible cs = ?calls)"
    using assms(5-7) linux
    by (intro runs_mono [OF linux_exec_runs [OF assms(1,2)]]) (auto simp: linux_exec_text_def linux_run_text_def)
  moreover have "runs (win32_exec_process ctx wos index command (Some dir) out_path err_path) h
      (\<lambda>r h'. \<exists>cs. r = Some (?status, cs) \<and> filter visible cs = ?calls)"
    using assms(9-15,22,23) win32
    by (intro runs_mono [OF win32_exec_runs [OF assms(1,3,4)]])
      (cases "wk_exit_code wos"; auto simp: win32_exec_text_def win32_run_text_def)
  ultimately show ?thesis by blast
qed

text \<open>The process of \<open>sample_rounds\<close> on Windows.\<close>

definition win32_sample :: win32_os where
  "win32_sample = \<lparr>wk_command = True, wk_work_dir = True, wk_command_len = 5, wk_work_dir_len = 2,
     wk_stdout_pipe = True, wk_stderr_pipe = True, wk_stdout_inherit = True, wk_stderr_inherit = True,
     wk_creates = True,
     wk_rounds = [(Available 6 (Some ''onetwo''), Available 0 None), (Peek_failed, Available 4 (Some ''warn'')),
       (Peek_failed, Peek_failed)],
     wk_exit_code = Some 3, wk_opens = \<lambda>path. path = ''out.txt''\<rparr>"

theorem platforms_agree_witness:
  "\<exists>status calls.
    runs (linux_exec_process \<lparr>work_count = 1, has_progression = True, has_completion = True\<rparr> sample_os 0 (Some ''out.txt'') None)
      empty_heap (\<lambda>r h'. \<exists>cs. r = Some (status, cs) \<and> filter visible cs = calls) \<and>
    runs (win32_exec_process \<lparr>work_count = 1, has_progression = True, has_completion = True\<rparr> win32_sample 0 ''make''
        (Some ''a'') (Some ''out.txt'') None)
      empty_heap (\<lambda>r h'. \<exists>cs. r = Some (status, cs) \<and> filter visible cs = calls)"
proof (rule platforms_agree [OF empty_heap_ok sample_os_ok])
  show "lk_rounds sample_os = map Some sample_rounds" by (simp add: sample_os_def)
  show "exit_status sample_os = map_option sint (wk_exit_code win32_sample)"
    by (simp add: sample_status win32_sample_def)
qed (simp_all add: sample_os_def win32_sample_def sample_rounds_def win32_os_ok_def rounds_room_def stream_ends_def)

text \<open>\<open>win32_exec_process\<close> closes both ends of every pipe it has made, each once, whatever fails; but when
  \<open>CreateProcessW\<close> fails, and only then, it closes process handles that were never set.\<close>

lemma win32_exec_handles:
  assumes "heap_ok h" and "win32_os_ok os" and "length command + length dir < 2 ^ 62"
    and "win32_exec_process ctx os index command (Some dir) out_path err_path h = Ok (Some (status, calls)) h'"
  shows "open_ends calls {} = Some {} \<and>
    (Os_close_indeterminate \<in> set calls \<longleftrightarrow> wk_command os \<and> wk_work_dir os \<and> wk_stdout_pipe os \<and> wk_stderr_pipe os \<and>
      wk_stdout_inherit os \<and> wk_stderr_inherit os \<and> \<not> wk_creates os)"
proof -
  have "Some (status, calls) = win32_exec_text ctx os index command dir out_path err_path"
    using win32_exec_runs [OF assms(1-3), of "ctx" index out_path err_path] assms(4) by (simp add: runs_def)
  moreover have "Os_close_indeterminate \<notin> set (progression_calls ctx index)"
    "Os_close_indeterminate \<notin> set (finish_text ctx opens index out_path err_path status s t)" for opens s t
    by (auto simp: progression_calls_def finish_text_def saved_def split: option.split)
  ultimately show ?thesis
    by (auto simp: win32_exec_text_def win32_run_text_def open_ends_append Let_def split: option.splits if_splits)
qed

subsection \<open>Threads\<close>

text \<open>\<open>InterlockedCompareExchange\<close>: the value before, and the value after.\<close>

definition compare_exchange :: "int \<Rightarrow> int \<Rightarrow> int \<Rightarrow> int \<times> int" where
  "compare_exchange destination exchange comparand =
     (destination, if destination = comparand then exchange else destination)"

text \<open>A step of \<open>win32_thread_proc\<close>: as \<open>thread_step\<close> but for the exchange.\<close>

definition win32_thread_step ::
  "thread_context \<Rightarrow> nat \<Rightarrow> int \<Rightarrow> string \<Rightarrow> queue \<Rightarrow> thread \<Rightarrow> (queue \<times> thread) option" where
  "win32_thread_step ctx t c out q th =
     (case th of
        Compare n \<Rightarrow>
          if n = work_count ctx then Some (q, Returned)
          else (case compare_exchange (next_to_work q) (n + 1) n of
                  (old, new) \<Rightarrow>
                    Some (q\<lparr>next_to_work := new\<rparr>,
                      if old = n then if has_progression ctx then Lock_progression (nat n) else Process (nat n) else Load))
      | _ \<Rightarrow> thread_step ctx t c out q th)"

lemma win32_thread_step_eq: "win32_thread_step ctx t c out q th = thread_step ctx t c out q th"
  by (cases th) (auto simp: win32_thread_step_def compare_exchange_def)

text \<open>
  \<open>win32_wait_for_completion\<close>: \<open>CreateMutexA\<close> and \<open>CreateThread\<close> may fail, and the threads whose handle is not
  NULL are waited for one after the other.
\<close>

inductive win32_pool_step :: "thread_context \<Rightarrow> pool \<Rightarrow> pool \<Rightarrow> bool" for ctx where
  no_mutex: "main p = Start \<Longrightarrow> win32_pool_step ctx p (p\<lparr>main := Main_returned\<rparr>)"
| mutex_created: "main p = Start \<Longrightarrow> win32_pool_step ctx p (p\<lparr>main := Creating 0\<rparr>)"
| creates_thread: "main p = Creating i \<Longrightarrow> i < length (pool_threads p) \<Longrightarrow>
    handle = Load \<or> handle = Not_valid \<Longrightarrow>
    win32_pool_step ctx p (p\<lparr>main := Creating (Suc i), pool_threads := (pool_threads p)[i := handle]\<rparr>)"
| loop_done: "main p = Creating (length (pool_threads p)) \<Longrightarrow> win32_pool_step ctx p (p\<lparr>main := Joining 0\<rparr>)"
| no_handle: "main p = Joining i \<Longrightarrow> i < length (pool_threads p) \<Longrightarrow> pool_threads p ! i = Not_valid \<Longrightarrow>
    win32_pool_step ctx p (p\<lparr>main := Joining (Suc i)\<rparr>)"
| waited_for: "main p = Joining i \<Longrightarrow> i < length (pool_threads p) \<Longrightarrow> pool_threads p ! i = Returned \<Longrightarrow>
    win32_pool_step ctx p (p\<lparr>main := Joining (Suc i)\<rparr>)"
| all_waited_for: "main p = Joining (length (pool_threads p)) \<Longrightarrow> win32_pool_step ctx p (p\<lparr>main := Main_returned\<rparr>)"
| runs_thread: "t < length (pool_threads p) \<Longrightarrow> process_result c \<Longrightarrow>
    win32_thread_step ctx t c out (queue p) (pool_threads p ! t) = Some (q, th) \<Longrightarrow>
    win32_pool_step ctx p (p\<lparr>pool_threads := (pool_threads p)[t := th], queue := q\<rparr>)"

text \<open>Hence what holds of the threads on Linux, that every work is run once and that every run ends, holds on
  Windows.\<close>

lemma win32_pool_step_eq: "win32_pool_step ctx = pool_step ctx"
proof (intro ext iffI)
  fix p p'
  show "win32_pool_step ctx p p' \<Longrightarrow> pool_step ctx p p'"
  proof (induction rule: win32_pool_step.induct)
    case (creates_thread p i handle)
    then show ?case using thread_created [of p i ctx] thread_failed [of p i ctx] by blast
  next
    case (no_handle p i)
    then show ?case by (intro joined) simp_all
  next
    case (waited_for p i)
    then show ?case by (intro joined) simp_all
  qed (simp_all add: lock_failed lock_created all_created all_joined thread_runs win32_thread_step_eq)
  show "pool_step ctx p p' \<Longrightarrow> win32_pool_step ctx p p'"
  proof (induction rule: pool_step.induct)
    case (joined p i)
    then show ?case using no_handle [of p i ctx] waited_for [of p i ctx] by blast
  qed (simp_all add: no_mutex mutex_created creates_thread loop_done all_waited_for runs_thread win32_thread_step_eq)
qed

end
