(* ===== verification/LinuxFs.thy ===== *)
theory LinuxFs imports CStrings "HOL-Library.AList" begin

text \<open>
  The directory functions of the Linux platform (\<open>code/linux_main.c\<close>) over a POSIX file system.

  A path is the list of its names, absolute; the file system is the list of its entries. A path is
  resolved name by name, a symbolic link on the way is replaced by its target, at most 40 times.
  \<open>stat\<close>, \<open>opendir\<close> and \<open>fopen\<close> follow a link at the end of the path, \<open>unlink\<close>, \<open>rmdir\<close> and \<open>mkdir\<close> do
  not. There are no permissions and no other failures of the hardware. \<open>readdir\<close> gives the names
  the directory has when it is opened, with \<open>.\<close> and \<open>..\<close>.

  The recursion of the code is on the depth of the directories, which links can make endless: the
  functions have fuel, \<open>None\<close> is out of it.
\<close>

type_synonym path = "string list"

datatype entry = Regular string | Dir | Link path

type_synonym fs = "(path \<times> entry) list"

subsection \<open>The calls of the C library\<close>

function resolve :: "nat \<Rightarrow> fs \<Rightarrow> path \<Rightarrow> path \<Rightarrow> path option" where
  "resolve links fs at [] = Some at"
| "resolve links fs at (n # rest) =
     (case map_of fs (at @ [n]) of
        None \<Rightarrow> None
      | Some Dir \<Rightarrow> resolve links fs (at @ [n]) rest
      | Some (Regular s) \<Rightarrow> if rest = [] then Some (at @ [n]) else None
      | Some (Link target) \<Rightarrow> if links = 0 then None else resolve (links - 1) fs [] (target @ rest))"
  by pat_completeness auto
termination by (relation "measures [\<lambda>(links, fs, at, rest). links, \<lambda>(links, fs, at, rest). length rest]") auto

definition max_links :: nat where "max_links = 40"

definition stat :: "fs \<Rightarrow> path \<Rightarrow> entry option" where
  "stat fs path = Option.bind (resolve max_links fs [] path) (map_of fs)"

text \<open>The place of the last name of a path, whether there is an entry or not.\<close>

definition locate :: "fs \<Rightarrow> path \<Rightarrow> path option" where
  "locate fs path =
     (if path \<noteq> [] \<and> stat fs (butlast path) = Some Dir
      then map_option (\<lambda>dir. dir @ [last path]) (resolve max_links fs [] (butlast path)) else None)"

definition names_in :: "fs \<Rightarrow> path \<Rightarrow> string list" where
  "names_in fs dir = [last p. (p, x) \<leftarrow> fs, p \<noteq> [] \<and> butlast p = dir]"

definition opendir :: "fs \<Rightarrow> path \<Rightarrow> string list option" where
  "opendir fs path =
     (case resolve max_links fs [] path of
        Some dir \<Rightarrow> if map_of fs dir = Some Dir then Some ([''.'', ''..''] @ names_in fs dir) else None
      | None \<Rightarrow> None)"

definition unlink :: "fs \<Rightarrow> path \<Rightarrow> fs option" where
  "unlink fs path =
     (case locate fs path of
        None \<Rightarrow> None
      | Some p \<Rightarrow> if map_of fs p \<notin> {None, Some Dir} then Some (AList.delete p fs) else None)"

definition rmdir :: "fs \<Rightarrow> path \<Rightarrow> fs option" where
  "rmdir fs path =
     (case locate fs path of
        None \<Rightarrow> None
      | Some p \<Rightarrow> if map_of fs p = Some Dir \<and> names_in fs p = [] then Some (AList.delete p fs) else None)"

definition mkdir :: "fs \<Rightarrow> path \<Rightarrow> fs option" where
  "mkdir fs path =
     (case locate fs path of
        None \<Rightarrow> None
      | Some p \<Rightarrow> if map_of fs p = None then Some ((p, Dir) # fs) else None)"

text \<open>\<open>rename\<close> moves an entry with what is in it; a directory only replaces an empty directory.\<close>

definition moved :: "path \<Rightarrow> path \<Rightarrow> fs \<Rightarrow> fs" where
  "moved source target fs =
     map (\<lambda>(p, x). (if prefix source p then target @ drop (length source) p else p, x)) (AList.delete target fs)"

definition rename :: "fs \<Rightarrow> path \<Rightarrow> path \<Rightarrow> fs option" where
  "rename fs source target =
     (case (locate fs source, locate fs target) of
        (Some s, Some t) \<Rightarrow>
          (case map_of fs s of
             None \<Rightarrow> None
           | Some x \<Rightarrow>
               if s = t then Some fs
               else if prefix s t then None
               else case map_of fs t of
                 None \<Rightarrow> Some (moved s t fs)
               | Some y \<Rightarrow>
                   if (x = Dir) = (y = Dir) \<and> names_in fs t = [] then Some (moved s t fs) else None)
      | _ \<Rightarrow> None)"

text \<open>\<open>fopen\<close> for reading gives the place of the file, for writing the file system with the file
  empty; a link to nothing is not opened.\<close>

definition fopen_rb :: "fs \<Rightarrow> path \<Rightarrow> path option" where
  "fopen_rb fs path =
     (case resolve max_links fs [] path of
        Some p \<Rightarrow> (case map_of fs p of Some (Regular s) \<Rightarrow> Some p | _ \<Rightarrow> None)
      | None \<Rightarrow> None)"

definition fopen_wb :: "fs \<Rightarrow> path \<Rightarrow> (path \<times> fs) option" where
  "fopen_wb fs path =
     (case fopen_rb fs path of
        Some p \<Rightarrow> Some (p, AList.update p (Regular []) fs)
      | None \<Rightarrow>
          (case locate fs path of
             Some p \<Rightarrow> if map_of fs p = None then Some (p, AList.update p (Regular []) fs) else None
           | None \<Rightarrow> None))"

subsection \<open>The functions of the platform\<close>

definition linux_directory_exists :: "fs \<Rightarrow> path \<Rightarrow> bool" where
  "linux_directory_exists fs path \<longleftrightarrow> stat fs path = Some Dir"

definition linux_rename_directory :: "fs \<Rightarrow> path \<Rightarrow> path \<Rightarrow> bool \<times> fs" where
  "linux_rename_directory fs target source =
     (case rename fs source target of Some fs' \<Rightarrow> (True, fs') | None \<Rightarrow> (False, fs))"

definition linux_delete_file :: "fs \<Rightarrow> path \<Rightarrow> bool \<times> fs" where
  "linux_delete_file fs path = (case unlink fs path of Some fs' \<Rightarrow> (True, fs') | None \<Rightarrow> (False, fs))"

definition linux_create_directory :: "fs \<Rightarrow> path \<Rightarrow> bool \<times> fs" where
  "linux_create_directory fs path = (case mkdir fs path of Some fs' \<Rightarrow> (True, fs') | None \<Rightarrow> (False, fs))"

text \<open>Both files are opened before either is looked at, so the target is emptied in any case; an
  empty file counts as a failure.\<close>

definition linux_copy_file :: "fs \<Rightarrow> path \<Rightarrow> path \<Rightarrow> bool \<times> fs" where
  "linux_copy_file fs target source =
     (let source_file = fopen_rb fs source; target_file = fopen_wb fs target in
      case target_file of
        None \<Rightarrow> (False, fs)
      | Some (t, fs) \<Rightarrow>
          (case source_file of
             None \<Rightarrow> (False, fs)
           | Some s \<Rightarrow>
               (case map_of fs s of
                  Some (Regular content) \<Rightarrow>
                    if content = [] then (False, fs) else (True, AList.update t (Regular content) fs)
                | _ \<Rightarrow> (False, fs))))"

function (sequential) linux_delete_directory :: "nat \<Rightarrow> path \<Rightarrow> fs \<Rightarrow> (bool \<times> fs) option"
  and delete_children :: "nat \<Rightarrow> path \<Rightarrow> string list \<Rightarrow> bool \<times> fs \<Rightarrow> (bool \<times> fs) option" where
  "linux_delete_directory 0 dir fs = None"
| "linux_delete_directory (Suc fuel) dir fs =
     (case opendir fs dir of
        None \<Rightarrow> Some (False, fs)
      | Some names \<Rightarrow>
          (case delete_children fuel dir names (True, fs) of
             None \<Rightarrow> None
           | Some (ok, fs) \<Rightarrow> Some (ok, case rmdir fs dir of Some fs' \<Rightarrow> fs' | None \<Rightarrow> fs)))"
| "delete_children fuel dir [] st = Some st"
| "delete_children fuel dir (name # names) (ok, fs) =
     (if compare_string name ''.'' \<or> compare_string name ''..'' then delete_children fuel dir names (ok, fs)
      else case stat fs (dir @ [name]) of
        None \<Rightarrow> delete_children fuel dir names (False, fs)
      | Some Dir \<Rightarrow>
          (case linux_delete_directory fuel (dir @ [name]) fs of
             None \<Rightarrow> None
           | Some (deleted, fs) \<Rightarrow> delete_children fuel dir names (ok \<and> deleted, fs))
      | Some _ \<Rightarrow>
          (case unlink fs (dir @ [name]) of
             Some fs' \<Rightarrow> delete_children fuel dir names (ok, fs')
           | None \<Rightarrow> delete_children fuel dir names (False, fs)))"
  by pat_completeness auto
termination
  by (relation "measures [\<lambda>x. case x of Inl (fuel, _) \<Rightarrow> fuel | Inr (fuel, _) \<Rightarrow> fuel,
      \<lambda>x. case x of Inl _ \<Rightarrow> 0 | Inr (_, _, names, _) \<Rightarrow> Suc (length names)]") auto

function (sequential) linux_copy_directory :: "nat \<Rightarrow> path \<Rightarrow> path \<Rightarrow> fs \<Rightarrow> (bool \<times> fs) option"
  and copy_children :: "nat \<Rightarrow> path \<Rightarrow> path \<Rightarrow> string list \<Rightarrow> bool \<times> fs \<Rightarrow> (bool \<times> fs) option" where
  "linux_copy_directory 0 target source fs = None"
| "linux_copy_directory (Suc fuel) target source fs =
     (case mkdir fs target of
        None \<Rightarrow> Some (False, fs)
      | Some fs \<Rightarrow>
          (case opendir fs source of
             None \<Rightarrow> Some (False, fs)
           | Some names \<Rightarrow> copy_children fuel target source names (True, fs)))"
| "copy_children fuel target source [] st = Some st"
| "copy_children fuel target source (name # names) (ok, fs) =
     (if compare_string name ''.'' \<or> compare_string name ''..'' then copy_children fuel target source names (ok, fs)
      else case stat fs (source @ [name]) of
        None \<Rightarrow> copy_children fuel target source names (False, fs)
      | Some Dir \<Rightarrow>
          (case linux_copy_directory fuel (target @ [name]) (source @ [name]) fs of
             None \<Rightarrow> None
           | Some (copied, fs) \<Rightarrow> copy_children fuel target source names (ok \<and> copied, fs))
      | Some _ \<Rightarrow>
          copy_children fuel target source names (ok, snd (linux_copy_file fs (target @ [name]) (source @ [name]))))"
  by pat_completeness auto
termination
  by (relation "measures [\<lambda>x. case x of Inl (fuel, _) \<Rightarrow> fuel | Inr (fuel, _) \<Rightarrow> fuel,
      \<lambda>x. case x of Inl _ \<Rightarrow> 0 | Inr (_, _, _, names, _) \<Rightarrow> Suc (length names)]") auto

end
