(* ===== verification/LinuxFsSpec.thy ===== *)
theory LinuxFsSpec imports LinuxFs begin

text \<open>
  What the directory functions do: \<open>linux_delete_directory\<close> removes exactly a subtree without links,
  \<open>linux_copy_directory\<close> makes an exact copy of one, and what symbolic links make of both.
\<close>

subsection \<open>Well-formed file systems\<close>

definition name_ok :: "string \<Rightarrow> bool" where
  "name_ok n \<longleftrightarrow> n \<noteq> [] \<and> NUL \<notin> set n \<and> n \<noteq> ''.'' \<and> n \<noteq> ''..''"

definition well_formed :: "fs \<Rightarrow> bool" where
  "well_formed fs \<longleftrightarrow> distinct (map fst fs) \<and> map_of fs [] = Some Dir \<and>
     (\<forall>(p, x) \<in> set fs. p \<noteq> [] \<longrightarrow> map_of fs (butlast p) = Some Dir \<and> name_ok (last p))"

fun is_link :: "entry \<Rightarrow> bool" where
  "is_link (Link target) = True"
| "is_link _ = False"

text \<open>No link on the way to a path or beneath it.\<close>

definition no_links :: "fs \<Rightarrow> path \<Rightarrow> bool" where
  "no_links fs path \<longleftrightarrow> (\<forall>(p, x) \<in> set fs. prefix p path \<or> prefix path p \<longrightarrow> \<not> is_link x)"

lemma name_ok_dots: "name_ok n \<Longrightarrow> \<not> compare_string n ''.'' \<and> \<not> compare_string n ''..''"
  by (simp add: name_ok_def compare_string_eq cstr_id)

lemma well_formed_parent:
  "well_formed fs \<Longrightarrow> map_of fs (p @ [n]) = Some x \<Longrightarrow> map_of fs p = Some Dir \<and> name_ok n"
  by (force simp: well_formed_def dest: map_of_SomeD)

lemma well_formed_ancestor:
  "well_formed fs \<Longrightarrow> map_of fs (p @ q) = Some x \<Longrightarrow> q \<noteq> [] \<Longrightarrow> map_of fs p = Some Dir"
proof (induction q arbitrary: x rule: rev_induct)
  case (snoc n q)
  then have "map_of fs (p @ q) = Some Dir"
    using well_formed_parent [of fs "p @ q" n] by simp
  then show ?case using snoc by (cases "q = []") auto
qed simp

lemma no_linksD:
  "no_links fs path \<Longrightarrow> map_of fs p = Some x \<Longrightarrow> prefix p path \<or> prefix path p \<Longrightarrow> \<not> is_link x"
  by (fastforce simp: no_links_def dest: map_of_SomeD)

lemma no_links_deeper: "no_links fs path \<Longrightarrow> prefix path q \<Longrightarrow> no_links fs q"
  unfolding no_links_def by (smt (verit, best) case_prodI2 case_prod_conv prefix_order.trans prefix_same_cases)

lemma resolve_plain:
  assumes "well_formed fs" and "no_links fs path"
  shows "at @ rest = p \<Longrightarrow> prefix p path \<or> prefix path p \<Longrightarrow> map_of fs p = Some x \<Longrightarrow>
    resolve links fs at rest = Some p"
proof (induction rest arbitrary: at)
  case (Cons n rest)
  obtain y where y: "map_of fs (at @ [n]) = Some y" "rest \<noteq> [] \<Longrightarrow> y = Dir"
    using Cons.prems well_formed_ancestor [OF assms(1), of "at @ [n]" rest x] by (cases "rest = []") auto
  have "prefix (at @ [n]) path \<or> prefix path (at @ [n])"
    using Cons.prems(1,2) by (metis append_Cons append_Nil append_assoc prefixI prefix_order.trans prefix_same_cases)
  then have "\<not> is_link y" using no_linksD [OF assms(2) y(1)] by blast
  then show ?case
    using Cons.IH [of "at @ [n]"] Cons.prems y by (cases y) auto
qed simp

lemma stat_plain:
  assumes "well_formed fs" and "no_links fs path" and "prefix p path \<or> prefix path p" and "map_of fs p = Some x"
  shows "resolve links fs [] p = Some p" and "stat fs p = Some x"
  using resolve_plain [OF assms(1,2), of "[]" p p x] assms(3,4) by (simp_all add: stat_def)

lemma locate_plain:
  assumes "well_formed fs" and "no_links fs path" and "prefix (p @ [n]) path \<or> prefix path (p @ [n])"
    and "map_of fs p = Some Dir"
  shows "locate fs (p @ [n]) = Some (p @ [n])"
proof -
  have "prefix p path \<or> prefix path p"
    using assms(3) by (metis append_prefixD prefix_snoc)
  from stat_plain [OF assms(1,2) this assms(4)] show ?thesis by (simp add: locate_def)
qed

lemma names_in_iff:
  assumes "well_formed fs"
  shows "n \<in> set (names_in fs dir) \<longleftrightarrow> map_of fs (dir @ [n]) \<noteq> None"
proof
  assume "n \<in> set (names_in fs dir)"
  then obtain p x where "(p, x) \<in> set fs" "p \<noteq> []" "butlast p = dir" "n = last p"
    by (auto simp: names_in_def)
  then have "(dir @ [n], x) \<in> set fs" by (metis append_butlast_last_id)
  then show "map_of fs (dir @ [n]) \<noteq> None" by (metis map_of_eq_None_iff fst_conv image_eqI)
next
  assume "map_of fs (dir @ [n]) \<noteq> None"
  then obtain x where "(dir @ [n], x) \<in> set fs" by (auto dest: map_of_SomeD)
  then show "n \<in> set (names_in fs dir)" by (force simp: names_in_def)
qed

lemma distinct_names_in:
  assumes "well_formed fs"
  shows "distinct (names_in fs dir)"
proof -
  have "distinct (map fst fs) \<Longrightarrow> distinct [last p. (p, x) \<leftarrow> fs, p \<noteq> [] \<and> butlast p = dir]" for fs :: fs
  proof (induction fs)
    case (Cons e fs)
    obtain p x where e: "e = (p, x)" by force
    have "last p \<notin> set [last p. (p, x) \<leftarrow> fs, p \<noteq> [] \<and> butlast p = dir]" if "p \<noteq> []" "butlast p = dir"
    proof
      assume "last p \<in> set [last p. (p, x) \<leftarrow> fs, p \<noteq> [] \<and> butlast p = dir]"
      then obtain q y where "(q, y) \<in> set fs" "q \<noteq> []" "butlast q = dir" "last q = last p" by auto
      then have "(p, y) \<in> set fs" using that by (metis append_butlast_last_id)
      then show False using Cons.prems e by force
    qed
    then show ?case using Cons e by auto
  qed simp
  then show ?thesis using assms by (simp add: names_in_def well_formed_def)
qed

subsection \<open>Deleting\<close>

definition without :: "path list \<Rightarrow> fs \<Rightarrow> fs" where
  "without ps fs = filter (\<lambda>(p, x). \<not> (\<exists>q \<in> set ps. prefix q p)) fs"

lemma map_of_without: "map_of (without ps fs) p = (if \<exists>q \<in> set ps. prefix q p then None else map_of fs p)"
  by (induction fs) (auto simp: without_def)

lemma without_without: "without qs (without ps fs) = without (ps @ qs) fs"
  by (auto simp: without_def intro: filter_cong)

lemma set_without: "(p, x) \<in> set (without ps fs) \<longleftrightarrow> (p, x) \<in> set fs \<and> \<not> (\<exists>q \<in> set ps. prefix q p)"
  by (auto simp: without_def)

lemma well_formed_without:
  assumes "well_formed fs" and "[] \<notin> set ps"
  shows "well_formed (without ps fs)"
proof -
  have "distinct (map fst (without ps fs))"
    using assms(1) by (simp add: well_formed_def without_def distinct_map_filter)
  moreover have "map_of (without ps fs) (butlast p) = Some Dir \<and> name_ok (last p)"
    if "(p, x) \<in> set (without ps fs)" "p \<noteq> []" for p x
  proof -
    have "map_of fs (butlast p) = Some Dir" "name_ok (last p)"
      using that assms(1) by (auto simp: well_formed_def set_without)
    moreover have "\<not> (\<exists>q \<in> set ps. prefix q (butlast p))"
      using that by (auto simp: set_without dest: prefix_order.trans [OF _ prefixeq_butlast])
    ultimately show ?thesis by (simp add: map_of_without)
  qed
  ultimately show ?thesis
    using assms by (auto simp: well_formed_def map_of_without)
qed

lemma no_links_without: "no_links fs path \<Longrightarrow> no_links (without ps fs) path"
  by (auto simp: no_links_def set_without)

lemma delete_without:
  assumes "well_formed fs" and "\<And>n. map_of fs (p @ [n]) = None"
  shows "AList.delete p fs = without [p] fs"
proof -
  have "q = p" if "(q, x) \<in> set fs" "prefix p q" for q x
  proof -
    obtain r where r: "q = p @ r" using \<open>prefix p q\<close> by (auto simp: prefix_def)
    have "map_of fs q \<noteq> None" using weak_map_of_SomeI [OF that(1)] by auto
    then show "q = p"
      using r well_formed_ancestor [OF assms(1), of "p @ [hd r]" "tl r"] assms(2) [of "hd r"]
      by (cases r; cases "tl r = []") auto
  qed
  then show ?thesis
    unfolding without_def AList.delete_eq by (intro filter_cong) (auto split: prod.splits)
qed

lemma stat_unlink_plain:
  assumes "well_formed fs" and "no_links fs dir" and "map_of fs dir = Some Dir" and "map_of fs (dir @ [n]) = Some x"
    and "x \<noteq> Dir"
  shows "unlink fs (dir @ [n]) = Some (without [dir @ [n]] fs)"
proof -
  have "map_of fs ((dir @ [n]) @ [m]) = None" for m
    using well_formed_parent [OF assms(1), of "dir @ [n]" m] assms(4,5) by (cases "map_of fs ((dir @ [n]) @ [m])") auto
  then show ?thesis
    using locate_plain [OF assms(1,2) _ assms(3), of n] assms(4,5) delete_without [OF assms(1), of "dir @ [n]"]
    by (simp add: unlink_def)
qed

lemma rmdir_plain:
  assumes "well_formed fs" and "no_links fs dir" and "map_of fs dir = Some Dir" and "dir \<noteq> []"
    and "names_in fs dir = []"
  shows "rmdir fs dir = Some (without [dir] fs)"
proof -
  obtain p n where dir: "dir = p @ [n]" using assms(4) by (metis rev_exhaust)
  have "map_of fs p = Some Dir" using well_formed_parent [OF assms(1)] assms(3) dir by blast
  moreover have "map_of fs (dir @ [m]) = None" for m
    using names_in_iff [OF assms(1), of m dir] assms(5) by simp
  ultimately show ?thesis
    using locate_plain [OF assms(1,2), of p n] assms(3,5) delete_without [OF assms(1), of dir] dir
    by (simp add: rmdir_def)
qed

text \<open>The children of a directory, given the result for each of them that is a directory.\<close>

lemma delete_children_plain:
  assumes "well_formed fs" and "no_links fs dir" and "map_of fs dir = Some Dir"
    and "\<forall>n \<in> set ns. map_of fs (dir @ [n]) \<noteq> None" and "distinct ns"
    and dirs: "\<And>fs n. \<lbrakk>well_formed fs; no_links fs (dir @ [n]); map_of fs (dir @ [n]) = Some Dir;
      \<forall>(p, x) \<in> set fs. prefix (dir @ [n]) p \<longrightarrow> length p < depth\<rbrakk> \<Longrightarrow>
      linux_delete_directory fuel (dir @ [n]) fs = Some (True, without [dir @ [n]] fs)"
    and "\<forall>(p, x) \<in> set fs. prefix dir p \<longrightarrow> length p < depth"
  shows "delete_children fuel dir ns (True, fs) = Some (True, without (map (\<lambda>n. dir @ [n]) ns) fs)"
  using assms(1-5,7)
proof (induction ns arbitrary: fs)
  case (Cons n ns)
  obtain x where x: "map_of fs (dir @ [n]) = Some x" using Cons.prems(4) by auto
  have n: "\<not> compare_string n ''.''" "\<not> compare_string n ''..''"
    using well_formed_parent [OF Cons.prems(1) x] name_ok_dots by auto
  have stat: "stat fs (dir @ [n]) = Some x"
    using stat_plain(2) [OF Cons.prems(1,2) _ x] by simp
  let ?fs = "without [dir @ [n]] fs"
  have rest: "delete_children fuel dir ns (True, ?fs) = Some (True, without (map (\<lambda>n. dir @ [n]) ns) ?fs)"
  proof (rule Cons.IH)
    show "well_formed ?fs" "no_links ?fs dir"
      using Cons.prems(1,2) by (simp_all add: well_formed_without no_links_without)
    show "map_of ?fs dir = Some Dir" "\<forall>m \<in> set ns. map_of ?fs (dir @ [m]) \<noteq> None"
      using Cons.prems(3-5) by (auto simp: map_of_without)
  qed (use Cons.prems(5,6) in \<open>auto simp: set_without\<close>)
  have "delete_children fuel dir (n # ns) (True, fs) = delete_children fuel dir ns (True, ?fs)"
  proof (cases x)
    case Dir
    have "\<forall>(p, y) \<in> set fs. prefix (dir @ [n]) p \<longrightarrow> length p < depth"
      using Cons.prems(6) append_prefixD by fastforce
    then show ?thesis
      using dirs [OF Cons.prems(1) no_links_deeper [OF Cons.prems(2)]] x n stat Dir by simp
  next
    case (Regular s)
    then show ?thesis using stat_unlink_plain [OF Cons.prems(1-3) x] n stat by simp
  next
    case (Link target)
    then show ?thesis using no_linksD [OF Cons.prems(2) x] by simp
  qed
  with rest show ?case by (simp add: without_without)
qed (simp add: without_def)

lemma without_children:
  assumes "well_formed fs"
  shows "without [dir] (without (map (\<lambda>n. dir @ [n]) (names_in fs dir)) fs) = without [dir] fs"
proof -
  have "\<exists>n \<in> set (names_in fs dir). prefix (dir @ [n]) p" if px: "(p, x) \<in> set fs" and p: "prefix dir p" "p \<noteq> dir" for p x
  proof -
    obtain n q where q: "p = dir @ n # q" using p by (metis prefixE append_Nil2 neq_Nil_conv)
    obtain y where "map_of fs p = Some y" using weak_map_of_SomeI [OF px] by blast
    then have "map_of fs (dir @ [n]) \<noteq> None"
      using well_formed_ancestor [OF assms, of "dir @ [n]" q y] q by (cases "q = []") auto
    then show ?thesis using names_in_iff [OF assms] q by (auto intro!: bexI [of _ n])
  qed
  then show ?thesis
    unfolding without_without by (auto simp: without_def intro!: filter_cong dest: append_prefixD)
qed

lemma opendir_plain:
  assumes "well_formed fs" and "no_links fs dir" and "map_of fs dir = Some Dir"
  shows "opendir fs dir = Some ([''.'', ''..''] @ names_in fs dir)"
  using stat_plain(1) [OF assms(1,2) _ assms(3)] assms(3) by (simp add: opendir_def)

lemma skip_dots:
  "delete_children fuel dir ([''.'', ''..''] @ ns) (ok, fs) = delete_children fuel dir ns (ok, fs)"
  "copy_children fuel target dir ([''.'', ''..''] @ ns) (ok, fs) = copy_children fuel target dir ns (ok, fs)"
  by (simp_all add: compare_string_eq)

lemma delete_directory_plain:
  assumes "well_formed fs" and "no_links fs dir" and "map_of fs dir = Some Dir" and "dir \<noteq> []"
    and "\<forall>(p, x) \<in> set fs. prefix dir p \<longrightarrow> length p < length dir + fuel"
  shows "linux_delete_directory fuel dir fs = Some (True, without [dir] fs)"
  using assms
proof (induction fuel arbitrary: dir fs)
  case 0
  then show ?case by (force dest: map_of_SomeD)
next
  case (Suc fuel)
  let ?ns = "names_in fs dir"
  let ?fs = "without (map (\<lambda>n. dir @ [n]) ?ns) fs"
  have "delete_children fuel dir ?ns (True, fs) = Some (True, ?fs)"
  proof (rule delete_children_plain [where depth = "length dir + Suc fuel"])
    show "\<forall>n \<in> set ?ns. map_of fs (dir @ [n]) \<noteq> None" "distinct ?ns"
      using names_in_iff [OF Suc.prems(1)] distinct_names_in [OF Suc.prems(1)] by auto
    show "linux_delete_directory fuel (dir @ [n]) fs = Some (True, without [dir @ [n]] fs)"
      if "well_formed fs" "no_links fs (dir @ [n])" "map_of fs (dir @ [n]) = Some Dir"
        "\<forall>(p, x) \<in> set fs. prefix (dir @ [n]) p \<longrightarrow> length p < length dir + Suc fuel" for fs n
      using Suc.IH [OF that(1-3)] that(4) by simp
  qed (use Suc.prems in auto)
  moreover have "rmdir ?fs dir = Some (without [dir] ?fs)"
  proof (rule rmdir_plain)
    show "well_formed ?fs" "no_links ?fs dir"
      using Suc.prems(1,2) by (auto intro!: well_formed_without no_links_without)
    show "map_of ?fs dir = Some Dir" using Suc.prems(3) by (auto simp: map_of_without)
    have "n \<notin> set (names_in ?fs dir)" for n
      using names_in_iff [OF \<open>well_formed ?fs\<close>] names_in_iff [OF Suc.prems(1)] by (auto simp: map_of_without)
    then show "names_in ?fs dir = []" by (metis ex_in_conv set_empty)
  qed (rule Suc.prems(4))
  ultimately show ?case
    using opendir_plain [OF Suc.prems(1-3)] skip_dots(1) [of fuel dir ?ns True fs] without_children [OF Suc.prems(1), of dir]
    by simp
qed

subsection \<open>Copying\<close>

text \<open>\<open>fs'\<close> is \<open>fs\<close> with a copy of what is at \<open>source\<close> put at \<open>target\<close>.\<close>

definition copied :: "fs \<Rightarrow> path \<Rightarrow> path \<Rightarrow> fs \<Rightarrow> bool" where
  "copied fs target source fs' \<longleftrightarrow> well_formed fs' \<and>
     (\<forall>p. map_of fs' p = (if prefix target p then map_of fs (source @ drop (length target) p) else map_of fs p))"

definition copyable :: "fs \<Rightarrow> path \<Rightarrow> path \<Rightarrow> bool" where
  "copyable fs target source \<longleftrightarrow> well_formed fs \<and> no_links fs source \<and> map_of fs source = Some Dir \<and>
     no_links fs target \<and> target \<noteq> [] \<and> map_of fs (butlast target) = Some Dir \<and> name_ok (last target) \<and>
     map_of fs target = None \<and> \<not> prefix source target"

text \<open>The directory is made and the children \<open>ns\<close> are copied.\<close>

definition half_copied :: "fs \<Rightarrow> path \<Rightarrow> path \<Rightarrow> string set \<Rightarrow> fs \<Rightarrow> bool" where
  "half_copied fs target source ns fs' \<longleftrightarrow> well_formed fs' \<and>
     (\<forall>p. map_of fs' p = (if p = target then Some Dir
        else if \<exists>n \<in> ns. prefix (target @ [n]) p then map_of fs (source @ drop (length target) p) else map_of fs p))"

lemma no_links_map:
  "no_links fs path \<longleftrightarrow> (\<forall>p x. map_of fs p = Some x \<longrightarrow> prefix p path \<or> prefix path p \<longrightarrow> \<not> is_link x)"
  if "well_formed fs"
  using that unfolding no_links_def well_formed_def by (fastforce dest: map_of_SomeD)

lemma well_formed_insert:
  assumes "well_formed fs" and "map_of fs p = None" and "map_of fs (butlast p) = Some Dir" and "name_ok (last p)"
  shows "well_formed ((p, x) # fs)" and "well_formed (AList.update p x fs)"
proof -
  have "map_of fs [] \<noteq> None" using assms(1) by (simp add: well_formed_def)
  then have p: "p \<notin> fst ` set fs" "p \<noteq> []"
    using assms(2) by (auto simp: map_of_eq_None_iff)
  then have "AList.update p x fs = fs @ [(p, x)]"
    by (induction fs) auto
  moreover have "map_of (fs @ [(p, x)]) q = map_of ((p, x) # fs) q" for q
    using assms(2) by (auto simp: map_add_def split: option.split)
  moreover have "q \<noteq> [] \<Longrightarrow> (q, y) \<in> set fs \<Longrightarrow> butlast q \<noteq> p \<and> q \<noteq> p" for q y
    using assms(1,2) p by (auto simp: well_formed_def)
  ultimately show "well_formed ((p, x) # fs)" "well_formed (AList.update p x fs)"
    using assms p by (auto simp: well_formed_def)
qed

lemma copyable_disjoint:
  assumes "copyable fs target source"
  shows "prefix source p \<Longrightarrow> \<not> prefix target p" and "prefix p source \<Longrightarrow> \<not> prefix target p"
proof -
  have apart: "\<not> prefix target source"
  proof
    assume "prefix target source"
    then obtain q where "source = target @ q" by (auto simp: prefix_def)
    then show False
      using assms well_formed_ancestor [of fs target q Dir] by (cases "q = []") (auto simp: copyable_def)
  qed
  then show "prefix p source \<Longrightarrow> \<not> prefix target p" by (meson prefix_order.trans)
  show "prefix source p \<Longrightarrow> \<not> prefix target p"
    using apart assms unfolding copyable_def by (meson prefix_same_cases)
qed

lemma half_copied_outside:
  assumes "half_copied fs target source ns fs'" and "\<not> prefix target p"
  shows "map_of fs' p = map_of fs p"
  using assms append_prefixD by (fastforce simp: half_copied_def)

lemma half_copied_links:
  assumes "copyable fs target source" and "half_copied fs target source ns fs'"
  shows "no_links fs' source" and "no_links fs' target"
proof -
  have wf: "well_formed fs'" "well_formed fs" using assms by (auto simp: half_copied_def copyable_def)
  show "no_links fs' source"
    unfolding no_links_map [OF wf(1)]
  proof (intro allI impI)
    fix p x assume p: "map_of fs' p = Some x" "prefix p source \<or> prefix source p"
    then have "\<not> prefix target p" using copyable_disjoint [OF assms(1)] by auto
    from half_copied_outside [OF assms(2) this] p show "\<not> is_link x"
      using no_linksD assms(1) by (auto simp: copyable_def)
  qed
  show "no_links fs' target"
    unfolding no_links_map [OF wf(1)]
  proof (intro allI impI)
    fix p x assume p: "map_of fs' p = Some x" "prefix p target \<or> prefix target p"
    consider "p = target" | "map_of fs p = Some x" | "map_of fs (source @ drop (length target) p) = Some x"
      using p(1) assms(2) by (auto simp: half_copied_def split: if_splits)
    then show "\<not> is_link x"
      using p assms no_linksD [of fs target p x] no_linksD [of fs source "source @ drop (length target) p" x]
      by cases (auto simp: half_copied_def copyable_def)
  qed
qed

text \<open>A regular file, empty or not, is copied.\<close>

lemma copy_file_plain:
  assumes "well_formed fs" and "no_links fs source" and "no_links fs target"
    and "map_of fs (source @ [n]) = Some (Regular s)" and "map_of fs target = Some Dir" and "map_of fs (target @ [n]) = None"
    and "source \<noteq> target"
  shows "\<exists>fs'. snd (linux_copy_file fs (target @ [n]) (source @ [n])) = fs' \<and> well_formed fs' \<and>
    map_of fs' = (map_of fs)(target @ [n] \<mapsto> Regular s)"
proof -
  have n: "name_ok n" using well_formed_parent [OF assms(1,4)] by simp
  have rb: "fopen_rb fs (source @ [n]) = Some (source @ [n])"
    using stat_plain(1) [OF assms(1,2) _ assms(4)] assms(4) by (simp add: fopen_rb_def)
  have "resolve max_links fs [] (target @ [n]) = None \<or> fopen_rb fs (target @ [n]) = None"
  proof -
    have "resolve k fs at rest = None" if "at @ rest = target @ [n]" "prefix at target" for k at rest
      using that
    proof (induction rest arbitrary: at)
      case (Cons m rest)
      show ?case
      proof (cases rest)
        case Nil
        then show ?thesis using Cons.prems(1) assms(6) by simp
      next
        case (Cons r rs)
        then have pre: "prefix (at @ [m]) target"
          using Cons.prems(1) by (metis append.assoc append_Cons append_Nil butlast_append butlast_snoc list.distinct(1) prefix_def)
        then have "map_of fs (at @ [m]) = Some Dir"
          using assms(5) well_formed_ancestor [OF assms(1), of "at @ [m]" _ Dir] by (metis append_Nil2 prefixE)
        then show ?thesis using Cons.IH [of "at @ [m]"] Cons.prems(1) pre by simp
      qed
    qed (use assms in auto)
    from this [of "[]"] show ?thesis by simp
  qed
  then have "fopen_rb fs (target @ [n]) = None" by (auto simp: fopen_rb_def)
  then have wb: "fopen_wb fs (target @ [n]) = Some (target @ [n], AList.update (target @ [n]) (Regular []) fs)"
    using locate_plain [OF assms(1,3) _ assms(5), of n] assms(6) by (simp add: fopen_wb_def)
  let ?fs = "AList.update (target @ [n]) (Regular []) fs"
  have "map_of ?fs (source @ [n]) = Some (Regular s)"
    using assms(4,7) by (simp add: update_conv')
  then have "snd (linux_copy_file fs (target @ [n]) (source @ [n])) = AList.update (target @ [n]) (Regular s) fs"
    using rb wb by (auto simp: linux_copy_file_def Let_def)
  then show ?thesis
    using well_formed_insert(2) [OF assms(1,6), of "Regular s"] assms(5) n by (simp add: update_conv')
qed

lemma half_copied_next:
  assumes "copyable fs target source" and half: "half_copied fs target source ns fs'"
    and n: "n \<notin> ns" "map_of fs (source @ [n]) = Some x" and "well_formed fs''"
    and step: "\<And>p. map_of fs'' p = (if prefix (target @ [n]) p then map_of fs (source @ drop (length target) p) else map_of fs' p)"
  shows "half_copied fs target source (insert n ns) fs''"
  unfolding half_copied_def
proof (intro conjI allI)
  fix p
  show "map_of fs'' p = (if p = target then Some Dir
      else if \<exists>m \<in> insert n ns. prefix (target @ [m]) p then map_of fs (source @ drop (length target) p) else map_of fs p)"
  proof (cases "prefix (target @ [n]) p")
    case True
    then have "p \<noteq> target" by auto
    then show ?thesis using True by (simp add: step)
  next
    case False
    then show ?thesis using half by (simp add: step half_copied_def)
  qed
qed (rule assms(5))

lemma half_copied_child:
  assumes "copyable fs target source" and half: "half_copied fs target source ns fs'" and "n \<notin> ns"
  shows "map_of fs' (target @ [n]) = None" and "map_of fs' target = Some Dir"
    and "map_of fs' (source @ q) = map_of fs (source @ q)"
proof -
  have "map_of fs (target @ [n]) = None"
    using assms(1) well_formed_parent [of fs target n] by (cases "map_of fs (target @ [n])") (auto simp: copyable_def)
  then show "map_of fs' (target @ [n]) = None" "map_of fs' target = Some Dir"
    using half assms(3) by (auto simp: half_copied_def)
  show "map_of fs' (source @ q) = map_of fs (source @ q)"
    using half_copied_outside [OF half] copyable_disjoint(1) [OF assms(1)] by simp
qed

lemma copy_children_plain:
  assumes "copyable fs target source" and "half_copied fs target source done fs'"
    and "\<forall>n \<in> set ns. map_of fs (source @ [n]) \<noteq> None" and "distinct ns" and "set ns \<inter> done = {}"
    and dirs: "\<And>fs n. \<lbrakk>copyable fs (target @ [n]) (source @ [n]);
      \<forall>p x. map_of fs p = Some x \<longrightarrow> prefix (source @ [n]) p \<longrightarrow> length p < depth\<rbrakk> \<Longrightarrow>
      \<exists>fs'. linux_copy_directory fuel (target @ [n]) (source @ [n]) fs = Some (True, fs') \<and>
        copied fs (target @ [n]) (source @ [n]) fs'"
    and depth: "\<forall>p x. map_of fs p = Some x \<longrightarrow> prefix source p \<longrightarrow> length p < depth"
  shows "\<exists>fs''. copy_children fuel target source ns (True, fs') = Some (True, fs'') \<and>
    half_copied fs target source (done \<union> set ns) fs''"
  using assms(2-5)
proof (induction ns arbitrary: "done" fs')
  case (Cons n ns)
  note half = Cons.prems(1) and fresh = Cons.prems(4)
  obtain x where x: "map_of fs (source @ [n]) = Some x" using Cons.prems(2) by auto
  have wf: "well_formed fs" "well_formed fs'" using assms(1) half by (auto simp: copyable_def half_copied_def)
  have n: "name_ok n" "\<not> compare_string n ''.''" "\<not> compare_string n ''..''"
    using well_formed_parent [OF wf(1) x] name_ok_dots by auto
  have child: "map_of fs' (target @ [n]) = None" "map_of fs' target = Some Dir"
    "map_of fs' (source @ q) = map_of fs (source @ q)" for q
    using half_copied_child [OF assms(1) half, of n] fresh by auto
  have links: "no_links fs' source" "no_links fs' target" using half_copied_links [OF assms(1) half] by auto
  have stat: "stat fs' (source @ [n]) = Some x"
    using stat_plain(2) [OF wf(2) links(1)] child(3) x by simp
  have "\<exists>fs''. copy_children fuel target source (n # ns) (True, fs') = copy_children fuel target source ns (True, fs'') \<and>
      half_copied fs target source (insert n done) fs''"
  proof (cases x)
    case Dir
    have "\<not> prefix (source @ [n]) (target @ [n])"
      using assms(1) by (auto simp: copyable_def dest: append_prefixD)
    then have "copyable fs' (target @ [n]) (source @ [n])"
      using no_links_deeper [OF links(1)] no_links_deeper [OF links(2)] wf child x Dir n by (simp add: copyable_def)
    moreover have "\<forall>p y. map_of fs' p = Some y \<longrightarrow> prefix (source @ [n]) p \<longrightarrow> length p < depth"
      using depth child(3) by (metis append_prefixD prefixE)
    ultimately obtain fs'' where fs'': "linux_copy_directory fuel (target @ [n]) (source @ [n]) fs' = Some (True, fs'')"
      "copied fs' (target @ [n]) (source @ [n]) fs''"
      using dirs by blast
    have "map_of fs'' p = (if prefix (target @ [n]) p then map_of fs (source @ drop (length target) p) else map_of fs' p)" for p
      using fs''(2) child(3) by (auto simp: copied_def prefix_def)
    then have "half_copied fs target source (insert n done) fs''"
      using half_copied_next [OF assms(1) half _ x] fresh fs''(2) by (auto simp: copied_def)
    then show ?thesis using stat Dir n fs''(1) by auto
  next
    case (Regular s)
    have "source \<noteq> target" using assms(1) by (auto simp: copyable_def)
    then obtain fs'' where fs'': "snd (linux_copy_file fs' (target @ [n]) (source @ [n])) = fs''" "well_formed fs''"
      "map_of fs'' = (map_of fs')(target @ [n] \<mapsto> Regular s)"
      using copy_file_plain [OF wf(2) links, of n s] child x Regular by auto
    have none: "map_of fs (source @ [n] @ q) = None" if "q \<noteq> []" for q
      using well_formed_ancestor [OF wf(1), of "source @ [n]" q] x Regular that
      by (cases "map_of fs (source @ [n] @ q)") auto
    have none': "map_of fs' (target @ [n] @ q) = None" if "q \<noteq> []" for q
      using well_formed_ancestor [OF wf(2), of "target @ [n]" q] child(1) that
      by (cases "map_of fs' (target @ [n] @ q)") auto
    have "map_of fs'' p = (if prefix (target @ [n]) p then map_of fs (source @ drop (length target) p) else map_of fs' p)" for p
    proof (cases "prefix (target @ [n]) p")
      case True
      then obtain q where "p = target @ [n] @ q" by (auto simp: prefix_def)
      then show ?thesis using True fs''(3) none none' x Regular by (cases "q = []") auto
    qed (use fs''(3) in auto)
    then have "half_copied fs target source (insert n done) fs''"
      using half_copied_next [OF assms(1) half _ x] fresh fs''(2) by auto
    then show ?thesis using stat Regular n fs''(1) by auto
  next
    case (Link t)
    then show ?thesis using no_linksD [of fs source "source @ [n]" x] x assms(1) by (simp add: copyable_def)
  qed
  then obtain fs'' where fs'': "copy_children fuel target source (n # ns) (True, fs') = copy_children fuel target source ns (True, fs'')"
    "half_copied fs target source (insert n done) fs''" by blast
  have "set ns \<inter> insert n done = {}" using Cons.prems(3,4) by auto
  from Cons.IH [OF fs''(2) _ _ this] Cons.prems(2,3) obtain fs3
    where "copy_children fuel target source ns (True, fs'') = Some (True, fs3)"
      "half_copied fs target source (insert n done \<union> set ns) fs3"
    by auto
  then show ?case unfolding fs''(1) by (intro exI [of _ fs3]) simp
qed simp

lemma copy_directory_plain:
  assumes "copyable fs target source"
    and "\<forall>p x. map_of fs p = Some x \<longrightarrow> prefix source p \<longrightarrow> length p < length source + fuel"
  shows "\<exists>fs'. linux_copy_directory fuel target source fs = Some (True, fs') \<and> copied fs target source fs'"
  using assms
proof (induction fuel arbitrary: target source fs)
  case 0
  then show ?case by (auto simp: copyable_def)
next
  case (Suc fuel)
  note c = Suc.prems(1) [unfolded copyable_def]
  have wf: "well_formed fs" using c by blast
  have target: "target = butlast target @ [last target]" using c by simp
  let ?fs = "(target, Dir) # fs"
  have "locate fs target = Some target"
    using locate_plain [OF wf, of target "butlast target" "last target"] c target by simp
  then have mk: "mkdir fs target = Some ?fs" using c by (simp add: mkdir_def)
  have none: "map_of fs (target @ [n] @ q) = None" for n q
    using well_formed_ancestor [OF wf, of target "[n] @ q"] c by (cases "map_of fs (target @ [n] @ q)") auto
  have half: "half_copied fs target source {} ?fs"
    using well_formed_insert(1) [OF wf, of target Dir] c by (simp add: half_copied_def)
  let ?ns = "names_in ?fs source"
  have ns: "n \<in> set ?ns \<longleftrightarrow> map_of fs (source @ [n]) \<noteq> None" for n
    using names_in_iff [of ?fs n source] half half_copied_child(3) [OF Suc.prems(1) half, of "[]" "[n]"]
    by (auto simp: half_copied_def)
  have "map_of ?fs source = Some Dir"
    using half_copied_child(3) [OF Suc.prems(1) half, of "[]" "[]"] c by simp
  then have names: "opendir ?fs source = Some ([''.'', ''..''] @ ?ns)"
    using half half_copied_links(1) [OF Suc.prems(1) half] by (intro opendir_plain) (auto simp: half_copied_def)
  have "\<exists>fs''. copy_children fuel target source ?ns (True, ?fs) = Some (True, fs'') \<and>
      half_copied fs target source ({} \<union> set ?ns) fs''"
  proof (rule copy_children_plain [OF Suc.prems(1) half, where depth = "length source + Suc fuel"])
    show "distinct ?ns" using half by (intro distinct_names_in) (simp add: half_copied_def)
    show "\<exists>fs'. linux_copy_directory fuel (target @ [n]) (source @ [n]) fs = Some (True, fs') \<and>
        copied fs (target @ [n]) (source @ [n]) fs'"
      if "copyable fs (target @ [n]) (source @ [n])"
        "\<forall>p x. map_of fs p = Some x \<longrightarrow> prefix (source @ [n]) p \<longrightarrow> length p < length source + Suc fuel" for fs n
      using Suc.IH [OF that(1)] that(2) by simp
  qed (use ns Suc.prems(2) in auto)
  then obtain fs'' where fs'': "copy_children fuel target source ?ns (True, ?fs) = Some (True, fs'')"
    "half_copied fs target source (set ?ns) fs''" by auto
  have "map_of fs'' p = (if prefix target p then map_of fs (source @ drop (length target) p) else map_of fs p)" for p
  proof (cases "prefix target p \<and> p \<noteq> target")
    case True
    then obtain n q where p: "p = target @ [n] @ q" by (metis append_Cons append_Nil append_Nil2 neq_Nil_conv prefixE)
    show ?thesis
    proof (cases "n \<in> set ?ns")
      case False
      then have "map_of fs (source @ [n] @ q) = None"
        using ns [of n] well_formed_ancestor [OF wf, of "source @ [n]" q]
        by (cases "map_of fs (source @ [n] @ q)"; cases "q = []") auto
      then show ?thesis using fs''(2) False none p by (auto simp: half_copied_def)
    qed (use fs''(2) p in \<open>auto simp: half_copied_def\<close>)
  qed (use fs''(2) c in \<open>auto simp: half_copied_def dest: append_prefixD\<close>)
  then have "copied fs target source fs''" using fs''(2) by (simp add: copied_def half_copied_def)
  then show ?case using mk names skip_dots(2) [of fuel target source ?ns True ?fs] fs''(1) by auto
qed

subsection \<open>Moving\<close>

lemma map_of_renamed:
  "\<forall>(q, x) \<in> set fs. \<not> prefix target q \<Longrightarrow>
    map_of (map (\<lambda>(p, x). (if prefix source p then target @ drop (length source) p else p, x)) fs) p =
      (if prefix target p then map_of fs (source @ drop (length target) p)
       else if prefix source p then None else map_of fs p)"
proof (induction fs)
  case (Cons e fs)
  obtain q x where e: "e = (q, x)" by force
  have "\<not> prefix target q" using Cons.prems e by simp
  then have "((if prefix source q then target @ drop (length source) q else q) = p) =
      (if prefix target p then source @ drop (length target) p = q else \<not> prefix source p \<and> q = p)"
    by (auto simp: prefix_def)
  then show ?case using Cons e by (auto split: if_splits)
qed simp

lemma map_of_moved:
  assumes "\<And>q. prefix target q \<Longrightarrow> map_of fs q = None"
  shows "map_of (moved source target fs) p =
    (if prefix target p then map_of fs (source @ drop (length target) p)
     else if prefix source p then None else map_of fs p)"
proof -
  have "\<forall>(q, x) \<in> set fs. \<not> prefix target q"
    using assms by (metis (no_types, lifting) case_prodI2 option.distinct(1) weak_map_of_SomeI)
  moreover from this have "AList.delete target fs = fs"
    by (auto simp: AList.delete_eq filter_id_conv split: prod.splits)
  ultimately show ?thesis
    unfolding moved_def using map_of_renamed [of fs target source p] by simp
qed

lemma opendir_missing:
  assumes "well_formed fs" and "dir \<noteq> []" and "map_of fs (butlast dir) = Some Dir" and "map_of fs dir = None"
  shows "opendir fs dir = None"
proof -
  have "resolve links fs at rest = None" if "at @ rest = dir" "rest \<noteq> []" for links at rest
    using that
  proof (induction rest arbitrary: at)
    case (Cons n rest)
    show ?case
    proof (cases "rest = []")
      case True
      then show ?thesis using Cons.prems(1) assms(4) by simp
    next
      case False
      have "butlast dir = (at @ [n]) @ butlast rest"
        unfolding Cons.prems(1) [symmetric] using False by (simp add: butlast_append)
      then have "map_of fs (at @ [n]) = Some Dir"
        using well_formed_ancestor [OF assms(1), of "at @ [n]" "butlast rest" Dir] assms(3)
        by (cases "butlast rest = []") auto
      then show ?thesis using Cons.IH [of "at @ [n]"] Cons.prems(1) False by simp
    qed
  qed simp
  from this [of "[]" dir] assms(2) show ?thesis by (simp add: opendir_def)
qed

lemma delete_directory_if_any:
  assumes "well_formed fs" and "no_links fs dir" and "dir \<noteq> []" and "map_of fs (butlast dir) = Some Dir"
    and "map_of fs dir = Some Dir \<or> map_of fs dir = None"
    and "\<forall>(p, x) \<in> set fs. prefix dir p \<longrightarrow> length p < length dir + fuel" and "0 < fuel"
  shows "\<exists>ok fs1. linux_delete_directory fuel dir fs = Some (ok, fs1) \<and> well_formed fs1 \<and> fs1 = without [dir] fs"
  using assms(5)
proof
  assume "map_of fs dir = Some Dir"
  with delete_directory_plain [OF assms(1,2) _ assms(3,6)] assms(1,3) show ?thesis
    by (auto intro: well_formed_without)
next
  assume none: "map_of fs dir = None"
  have "\<not> prefix dir q" if q: "(q, x) \<in> set fs" for q x
  proof
    assume "prefix dir q"
    then obtain r where r: "q = dir @ r" by (auto simp: prefix_def)
    obtain y where "map_of fs q = Some y" using weak_map_of_SomeI [OF q] by blast
    then show False using r well_formed_ancestor [OF assms(1), of dir r] none by (cases "r = []") auto
  qed
  then have "without [dir] fs = fs" by (auto simp: without_def filter_id_conv)
  moreover have "linux_delete_directory fuel dir fs = Some (False, fs)"
    using assms(7) opendir_missing [OF assms(1,3,4) none] by (cases fuel) simp_all
  ultimately show ?thesis using assms(1) by auto
qed

text \<open>How \<open>clone_repository\<close> puts a new clone in its place.\<close>

definition replace_directory :: "nat \<Rightarrow> path \<Rightarrow> path \<Rightarrow> fs \<Rightarrow> (bool \<times> fs) option" where
  "replace_directory fuel dir temporary fs =
     map_option (\<lambda>(_, fs). linux_rename_directory fs dir temporary) (linux_delete_directory fuel dir fs)"

subsection \<open>Properties\<close>

text \<open>A cache with a clone in it, beside a home directory.\<close>

definition sample_fs :: fs where
  "sample_fs =
     [([], Dir), ([''cache''], Dir), ([''cache'', ''hw1''], Dir), ([''cache'', ''hw1'', ''src''], Dir),
      ([''cache'', ''hw1'', ''src'', ''main.c''], Regular ''int main;''), ([''cache'', ''hw1'', ''empty''], Regular []),
      ([''home''], Dir), ([''home'', ''thesis''], Regular ''text''), ([''home'', ''here''], Link [''home''])]"

lemma sample_fs_ok:
  "well_formed sample_fs" "no_links sample_fs [''cache'', ''hw1'']" "no_links sample_fs [''cache'', ''copy'']"
  "map_of sample_fs [''cache'', ''hw1''] = Some Dir" "map_of sample_fs [''cache'', ''copy''] = None"
  "map_of sample_fs [''cache''] = Some Dir"
  by code_simp+

text \<open>C28: \<open>linux_delete_directory\<close> removes exactly the directory and all that is in it, when no symbolic
  link is on the way to it or in it: everything else stays as it was. The recursion is no deeper
  than the directories are.\<close>

theorem delete_directory_removes_subtree:
  assumes "well_formed fs" and "no_links fs dir" and "map_of fs dir = Some Dir" and "dir \<noteq> []"
    and "\<forall>(p, x) \<in> set fs. prefix dir p \<longrightarrow> length p < length dir + fuel"
  shows "\<exists>fs'. linux_delete_directory fuel dir fs = Some (True, fs') \<and> well_formed fs' \<and>
    (\<forall>p. map_of fs' p = (if prefix dir p then None else map_of fs p))"
  using delete_directory_plain [OF assms] well_formed_without [OF assms(1), of "[dir]"] assms(4)
  by (simp add: map_of_without)

theorem delete_directory_removes_subtree_witness:
  "\<exists>fs'. linux_delete_directory 3 [''cache'', ''hw1''] sample_fs = Some (True, fs') \<and> well_formed fs' \<and>
    (\<forall>p. map_of fs' p = (if prefix [''cache'', ''hw1''] p then None else map_of sample_fs p))"
  by (rule delete_directory_removes_subtree [OF sample_fs_ok(1,2,4)]) (simp_all add: sample_fs_def)

text \<open>C29: \<open>linux_copy_directory\<close> makes an exact copy of a directory without symbolic links at a place
  where nothing is, outside the directory: every file, the empty ones too, and every directory of
  the source is found at the target with the same content, and everything else, the source
  included, stays as it was.\<close>

theorem copy_directory_copies:
  assumes "well_formed fs" and "no_links fs source" and "map_of fs source = Some Dir"
    and "no_links fs target" and "target \<noteq> []" and "map_of fs (butlast target) = Some Dir" and "name_ok (last target)"
    and "map_of fs target = None" and "\<not> prefix source target"
    and "\<forall>(p, x) \<in> set fs. prefix source p \<longrightarrow> length p < length source + fuel"
  shows "\<exists>fs'. linux_copy_directory fuel target source fs = Some (True, fs') \<and> well_formed fs' \<and>
    (\<forall>p. map_of fs' p = (if prefix target p then map_of fs (source @ drop (length target) p) else map_of fs p))"
proof -
  have "copyable fs target source" using assms by (simp add: copyable_def)
  moreover have "\<forall>p x. map_of fs p = Some x \<longrightarrow> prefix source p \<longrightarrow> length p < length source + fuel"
    using assms(10) by (auto dest: map_of_SomeD)
  ultimately show ?thesis using copy_directory_plain [of fs target source fuel] by (simp add: copied_def)
qed

theorem copy_directory_copies_witness:
  "\<exists>fs'. linux_copy_directory 3 [''cache'', ''copy''] [''cache'', ''hw1''] sample_fs = Some (True, fs') \<and> well_formed fs' \<and>
    (\<forall>p. map_of fs' p = (if prefix [''cache'', ''copy''] p
      then map_of sample_fs ([''cache'', ''hw1''] @ drop (length [''cache'', ''copy'']) p) else map_of sample_fs p))"
  by (rule copy_directory_copies [OF sample_fs_ok(1,2,4,3) _ _ _ sample_fs_ok(5)])
    (simp_all add: sample_fs_ok(6) name_ok_def, simp add: sample_fs_def)

text \<open>\<open>linux_delete_directory\<close> follows symbolic links. If a clone in the cache has a link to a
  directory elsewhere, deleting the cache deletes what is in that directory, leaves the link and
  the cache behind, and reports success all the same.\<close>

lemma delete_directory_follows_links:
  "map_option (\<lambda>(ok, fs). (ok, map (map_of fs) [[''home'', ''thesis''], [''home''], [''cache''], [''cache'', ''link'']]))
    (linux_delete_directory 50 [''cache'']
      [([], Dir), ([''cache''], Dir), ([''cache'', ''link''], Link [''home'']), ([''home''], Dir),
       ([''home'', ''thesis''], Regular ''text'')]) =
   Some (True, [None, Some Dir, Some Dir, Some (Link [''home''])])"
  by code_simp

text \<open>C30: deleting the old directory and renaming the temporary one puts the new clone in place of the
  old: the path then has exactly what was in the temporary directory, the temporary directory is
  gone, and nothing else has changed. It does not matter whether there was an old clone.\<close>

theorem replace_directory_moves:
  assumes "well_formed fs" and "no_links fs temporary" and "no_links fs dir" and "map_of fs temporary = Some Dir"
    and "temporary \<noteq> []" and "dir \<noteq> []" and "map_of fs (butlast dir) = Some Dir"
    and "map_of fs dir = Some Dir \<or> map_of fs dir = None"
    and "\<not> prefix temporary dir" and "\<not> prefix dir temporary"
    and "\<forall>(p, x) \<in> set fs. prefix dir p \<longrightarrow> length p < length dir + fuel" and "0 < fuel"
  shows "\<exists>fs'. replace_directory fuel dir temporary fs = Some (True, fs') \<and>
    (\<forall>p. map_of fs' p =
      (if prefix dir p then map_of fs (temporary @ drop (length dir) p)
       else if prefix temporary p then None else map_of fs p))"
proof -
  from delete_directory_if_any [OF assms(1,3,6-8,11,12)]
  obtain ok fs1 where fs1: "linux_delete_directory fuel dir fs = Some (ok, fs1)" "well_formed fs1"
    "fs1 = without [dir] fs" by blast
  obtain s n where s: "temporary = s @ [n]" using assms(5) by (metis rev_exhaust)
  obtain t m where t: "dir = t @ [m]" using assms(6) by (metis rev_exhaust)
  have look: "map_of fs1 p = (if prefix dir p then None else map_of fs p)" for p
    by (simp add: fs1(3) map_of_without)
  have "map_of fs s = Some Dir" using well_formed_parent [OF assms(1)] assms(4) s by blast
  moreover have "\<not> prefix dir s" using assms(10) s by auto
  moreover have "\<not> prefix dir t" using t by auto
  ultimately have "locate fs1 temporary = Some temporary" "locate fs1 dir = Some dir"
    using locate_plain [OF fs1(2) no_links_without [OF assms(2), of "[dir]", folded fs1(3)], of s n]
      locate_plain [OF fs1(2) no_links_without [OF assms(3), of "[dir]", folded fs1(3)], of t m]
      assms(7) s t look by auto
  then have "rename fs1 temporary dir = Some (moved temporary dir fs1)"
    using assms(4,9,10) look by (auto simp: rename_def)
  moreover have "map_of (moved temporary dir fs1) p =
      (if prefix dir p then map_of fs (temporary @ drop (length dir) p)
       else if prefix temporary p then None else map_of fs p)" for p
  proof -
    have "\<not> prefix dir (temporary @ q)" for q
      using assms(9,10) by (metis prefixI prefix_same_cases)
    then show ?thesis using map_of_moved [of dir fs1 temporary p] look by simp
  qed
  ultimately show ?thesis using fs1(1) by (simp add: replace_directory_def linux_rename_directory_def)
qed

theorem replace_directory_moves_witness:
  "\<exists>fs'. replace_directory 3 [''cache'', ''hw1''] [''home'', ''tmp''] ((([''home'', ''tmp''], Dir)) # sample_fs) = Some (True, fs') \<and>
    (\<forall>p. map_of fs' p =
      (if prefix [''cache'', ''hw1''] p
       then map_of ((([''home'', ''tmp''], Dir)) # sample_fs) ([''home'', ''tmp''] @ drop (length [''cache'', ''hw1'']) p)
       else if prefix [''home'', ''tmp''] p then None else map_of ((([''home'', ''tmp''], Dir)) # sample_fs) p))"
proof (rule replace_directory_moves)
  let ?fs = "(([''home'', ''tmp''], Dir)) # sample_fs"
  show "well_formed ?fs" "no_links ?fs [''home'', ''tmp'']" "no_links ?fs [''cache'', ''hw1'']"
    "\<forall>(p, x) \<in> set ?fs. prefix [''cache'', ''hw1''] p \<longrightarrow> length p < length [''cache'', ''hw1''] + 3"
    "map_of ?fs (butlast [''cache'', ''hw1'']) = Some Dir"
    "map_of ?fs [''cache'', ''hw1''] = Some Dir \<or> map_of ?fs [''cache'', ''hw1''] = None"
    by code_simp+
qed simp_all

end
