(* ===== verification/Win32Fs.thy ===== *)
theory Win32Fs imports LinuxFsSpec GitRepo begin

text \<open>
  The directory functions of the Windows platform (\<open>code/win32_main.c\<close>). A file system is the one of
  \<open>LinuxFs\<close> without links, with the list of the read-only entries; the attribute keeps a file from
  being deleted or overwritten and has no meaning for directories. Reparse points and the
  folding of case in names are not modelled, nor are permissions and other failures of the system.

  \<open>units path\<close> is the length of a path in UTF-16: the functions fail on paths that do not fit their
  buffers. The recursion has fuel as in \<open>LinuxFs\<close>.
\<close>

record win_fs =
  tree :: fs
  read_only :: "path list"

subsection \<open>The calls of Windows\<close>

text \<open>The attributes DIRECTORY and READONLY of an entry.\<close>

definition get_file_attributes :: "win_fs \<Rightarrow> path \<Rightarrow> (bool \<times> bool) option" where
  "get_file_attributes ws path =
     (case map_of (tree ws) path of
        None \<Rightarrow> None
      | Some x \<Rightarrow> Some (x = Dir, path \<in> set (read_only ws)))"

definition set_writable :: "win_fs \<Rightarrow> path \<Rightarrow> win_fs" where
  "set_writable ws path = ws\<lparr>read_only := removeAll path (read_only ws)\<rparr>"

definition delete_file_w :: "win_fs \<Rightarrow> path \<Rightarrow> win_fs option" where
  "delete_file_w ws path =
     (if map_of (tree ws) path \<notin> {None, Some Dir} \<and> path \<notin> set (read_only ws)
      then Some (ws\<lparr>tree := AList.delete path (tree ws)\<rparr>) else None)"

definition remove_directory_w :: "win_fs \<Rightarrow> path \<Rightarrow> win_fs option" where
  "remove_directory_w ws path =
     (if map_of (tree ws) path = Some Dir \<and> names_in (tree ws) path = [] \<and> path \<noteq> []
      then Some (\<lparr>tree = AList.delete path (tree ws), read_only = removeAll path (read_only ws)\<rparr>) else None)"

definition create_directory_w :: "win_fs \<Rightarrow> path \<Rightarrow> win_fs option" where
  "create_directory_w ws path =
     (if path \<noteq> [] \<and> map_of (tree ws) (butlast path) = Some Dir \<and> map_of (tree ws) path = None
      then Some (ws\<lparr>tree := (path, Dir) # tree ws\<rparr>) else None)"

text \<open>\<open>MoveFileW\<close> replaces nothing.\<close>

definition move_file_w :: "win_fs \<Rightarrow> path \<Rightarrow> path \<Rightarrow> win_fs option" where
  "move_file_w ws source target =
     (if map_of (tree ws) source \<noteq> None \<and> source \<noteq> [] \<and> target \<noteq> [] \<and> map_of (tree ws) target = None \<and>
         map_of (tree ws) (butlast target) = Some Dir \<and> \<not> prefix source target
      then Some (\<lparr>tree = moved source target (tree ws),
        read_only = map (\<lambda>p. if prefix source p then target @ drop (length source) p else p) (read_only ws)\<rparr>)
      else None)"

text \<open>\<open>CopyFileW\<close> copies the attribute as well.\<close>

definition copy_file_w :: "win_fs \<Rightarrow> path \<Rightarrow> path \<Rightarrow> win_fs option" where
  "copy_file_w ws source target =
     (case map_of (tree ws) source of
        Some (Regular content) \<Rightarrow>
          if target \<noteq> [] \<and> map_of (tree ws) (butlast target) = Some Dir \<and> map_of (tree ws) target \<noteq> Some Dir \<and>
             target \<notin> set (read_only ws) \<and> source \<noteq> target
          then Some (\<lparr>tree = AList.update target (Regular content) (tree ws),
            read_only = (if source \<in> set (read_only ws) then target # read_only ws else read_only ws)\<rparr>)
          else None
      | _ \<Rightarrow> None)"

text \<open>The entries \<open>FindFirstFileW\<close> and \<open>FindNextFileW\<close> give for \<open>dir/*\<close>, with their attributes.\<close>

definition find_files :: "win_fs \<Rightarrow> path \<Rightarrow> (string \<times> bool \<times> bool) list option" where
  "find_files ws dir =
     (if map_of (tree ws) dir = Some Dir
      then Some ([(''.'', True, False), (''..'', True, False)] @
        map (\<lambda>n. (n, map_of (tree ws) (dir @ [n]) = Some Dir, dir @ [n] \<in> set (read_only ws))) (names_in (tree ws) dir))
      else None)"

subsection \<open>The functions of the platform\<close>

text \<open>\<open>MultiByteToWideChar\<close> into a buffer of \<open>MAX_PATH_LEN\<close> units.\<close>

definition converts :: "(path \<Rightarrow> nat) \<Rightarrow> path \<Rightarrow> bool" where
  "converts units path \<longleftrightarrow> units path < MAX_PATH_LEN"

definition win32_directory_exists :: "(path \<Rightarrow> nat) \<Rightarrow> win_fs \<Rightarrow> path \<Rightarrow> bool" where
  "win32_directory_exists units ws path =
     (converts units path \<and> (case get_file_attributes ws path of Some (directory, _) \<Rightarrow> directory | None \<Rightarrow> False))"

definition win32_rename_directory :: "(path \<Rightarrow> nat) \<Rightarrow> win_fs \<Rightarrow> path \<Rightarrow> path \<Rightarrow> bool \<times> win_fs" where
  "win32_rename_directory units ws target source =
     (if converts units source \<and> converts units target
      then case move_file_w ws source target of Some ws' \<Rightarrow> (True, ws') | None \<Rightarrow> (False, ws)
      else (False, ws))"

definition win32_copy_file :: "(path \<Rightarrow> nat) \<Rightarrow> win_fs \<Rightarrow> path \<Rightarrow> path \<Rightarrow> bool \<times> win_fs" where
  "win32_copy_file units ws target source =
     (if converts units source \<and> converts units target
      then case copy_file_w ws source target of Some ws' \<Rightarrow> (True, ws') | None \<Rightarrow> (False, ws)
      else (False, ws))"

definition win32_delete_file :: "(path \<Rightarrow> nat) \<Rightarrow> win_fs \<Rightarrow> path \<Rightarrow> bool \<times> win_fs" where
  "win32_delete_file units ws path =
     (if converts units path
      then let ws = (case get_file_attributes ws path of Some (_, True) \<Rightarrow> set_writable ws path | _ \<Rightarrow> ws)
           in (case delete_file_w ws path of Some ws' \<Rightarrow> (True, ws') | None \<Rightarrow> (False, ws))
      else (False, ws))"

definition win32_create_directory :: "(path \<Rightarrow> nat) \<Rightarrow> win_fs \<Rightarrow> path \<Rightarrow> bool \<times> win_fs" where
  "win32_create_directory units ws path =
     (if converts units path
      then case create_directory_w ws path of Some ws' \<Rightarrow> (True, ws') | None \<Rightarrow> (False, ws)
      else (False, ws))"

text \<open>\<open>opens\<close>: whether \<open>_wfopen\<close> succeeds; the mode has its own buffer of 32 units.\<close>

definition win32_fopen :: "(path \<Rightarrow> nat) \<Rightarrow> (path \<Rightarrow> bool) \<Rightarrow> path \<Rightarrow> string \<Rightarrow> bool" where
  "win32_fopen units opens path mode = (converts units path \<and> length mode < 32 \<and> opens path)"

text \<open>Strings of UTF-16 units; the end of the list is read as the NUL.\<close>

fun win32_utf16_len :: "16 word list \<Rightarrow> nat" where
  "win32_utf16_len [] = 0"
| "win32_utf16_len (c # s) = (if c = 0 then 0 else Suc (win32_utf16_len s))"

fun win32_compare_utf16 :: "16 word list \<Rightarrow> 16 word list \<Rightarrow> bool" where
  "win32_compare_utf16 [] b = (b = [] \<or> hd b = 0)"
| "win32_compare_utf16 (x # a) [] = (x = 0)"
| "win32_compare_utf16 (x # a) (y # b) = (if x \<noteq> y then False else if x = 0 then True else win32_compare_utf16 a b)"

lemma win32_utf16_len_eq: "win32_utf16_len s = length (takeWhile (\<lambda>c. c \<noteq> 0) s)"
  by (induction s) auto

lemma win32_compare_utf16_eq:
  "win32_compare_utf16 a b \<longleftrightarrow> takeWhile (\<lambda>c. c \<noteq> 0) a = takeWhile (\<lambda>c. c \<noteq> 0) b"
proof (induction a b rule: win32_compare_utf16.induct)
  case (1 b)
  then show ?case by (cases b) auto
qed auto

text \<open>The loop ends with \<open>ERROR_NO_MORE_FILES\<close> unless the directory could not be listed at all.\<close>

function (sequential) win32_delete_directory_by_wide_path ::
    "(path \<Rightarrow> nat) \<Rightarrow> nat \<Rightarrow> path \<Rightarrow> win_fs \<Rightarrow> (bool \<times> win_fs) option"
  and win32_delete_children ::
    "(path \<Rightarrow> nat) \<Rightarrow> nat \<Rightarrow> path \<Rightarrow> (string \<times> bool \<times> bool) list \<Rightarrow> bool \<times> win_fs \<Rightarrow> (bool \<times> win_fs) option" where
  "win32_delete_directory_by_wide_path units 0 dir ws = None"
| "win32_delete_directory_by_wide_path units (Suc fuel) dir ws =
     (if units dir + 2 < MAX_PATH_LEN
      then case (case find_files ws dir of
                   Some entries \<Rightarrow> win32_delete_children units fuel dir entries (True, ws)
                 | None \<Rightarrow> Some (False, ws)) of
        None \<Rightarrow> None
      | Some (ok, ws) \<Rightarrow> Some (ok, case remove_directory_w ws dir of Some ws' \<Rightarrow> ws' | None \<Rightarrow> ws)
      else Some (False, ws))"
| "win32_delete_children units fuel dir [] st = Some st"
| "win32_delete_children units fuel dir ((name, directory, readonly) # rest) (ok, ws) =
     (if name = ''.'' \<or> name = ''..'' then win32_delete_children units fuel dir rest (ok, ws)
      else if directory
      then case win32_delete_directory_by_wide_path units fuel (dir @ [name]) ws of
             None \<Rightarrow> None
           | Some (deleted, ws) \<Rightarrow> win32_delete_children units fuel dir rest (ok \<and> deleted, ws)
      else let ws = (if readonly then set_writable ws (dir @ [name]) else ws)
           in (case delete_file_w ws (dir @ [name]) of
                 Some ws' \<Rightarrow> win32_delete_children units fuel dir rest (ok, ws')
               | None \<Rightarrow> win32_delete_children units fuel dir rest (False, ws)))"
  by pat_completeness auto
termination
  by (relation "measures [\<lambda>x. case x of Inl (units, fuel, _) \<Rightarrow> fuel | Inr (units, fuel, _) \<Rightarrow> fuel,
      \<lambda>x. case x of Inl _ \<Rightarrow> 0 | Inr (_, _, _, rest, _) \<Rightarrow> Suc (length rest)]") auto

definition win32_delete_directory :: "(path \<Rightarrow> nat) \<Rightarrow> nat \<Rightarrow> path \<Rightarrow> win_fs \<Rightarrow> (bool \<times> win_fs) option" where
  "win32_delete_directory units fuel path ws =
     (if converts units path then win32_delete_directory_by_wide_path units fuel path ws else Some (False, ws))"

function (sequential) win32_copy_directory_by_wide_path ::
    "(path \<Rightarrow> nat) \<Rightarrow> nat \<Rightarrow> path \<Rightarrow> path \<Rightarrow> win_fs \<Rightarrow> (bool \<times> win_fs) option"
  and win32_copy_children ::
    "(path \<Rightarrow> nat) \<Rightarrow> nat \<Rightarrow> path \<Rightarrow> path \<Rightarrow> (string \<times> bool \<times> bool) list \<Rightarrow> bool \<times> win_fs \<Rightarrow> (bool \<times> win_fs) option" where
  "win32_copy_directory_by_wide_path units 0 target source ws = None"
| "win32_copy_directory_by_wide_path units (Suc fuel) target source ws =
     (case create_directory_w ws target of
        None \<Rightarrow> Some (False, ws)
      | Some ws \<Rightarrow>
          if units source + 2 < MAX_PATH_LEN
          then case find_files ws source of
                 Some entries \<Rightarrow> win32_copy_children units fuel target source entries (True, ws)
               | None \<Rightarrow> Some (False, ws)
          else Some (False, ws))"
| "win32_copy_children units fuel target source [] st = Some st"
| "win32_copy_children units fuel target source ((name, directory, readonly) # rest) (ok, ws) =
     (if name = ''.'' \<or> name = ''..'' then win32_copy_children units fuel target source rest (ok, ws)
      else if directory
      then case win32_copy_directory_by_wide_path units fuel (target @ [name]) (source @ [name]) ws of
             None \<Rightarrow> None
           | Some (success, ws) \<Rightarrow> win32_copy_children units fuel target source rest (ok \<and> success, ws)
      else case copy_file_w ws (source @ [name]) (target @ [name]) of
             Some ws' \<Rightarrow> win32_copy_children units fuel target source rest (ok, ws')
           | None \<Rightarrow> win32_copy_children units fuel target source rest (False, ws))"
  by pat_completeness auto
termination
  by (relation "measures [\<lambda>x. case x of Inl (units, fuel, _) \<Rightarrow> fuel | Inr (units, fuel, _) \<Rightarrow> fuel,
      \<lambda>x. case x of Inl _ \<Rightarrow> 0 | Inr (_, _, _, _, rest, _) \<Rightarrow> Suc (length rest)]") auto

definition win32_copy_directory :: "(path \<Rightarrow> nat) \<Rightarrow> nat \<Rightarrow> path \<Rightarrow> path \<Rightarrow> win_fs \<Rightarrow> (bool \<times> win_fs) option" where
  "win32_copy_directory units fuel target source ws =
     (if converts units target \<and> converts units source
      then win32_copy_directory_by_wide_path units fuel target source ws else Some (False, ws))"

subsection \<open>Deleting\<close>

text \<open>Read-only entries exist; the paths beneath a directory fit the buffers.\<close>

definition win_ok :: "win_fs \<Rightarrow> bool" where
  "win_ok ws \<longleftrightarrow> well_formed (tree ws) \<and> list_all (\<lambda>p. map_of (tree ws) p \<noteq> None) (read_only ws)"

definition paths_fit :: "(path \<Rightarrow> nat) \<Rightarrow> path \<Rightarrow> win_fs \<Rightarrow> bool" where
  "paths_fit units dir ws \<longleftrightarrow> list_all (\<lambda>(p, x). prefix dir p \<longrightarrow> units p + 2 < MAX_PATH_LEN) (tree ws)"

definition win_without :: "path list \<Rightarrow> win_fs \<Rightarrow> win_fs" where
  "win_without ps ws =
     \<lparr>tree = without ps (tree ws), read_only = filter (\<lambda>p. \<not> (\<exists>q \<in> set ps. prefix q p)) (read_only ws)\<rparr>"

lemma win_without_simps [simp]:
  "tree (win_without ps ws) = without ps (tree ws)"
  "read_only (win_without ps ws) = filter (\<lambda>p. \<not> (\<exists>q \<in> set ps. prefix q p)) (read_only ws)"
  by (simp_all add: win_without_def)

lemma win_without_without: "win_without qs (win_without ps ws) = win_without (ps @ qs) ws"
  by (auto simp: win_without_def without_without intro: filter_cong)

lemma win_without_Nil [simp]: "win_without [] ws = ws"
  by (simp add: win_without_def without_def)

lemma win_ok_without: "win_ok ws \<Longrightarrow> [] \<notin> set ps \<Longrightarrow> win_ok (win_without ps ws)"
  by (auto simp: win_ok_def well_formed_without map_of_without list_all_iff)

lemma paths_fit_without: "paths_fit units dir ws \<Longrightarrow> paths_fit units dir (win_without ps ws)"
  by (auto simp: paths_fit_def list_all_iff set_without)

lemma paths_fit_deeper: "paths_fit units dir ws \<Longrightarrow> prefix dir p \<Longrightarrow> paths_fit units p ws"
  unfolding paths_fit_def list_all_iff using prefix_order.trans by fastforce

text \<open>An entry with nothing beneath it.\<close>

lemma leaf_without:
  assumes "win_ok ws" and "\<And>n. map_of (tree ws) (p @ [n]) = None"
  shows "\<lparr>tree = AList.delete p (tree ws), read_only = removeAll p (read_only ws)\<rparr> = win_without [p] ws"
proof -
  have wf: "well_formed (tree ws)" using assms(1) by (simp add: win_ok_def)
  have "q = p" if q: "q \<in> set (read_only ws)" "prefix p q" for q
  proof -
    have "map_of (tree ws) q \<noteq> None" using assms(1) q(1) by (simp add: win_ok_def list_all_iff)
    moreover obtain r where "q = p @ r" using q(2) by (auto simp: prefix_def)
    ultimately show "q = p"
      using well_formed_ancestor [OF wf, of "p @ [hd r]" "tl r"] assms(2) [of "hd r"]
      by (cases r; cases "tl r = []") auto
  qed
  then have "removeAll p (read_only ws) = filter (\<lambda>q. \<not> prefix p q) (read_only ws)"
    unfolding removeAll_filter_not_eq by (intro filter_cong) auto
  then show ?thesis
    using delete_without [OF wf assms(2)] by (simp add: win_without_def)
qed

lemma file_leaf:
  assumes "win_ok ws" and "map_of (tree ws) p = Some x" and "x \<noteq> Dir"
  shows "map_of (tree ws) (p @ [n]) = None"
  using well_formed_parent [of "tree ws" p n] assms by (cases "map_of (tree ws) (p @ [n])") (auto simp: win_ok_def)

lemma delete_file_plain:
  assumes "win_ok ws" and "map_of (tree ws) p = Some x" and "x \<noteq> Dir"
  shows "delete_file_w (if p \<in> set (read_only ws) then set_writable ws p else ws) p = Some (win_without [p] ws)"
proof -
  have "removeAll p (read_only ws) = read_only ws" if "p \<notin> set (read_only ws)"
    using that by (rule removeAll_id)
  then show ?thesis
    using assms(2,3) leaf_without [OF assms(1) file_leaf [OF assms]]
    by (cases ws) (auto simp: delete_file_w_def set_writable_def)
qed

lemma win32_delete_children_plain:
  assumes "win_ok ws" and "map_of (tree ws) dir = Some Dir" and "paths_fit units dir ws"
    and "\<forall>n \<in> set ns. map_of (tree ws) (dir @ [n]) \<noteq> None" and "distinct ns"
    and dirs: "\<And>ws n. \<lbrakk>win_ok ws; map_of (tree ws) (dir @ [n]) = Some Dir; paths_fit units (dir @ [n]) ws;
      \<forall>(p, x) \<in> set (tree ws). prefix (dir @ [n]) p \<longrightarrow> length p < depth\<rbrakk> \<Longrightarrow>
      win32_delete_directory_by_wide_path units fuel (dir @ [n]) ws = Some (True, win_without [dir @ [n]] ws)"
    and "\<forall>(p, x) \<in> set (tree ws). prefix dir p \<longrightarrow> length p < depth"
    and "\<forall>n \<in> set ns. attr n = (map_of (tree ws) (dir @ [n]) = Some Dir, dir @ [n] \<in> set (read_only ws))"
  shows "win32_delete_children units fuel dir (map (\<lambda>n. (n, attr n)) ns) (True, ws) =
    Some (True, win_without (map (\<lambda>n. dir @ [n]) ns) ws)"
  using assms(1-5,7,8)
proof (induction ns arbitrary: ws)
  case (Cons n ns)
  obtain x where x: "map_of (tree ws) (dir @ [n]) = Some x" using Cons.prems(4) by auto
  have wf: "well_formed (tree ws)" using Cons.prems(1) by (simp add: win_ok_def)
  have n: "n \<noteq> ''.''" "n \<noteq> ''..''"
    using well_formed_parent [OF wf x] by (auto simp: name_ok_def)
  let ?ws = "win_without [dir @ [n]] ws"
  have rest: "win32_delete_children units fuel dir (map (\<lambda>n. (n, attr n)) ns) (True, ?ws) =
      Some (True, win_without (map (\<lambda>n. dir @ [n]) ns) ?ws)"
  proof (rule Cons.IH)
    show "win_ok ?ws" "paths_fit units dir ?ws"
      using Cons.prems(1,3) by (simp_all add: win_ok_without paths_fit_without)
    show "map_of (tree ?ws) dir = Some Dir" "\<forall>m \<in> set ns. map_of (tree ?ws) (dir @ [m]) \<noteq> None"
      "\<forall>m \<in> set ns. attr m = (map_of (tree ?ws) (dir @ [m]) = Some Dir, dir @ [m] \<in> set (read_only ?ws))"
      using Cons.prems(2,4,5,7) by (auto simp: map_of_without)
  qed (use Cons.prems(5,6) in \<open>auto simp: set_without\<close>)
  have "win32_delete_children units fuel dir (map (\<lambda>n. (n, attr n)) (n # ns)) (True, ws) =
      win32_delete_children units fuel dir (map (\<lambda>n. (n, attr n)) ns) (True, ?ws)"
  proof (cases "x = Dir")
    case True
    have "\<forall>(p, y) \<in> set (tree ws). prefix (dir @ [n]) p \<longrightarrow> length p < depth"
      using Cons.prems(6) append_prefixD by fastforce
    then show ?thesis
      using dirs [OF Cons.prems(1) _ paths_fit_deeper [OF Cons.prems(3)]] x n True Cons.prems(7) by simp
  next
    case False
    then show ?thesis
      using delete_file_plain [OF Cons.prems(1) x False] x n Cons.prems(7) by simp
  qed
  with rest show ?case by (simp add: win_without_without)
qed simp

lemma win32_delete_directory_plain:
  assumes "win_ok ws" and "map_of (tree ws) dir = Some Dir" and "dir \<noteq> []" and "paths_fit units dir ws"
    and "\<forall>(p, x) \<in> set (tree ws). prefix dir p \<longrightarrow> length p < length dir + fuel"
  shows "win32_delete_directory_by_wide_path units fuel dir ws = Some (True, win_without [dir] ws)"
  using assms
proof (induction fuel arbitrary: dir ws)
  case 0
  then show ?case by (force dest: map_of_SomeD)
next
  case (Suc fuel)
  have wf: "well_formed (tree ws)" using Suc.prems(1) by (simp add: win_ok_def)
  let ?ns = "names_in (tree ws) dir"
  let ?attr = "\<lambda>n. (map_of (tree ws) (dir @ [n]) = Some Dir, dir @ [n] \<in> set (read_only ws))"
  let ?ws = "win_without (map (\<lambda>n. dir @ [n]) ?ns) ws"
  have children: "win32_delete_children units fuel dir (map (\<lambda>n. (n, ?attr n)) ?ns) (True, ws) = Some (True, ?ws)"
  proof (rule win32_delete_children_plain [where depth = "length dir + Suc fuel"])
    show "\<forall>n \<in> set ?ns. map_of (tree ws) (dir @ [n]) \<noteq> None" "distinct ?ns"
      using names_in_iff [OF wf] distinct_names_in [OF wf] by auto
    show "win32_delete_directory_by_wide_path units fuel (dir @ [n]) ws = Some (True, win_without [dir @ [n]] ws)"
      if "win_ok ws" "map_of (tree ws) (dir @ [n]) = Some Dir" "paths_fit units (dir @ [n]) ws"
        "\<forall>(p, x) \<in> set (tree ws). prefix (dir @ [n]) p \<longrightarrow> length p < length dir + Suc fuel" for ws n
      using Suc.IH [OF that(1,2) _ that(3)] that(4) by simp
  qed (use Suc.prems in auto)
  have ok: "win_ok ?ws" using Suc.prems(1) by (auto intro!: win_ok_without)
  have none: "map_of (tree ?ws) (dir @ [n]) = None" for n
    using names_in_iff [OF wf] by (auto simp: map_of_without)
  then have "n \<notin> set (names_in (tree ?ws) dir)" for n
    using names_in_iff [of "tree ?ws" n dir] ok by (simp add: win_ok_def)
  then have "names_in (tree ?ws) dir = []" by (metis ex_in_conv set_empty)
  moreover have "map_of (tree ?ws) dir = Some Dir" using Suc.prems(2) by (auto simp: map_of_without)
  ultimately have "remove_directory_w ?ws dir = Some (win_without [dir] ?ws)"
    using Suc.prems(3) leaf_without [OF ok none] by (simp add: remove_directory_w_def)
  moreover have "win_without [dir] ?ws = win_without [dir] ws"
    by (auto simp: win_without_def without_children [OF wf] intro!: filter_cong dest: append_prefixD)
  moreover have "units dir + 2 < MAX_PATH_LEN"
    using Suc.prems(2,4) by (auto simp: paths_fit_def list_all_iff dest: map_of_SomeD)
  ultimately show ?case
    using children Suc.prems(2) by (simp add: find_files_def)
qed

text \<open>A directory with a read-only file, as git makes them.\<close>

definition sample_ws :: win_fs where
  "sample_ws = \<lparr>tree = [([], Dir), ([''hw''], Dir), ([''hw'', ''.git''], Dir), ([''hw'', ''.git'', ''pack''], Regular ''x''),
      ([''keep''], Regular ''y'')],
    read_only = [[''hw'', ''.git'', ''pack''], [''keep'']]\<rparr>"

text \<open>C33: \<open>win32_delete_directory\<close> does to the tree what \<open>linux_delete_directory\<close> does: it removes exactly the
  directory and what is in it, the read-only files as well, and keeps every other entry with its
  attribute.\<close>

theorem win32_delete_like_linux:
  assumes "well_formed (tree ws)" and "list_all (\<lambda>p. map_of (tree ws) p \<noteq> None) (read_only ws)"
    and "no_links (tree ws) dir" and "map_of (tree ws) dir = Some Dir" and "dir \<noteq> []"
    and "list_all (\<lambda>(p, x). prefix dir p \<longrightarrow> units p + 2 < MAX_PATH_LEN) (tree ws)"
    and "\<forall>(p, x) \<in> set (tree ws). prefix dir p \<longrightarrow> length p < length dir + fuel"
  shows "\<exists>ws'. win32_delete_directory units fuel dir ws = Some (True, ws') \<and>
    linux_delete_directory fuel dir (tree ws) = Some (True, tree ws') \<and>
    (\<forall>p. map_of (tree ws') p = (if prefix dir p then None else map_of (tree ws) p)) \<and>
    read_only ws' = filter (\<lambda>p. \<not> prefix dir p) (read_only ws)"
proof -
  have ok: "win_ok ws" and fit: "paths_fit units dir ws"
    using assms(1,2,6) by (simp_all add: win_ok_def paths_fit_def)
  have "converts units dir"
    using assms(4,6) by (auto simp: converts_def list_all_iff dest: map_of_SomeD)
  then have "win32_delete_directory units fuel dir ws = Some (True, win_without [dir] ws)"
    using win32_delete_directory_plain [OF ok assms(4,5) fit assms(7)] by (simp add: win32_delete_directory_def)
  then show ?thesis
    using delete_directory_plain [OF assms(1,3,4,5,7)] by (simp add: map_of_without)
qed

theorem win32_delete_like_linux_witness:
  "\<exists>ws'. win32_delete_directory length 3 [''hw''] sample_ws = Some (True, ws') \<and>
    linux_delete_directory 3 [''hw''] (tree sample_ws) = Some (True, tree ws') \<and>
    (\<forall>p. map_of (tree ws') p = (if prefix [''hw''] p then None else map_of (tree sample_ws) p)) \<and>
    read_only ws' = filter (\<lambda>p. \<not> prefix [''hw''] p) (read_only sample_ws)"
  by (rule win32_delete_like_linux)
    (simp_all add: sample_ws_def well_formed_def name_ok_def no_links_def MAX_PATH_LEN_def)

end
