(* ===== verification/Win32CopySpec.thy ===== *)
theory Win32CopySpec imports Win32Fs begin

text \<open>
  \<open>win32_copy_directory\<close> makes the same tree as \<open>linux_copy_directory\<close>; a read-only file stays read-only in
  the copy, and directories lose the attribute.
\<close>

definition copied_attr :: "win_fs \<Rightarrow> path \<Rightarrow> bool" where
  "copied_attr ws p \<longleftrightarrow> p \<in> set (read_only ws) \<and> map_of (tree ws) p \<noteq> Some Dir"

definition win_copied :: "win_fs \<Rightarrow> path \<Rightarrow> path \<Rightarrow> win_fs \<Rightarrow> bool" where
  "win_copied ws target source ws' \<longleftrightarrow> win_ok ws' \<and> copied (tree ws) target source (tree ws') \<and>
     (\<forall>p. p \<in> set (read_only ws') \<longleftrightarrow>
        (if prefix target p then copied_attr ws (source @ drop (length target) p) else p \<in> set (read_only ws)))"

definition win_half :: "win_fs \<Rightarrow> path \<Rightarrow> path \<Rightarrow> string set \<Rightarrow> win_fs \<Rightarrow> bool" where
  "win_half ws target source ns ws' \<longleftrightarrow> win_ok ws' \<and> half_copied (tree ws) target source ns (tree ws') \<and>
     (\<forall>p. p \<in> set (read_only ws') \<longleftrightarrow>
        (if prefix target p then (\<exists>n \<in> ns. prefix (target @ [n]) p) \<and> copied_attr ws (source @ drop (length target) p)
         else p \<in> set (read_only ws)))"

definition source_fits :: "(path \<Rightarrow> nat) \<Rightarrow> path \<Rightarrow> win_fs \<Rightarrow> bool" where
  "source_fits units source ws \<longleftrightarrow> (\<forall>p. map_of (tree ws) p \<noteq> None \<longrightarrow> prefix source p \<longrightarrow> units p + 2 < MAX_PATH_LEN)"

lemma win_half_next:
  assumes "copyable (tree ws) target source" and half: "win_half ws target source ns ws1"
    and n: "n \<notin> ns" "map_of (tree ws) (source @ [n]) = Some x" and ok: "win_ok ws2"
    and tree: "\<And>p. map_of (tree ws2) p =
      (if prefix (target @ [n]) p then map_of (tree ws) (source @ drop (length target) p) else map_of (tree ws1) p)"
    and attr: "\<And>p. p \<in> set (read_only ws2) \<longleftrightarrow>
      (if prefix (target @ [n]) p then copied_attr ws (source @ drop (length target) p) else p \<in> set (read_only ws1))"
  shows "win_half ws target source (insert n ns) ws2"
proof -
  have "half_copied (tree ws) target source (insert n ns) (tree ws2)"
    using half ok tree by (intro half_copied_next [OF assms(1) _ n]) (simp_all add: win_half_def win_ok_def)
  moreover have "p \<in> set (read_only ws2) \<longleftrightarrow>
      (if prefix target p then (\<exists>m \<in> insert n ns. prefix (target @ [m]) p) \<and> copied_attr ws (source @ drop (length target) p)
       else p \<in> set (read_only ws))" for p
    using half append_prefixD [of target "[n]" p] by (auto simp: attr win_half_def)
  ultimately show ?thesis using ok by (simp add: win_half_def)
qed

lemma copied_attr_source:
  assumes "copyable (tree ws) target source" and "win_half ws target source ns ws1" and "n \<notin> ns"
  shows "copied_attr ws1 (source @ q) \<longleftrightarrow> copied_attr ws (source @ q)"
proof -
  have "\<not> prefix target (source @ q)" using copyable_disjoint(1) [OF assms(1)] by simp
  then show ?thesis
    using assms(2) half_copied_child(3) [OF assms(1) _ assms(3), of "tree ws1" q] by (simp add: copied_attr_def win_half_def)
qed

text \<open>A file that is new at its place.\<close>

lemma copy_file_win:
  assumes "win_ok ws" and "map_of (tree ws) source = Some (Regular s)" and "map_of (tree ws) target = None"
    and "map_of (tree ws) (butlast target) = Some Dir" and "name_ok (last target)"
  shows "\<exists>ws'. copy_file_w ws source target = Some ws' \<and> win_ok ws' \<and>
    map_of (tree ws') = (map_of (tree ws))(target \<mapsto> Regular s) \<and>
    (\<forall>p. p \<in> set (read_only ws') \<longleftrightarrow> (if p = target then source \<in> set (read_only ws) else p \<in> set (read_only ws)))"
proof -
  let ?ws = "\<lparr>tree = AList.update target (Regular s) (tree ws),
    read_only = (if source \<in> set (read_only ws) then target # read_only ws else read_only ws)\<rparr>"
  have wf: "well_formed (tree ws)" using assms(1) by (simp add: win_ok_def)
  then have "map_of (tree ws) [] \<noteq> None" by (simp add: well_formed_def)
  moreover have fresh: "target \<notin> set (read_only ws)" using assms(1,3) by (auto simp: win_ok_def list_all_iff)
  ultimately have "copy_file_w ws source target = Some ?ws" using assms(2-4) by (auto simp: copy_file_w_def)
  moreover have "win_ok ?ws"
    using well_formed_insert(2) [OF wf assms(3-5), of "Regular s"] assms(1) by (auto simp: win_ok_def list_all_iff update_conv')
  ultimately show ?thesis using fresh by (intro exI [of _ ?ws]) (auto simp: update_conv')
qed

lemma win_half_facts:
  assumes "copyable (tree ws) target source" and "win_half ws target source ns ws1" and "n \<notin> ns"
  shows "win_ok ws1" and "well_formed (tree ws1)" and "half_copied (tree ws) target source ns (tree ws1)"
    and "map_of (tree ws1) (target @ [n]) = None" and "map_of (tree ws1) target = Some Dir"
    and "map_of (tree ws1) (source @ q) = map_of (tree ws) (source @ q)"
    and "no_links (tree ws1) source" and "no_links (tree ws1) target"
proof -
  show half: "half_copied (tree ws) target source ns (tree ws1)" and "win_ok ws1" and "well_formed (tree ws1)"
    using assms(2) by (simp_all add: win_half_def win_ok_def)
  show "map_of (tree ws1) (target @ [n]) = None" "map_of (tree ws1) target = Some Dir"
    "map_of (tree ws1) (source @ q) = map_of (tree ws) (source @ q)"
    using half_copied_child [OF assms(1) half assms(3)] by simp_all
  show "no_links (tree ws1) source" "no_links (tree ws1) target"
    using half_copied_links [OF assms(1) half] by simp_all
qed

lemma nothing_beneath:
  assumes "well_formed fs" and "map_of fs p \<noteq> Some Dir" and "q \<noteq> []"
  shows "map_of fs (p @ q) = None"
  using well_formed_ancestor [OF assms(1), of p q] assms(2,3) by (cases "map_of fs (p @ q)") auto

lemma copied_attr_none: "win_ok ws \<Longrightarrow> map_of (tree ws) p = None \<Longrightarrow> p \<notin> set (read_only ws)"
  by (auto simp: win_ok_def list_all_iff)

lemma win_copy_file_child:
  assumes "copyable (tree ws) target source" and half: "win_half ws target source ns ws1" and "win_ok ws" and "n \<notin> ns"
    and x: "map_of (tree ws) (source @ [n]) = Some (Regular s)" and "name_ok n"
  shows "\<exists>ws2. copy_file_w ws1 (source @ [n]) (target @ [n]) = Some ws2 \<and> win_half ws target source (insert n ns) ws2"
proof -
  note facts = win_half_facts [OF assms(1) half \<open>n \<notin> ns\<close>]
  obtain ws2 where ws2: "copy_file_w ws1 (source @ [n]) (target @ [n]) = Some ws2" "win_ok ws2"
    "map_of (tree ws2) = (map_of (tree ws1))(target @ [n] \<mapsto> Regular s)"
    "\<And>p. p \<in> set (read_only ws2) \<longleftrightarrow> (if p = target @ [n] then source @ [n] \<in> set (read_only ws1) else p \<in> set (read_only ws1))"
    using copy_file_win [OF facts(1), of "source @ [n]" s "target @ [n]"] facts(4-6) x \<open>name_ok n\<close> by auto
  have none: "map_of (tree ws) (source @ n # q) = None" "map_of (tree ws1) (target @ n # q) = None" if "q \<noteq> []" for q
    using nothing_beneath [of "tree ws" "source @ [n]" q] nothing_beneath [of "tree ws1" "target @ [n]" q]
      facts(2,4) x assms(1) that by (simp_all add: copyable_def)
  have tree: "map_of (tree ws2) p =
      (if prefix (target @ [n]) p then map_of (tree ws) (source @ drop (length target) p) else map_of (tree ws1) p)" for p
  proof (cases "prefix (target @ [n]) p")
    case True
    then obtain q where "p = target @ n # q" by (auto simp: prefix_def)
    then show ?thesis using ws2(3) none x by (cases "q = []") auto
  qed (use ws2(3) in auto)
  have attr: "p \<in> set (read_only ws2) \<longleftrightarrow>
      (if prefix (target @ [n]) p then copied_attr ws (source @ drop (length target) p) else p \<in> set (read_only ws1))" for p
  proof (cases "prefix (target @ [n]) p")
    case True
    then obtain q where q: "p = target @ n # q" by (auto simp: prefix_def)
    show ?thesis
    proof (cases "q = []")
      case True
      have "source @ [n] \<in> set (read_only ws1) \<longleftrightarrow> source @ [n] \<in> set (read_only ws)"
        using copied_attr_source [OF assms(1) half \<open>n \<notin> ns\<close>, of "[n]"] x facts(6) by (simp add: copied_attr_def)
      then show ?thesis using True q ws2(4) [of p] x by (simp add: copied_attr_def)
    next
      case False
      then show ?thesis
        using q ws2(4) [of p] copied_attr_none [OF facts(1) none(2)] copied_attr_none [OF \<open>win_ok ws\<close> none(1)]
        by (simp add: copied_attr_def)
    qed
  qed (use ws2(4) [of p] in auto)
  from win_half_next [OF assms(1) half \<open>n \<notin> ns\<close> x ws2(2) tree attr] ws2(1) show ?thesis by blast
qed

lemma win_copy_directory_child:
  assumes "copyable (tree ws) target source" and half: "win_half ws target source ns ws1" and "n \<notin> ns"
    and x: "map_of (tree ws) (source @ [n]) = Some Dir" and copy: "win_copied ws1 (target @ [n]) (source @ [n]) ws2"
  shows "win_half ws target source (insert n ns) ws2"
proof -
  note facts = win_half_facts [OF assms(1) half \<open>n \<notin> ns\<close>]
  have rest: "source @ [n] @ drop (length (target @ [n])) p = source @ drop (length target) p" if "prefix (target @ [n]) p" for p
    using that by (auto simp: prefix_def)
  have "map_of (tree ws2) p =
      (if prefix (target @ [n]) p then map_of (tree ws) (source @ drop (length target) p) else map_of (tree ws1) p)" for p
    using copy rest [of p] facts(6) [of "[n] @ drop (length (target @ [n])) p"] by (auto simp: win_copied_def copied_def)
  moreover have "p \<in> set (read_only ws2) \<longleftrightarrow>
      (if prefix (target @ [n]) p then copied_attr ws (source @ drop (length target) p) else p \<in> set (read_only ws1))" for p
    using copy rest [of p] copied_attr_source [OF assms(1) half \<open>n \<notin> ns\<close>, of "[n] @ drop (length (target @ [n])) p"]
    by (auto simp: win_copied_def)
  ultimately show ?thesis
    using win_half_next [OF assms(1) half \<open>n \<notin> ns\<close> x] copy by (simp add: win_copied_def)
qed

lemma source_fits_half:
  assumes "copyable (tree ws) target source" and "win_half ws target source ns ws1" and "source_fits units source ws"
  shows "source_fits units (source @ q) ws1"
  unfolding source_fits_def
proof (intro allI impI)
  fix p assume p: "map_of (tree ws1) p \<noteq> None" "prefix (source @ q) p"
  then have "prefix source p" using append_prefixD by blast
  then have "map_of (tree ws1) p = map_of (tree ws) p"
    using half_copied_outside copyable_disjoint(1) [OF assms(1)] assms(2) by (auto simp: win_half_def)
  then show "units p + 2 < MAX_PATH_LEN"
    using assms(3) p(1) \<open>prefix source p\<close> by (simp add: source_fits_def)
qed

lemma win32_copy_children_plain:
  assumes c: "copyable (tree ws) target source" and "win_ok ws" and "source_fits units source ws"
    and "win_half ws target source done ws1"
    and "\<forall>n \<in> set ns. map_of (tree ws) (source @ [n]) \<noteq> None" and "distinct ns" and "set ns \<inter> done = {}"
    and "\<forall>n \<in> set ns. fst (attr n) = (map_of (tree ws) (source @ [n]) = Some Dir)"
    and dirs: "\<And>ws n. \<lbrakk>copyable (tree ws) (target @ [n]) (source @ [n]); win_ok ws; source_fits units (source @ [n]) ws;
      \<forall>p x. map_of (tree ws) p = Some x \<longrightarrow> prefix (source @ [n]) p \<longrightarrow> length p < depth\<rbrakk> \<Longrightarrow>
      \<exists>ws'. win32_copy_directory_by_wide_path units fuel (target @ [n]) (source @ [n]) ws = Some (True, ws') \<and>
        win_copied ws (target @ [n]) (source @ [n]) ws'"
    and depth: "\<forall>p x. map_of (tree ws) p = Some x \<longrightarrow> prefix source p \<longrightarrow> length p < depth"
  shows "\<exists>ws2. win32_copy_children units fuel target source (map (\<lambda>n. (n, attr n)) ns) (True, ws1) = Some (True, ws2) \<and>
    win_half ws target source (done \<union> set ns) ws2"
  using assms(4-8)
proof (induction ns arbitrary: "done" ws1)
  case (Cons n ns)
  note half = Cons.prems(1)
  have fresh: "n \<notin> done" using Cons.prems(4) by simp
  obtain x where x: "map_of (tree ws) (source @ [n]) = Some x" using Cons.prems(2) by auto
  note facts = win_half_facts [OF c half fresh]
  have n: "name_ok n" "n \<noteq> ''.''" "n \<noteq> ''..''"
    using well_formed_parent [of "tree ws" source n] x c by (auto simp: copyable_def name_ok_def)
  have "\<exists>ws2. win32_copy_children units fuel target source (map (\<lambda>n. (n, attr n)) (n # ns)) (True, ws1) =
      win32_copy_children units fuel target source (map (\<lambda>n. (n, attr n)) ns) (True, ws2) \<and>
    win_half ws target source (insert n done) ws2"
  proof (cases x)
    case Dir
    have "\<not> prefix (source @ [n]) (target @ [n])"
      using c by (auto simp: copyable_def dest: append_prefixD)
    then have "copyable (tree ws1) (target @ [n]) (source @ [n])"
      using no_links_deeper [OF facts(7), of "source @ [n]"] no_links_deeper [OF facts(8), of "target @ [n]"] facts x Dir n
      by (simp add: copyable_def)
    moreover have "\<forall>p y. map_of (tree ws1) p = Some y \<longrightarrow> prefix (source @ [n]) p \<longrightarrow> length p < depth"
      using depth win_half_facts(6) [OF c half fresh] by (metis append_prefixD prefixE)
    ultimately obtain ws2 where ws2: "win32_copy_directory_by_wide_path units fuel (target @ [n]) (source @ [n]) ws1 = Some (True, ws2)"
      "win_copied ws1 (target @ [n]) (source @ [n]) ws2"
      using dirs facts(1) source_fits_half [OF c half assms(3)] by blast
    then show ?thesis
      using win_copy_directory_child [OF c half fresh _ ws2(2)] x Dir n Cons.prems(5) by (cases "attr n") auto
  next
    case (Regular s)
    then show ?thesis
      using win_copy_file_child [OF c half assms(2) fresh _ n(1)] x n Cons.prems(5) by (cases "attr n") auto
  next
    case (Link t)
    then show ?thesis using no_linksD [of "tree ws" source "source @ [n]" x] x c by (simp add: copyable_def)
  qed
  then obtain ws2 where ws2: "win32_copy_children units fuel target source (map (\<lambda>n. (n, attr n)) (n # ns)) (True, ws1) =
      win32_copy_children units fuel target source (map (\<lambda>n. (n, attr n)) ns) (True, ws2)"
    "win_half ws target source (insert n done) ws2" by blast
  have "set ns \<inter> insert n done = {}" using Cons.prems(3,4) by auto
  from Cons.IH [OF ws2(2) _ _ this] Cons.prems(2,3,5) obtain ws3
    where "win32_copy_children units fuel target source (map (\<lambda>n. (n, attr n)) ns) (True, ws2) = Some (True, ws3)"
      "win_half ws target source (insert n done \<union> set ns) ws3"
    by auto
  then show ?case unfolding ws2(1) by (intro exI [of _ ws3]) simp
qed simp

lemma create_directory_plain:
  assumes "win_ok ws" and c: "copyable (tree ws) target source"
  shows "\<exists>ws1. create_directory_w ws target = Some ws1 \<and> win_half ws target source {} ws1"
proof -
  let ?ws = "ws\<lparr>tree := (target, Dir) # tree ws\<rparr>"
  note c' = c [unfolded copyable_def]
  have wf: "well_formed ((target, Dir) # tree ws)"
    using well_formed_insert(1) [of "tree ws" target Dir] c' by simp
  have none: "map_of (tree ws) (target @ [n] @ q) = None" for n q
    using nothing_beneath [of "tree ws" target "[n] @ q"] c' by simp
  have "half_copied (tree ws) target source {} ((target, Dir) # tree ws)"
    using wf by (simp add: half_copied_def)
  moreover have "p \<notin> set (read_only ws)" if target: "prefix target p" for p
  proof -
    obtain q where "p = target @ q" using target by (auto simp: prefix_def)
    then have "map_of (tree ws) p = None" using none c' by (cases q) auto
    then show ?thesis by (rule copied_attr_none [OF assms(1)])
  qed
  moreover have "win_ok ?ws"
    using assms(1) wf by (auto simp: win_ok_def list_all_iff)
  ultimately have "win_half ws target source {} ?ws" by (auto simp: win_half_def)
  then show ?thesis using c' by (simp add: create_directory_w_def)
qed

lemma win_half_copied:
  assumes c: "copyable (tree ws) target source" and "win_ok ws" and half: "win_half ws target source ns ws'"
    and ns: "\<And>n. n \<in> ns \<longleftrightarrow> map_of (tree ws) (source @ [n]) \<noteq> None"
  shows "win_copied ws target source ws'"
proof -
  note c' = c [unfolded copyable_def]
  have absent: "map_of (tree ws) (source @ n # q) = None" if "n \<notin> ns" for n q
    using ns [of n] that nothing_beneath [of "tree ws" "source @ [n]" q] c' by (cases "q = []") auto
  have beneath: "p = target \<or> (\<exists>n q. p = target @ n # q)" if "prefix target p" for p
    using that by (metis append_Nil2 list.exhaust prefixE)
  have tree: "map_of (tree ws') p = (if prefix target p then map_of (tree ws) (source @ drop (length target) p) else map_of (tree ws) p)" for p
  proof (cases "prefix target p")
    case True
    then consider "p = target" | n q where "p = target @ n # q" using beneath by blast
    then show ?thesis
    proof cases
      case (2 n q)
      have outside: "map_of (tree ws) (target @ n # q) = None"
        using nothing_beneath [of "tree ws" target "n # q"] c' by simp
      show ?thesis using half 2 absent [of n q] outside by (auto simp: win_half_def half_copied_def)
    qed (use half c' in \<open>simp add: win_half_def half_copied_def\<close>)
  next
    case False
    then show ?thesis using half half_copied_outside by (auto simp: win_half_def)
  qed
  have attr: "p \<in> set (read_only ws') \<longleftrightarrow>
      (if prefix target p then copied_attr ws (source @ drop (length target) p) else p \<in> set (read_only ws))" for p
  proof (cases "prefix target p")
    case True
    then consider "p = target" | n q where "p = target @ n # q" using beneath by blast
    then show ?thesis
    proof cases
      case 1
      then show ?thesis using half c' by (simp add: win_half_def copied_attr_def)
    next
      case (2 n q)
      then show ?thesis
        using half absent [of n q] copied_attr_none [OF assms(2) absent, of n q] by (auto simp: win_half_def copied_attr_def)
    qed
  qed (use half in \<open>simp add: win_half_def\<close>)
  have "well_formed (tree ws')" "win_ok ws'" using half by (simp_all add: win_half_def win_ok_def)
  then show ?thesis using tree attr by (simp add: win_copied_def copied_def)
qed

lemma win32_copy_directory_plain:
  assumes "copyable (tree ws) target source" and "win_ok ws" and "source_fits units source ws"
    and "\<forall>p x. map_of (tree ws) p = Some x \<longrightarrow> prefix source p \<longrightarrow> length p < length source + fuel"
  shows "\<exists>ws'. win32_copy_directory_by_wide_path units fuel target source ws = Some (True, ws') \<and> win_copied ws target source ws'"
  using assms
proof (induction fuel arbitrary: target source ws)
  case 0
  then show ?case by (auto simp: copyable_def)
next
  case (Suc fuel)
  note c = Suc.prems(1)
  obtain ws1 where ws1: "create_directory_w ws target = Some ws1" "win_half ws target source {} ws1"
    using create_directory_plain [OF Suc.prems(2) c] by blast
  note facts = win_half_facts [OF c ws1(2)]
  have source: "map_of (tree ws1) source = Some Dir" using facts(6) [of _ "[]"] c by (simp add: copyable_def)
  have same: "map_of (tree ws1) (source @ [n]) = map_of (tree ws) (source @ [n])" for n using facts(6) by simp
  let ?ns = "names_in (tree ws1) source"
  have ns: "n \<in> set ?ns \<longleftrightarrow> map_of (tree ws) (source @ [n]) \<noteq> None" for n
    using names_in_iff [OF facts(2)] same by simp
  let ?attr = "\<lambda>n. (map_of (tree ws1) (source @ [n]) = Some Dir, source @ [n] \<in> set (read_only ws1))"
  have "\<exists>ws2. win32_copy_children units fuel target source (map (\<lambda>n. (n, ?attr n)) ?ns) (True, ws1) = Some (True, ws2) \<and>
      win_half ws target source ({} \<union> set ?ns) ws2"
  proof (rule win32_copy_children_plain [OF c Suc.prems(2,3) ws1(2), where depth = "length source + Suc fuel"])
    show "\<exists>ws'. win32_copy_directory_by_wide_path units fuel (target @ [n]) (source @ [n]) ws = Some (True, ws') \<and>
        win_copied ws (target @ [n]) (source @ [n]) ws'"
      if "copyable (tree ws) (target @ [n]) (source @ [n])" "win_ok ws" "source_fits units (source @ [n]) ws"
        "\<forall>p x. map_of (tree ws) p = Some x \<longrightarrow> prefix (source @ [n]) p \<longrightarrow> length p < length source + Suc fuel" for ws n
      using Suc.IH [OF that(1-3)] that(4) by simp
  qed (use ns same facts(2) Suc.prems(4) in \<open>auto intro: distinct_names_in\<close>)
  then obtain ws2 where ws2: "win32_copy_children units fuel target source (map (\<lambda>n. (n, ?attr n)) ?ns) (True, ws1) = Some (True, ws2)"
    "win_half ws target source (set ?ns) ws2" by auto
  have "win_copied ws target source ws2" by (rule win_half_copied [OF c Suc.prems(2) ws2(2) ns])
  moreover have "units source + 2 < MAX_PATH_LEN"
    using Suc.prems(3) c by (auto simp: source_fits_def copyable_def)
  ultimately show ?case
    using ws1(1) ws2(1) source by (simp add: find_files_def)
qed

text \<open>C34: \<open>win32_copy_directory\<close> makes the same tree as \<open>linux_copy_directory\<close>: the target has every file and
  directory of the source with its content and everything else stays; a file is read-only in the
  copy if and only if it is in the source, and no directory of the copy is.\<close>

theorem win32_copy_like_linux:
  assumes "well_formed (tree ws)" and "list_all (\<lambda>p. map_of (tree ws) p \<noteq> None) (read_only ws)"
    and "no_links (tree ws) source" and "map_of (tree ws) source = Some Dir"
    and "no_links (tree ws) target" and "target \<noteq> []" and "map_of (tree ws) (butlast target) = Some Dir"
    and "name_ok (last target)" and "map_of (tree ws) target = None" and "\<not> prefix source target"
    and "units target < MAX_PATH_LEN"
    and "\<forall>(p, x) \<in> set (tree ws). prefix source p \<longrightarrow> units p + 2 < MAX_PATH_LEN \<and> length p < length source + fuel"
  shows "\<exists>ws' fs'. win32_copy_directory units fuel target source ws = Some (True, ws') \<and>
    linux_copy_directory fuel target source (tree ws) = Some (True, fs') \<and> map_of (tree ws') = map_of fs' \<and>
    (\<forall>p. map_of fs' p = (if prefix target p then map_of (tree ws) (source @ drop (length target) p) else map_of (tree ws) p)) \<and>
    (\<forall>p. p \<in> set (read_only ws') \<longleftrightarrow>
      (if prefix target p then source @ drop (length target) p \<in> set (read_only ws) \<and>
         map_of (tree ws) (source @ drop (length target) p) \<noteq> Some Dir
       else p \<in> set (read_only ws)))"
proof -
  have c: "copyable (tree ws) target source" and ok: "win_ok ws" using assms by (simp_all add: copyable_def win_ok_def)
  have found: "\<And>p x. map_of (tree ws) p = Some x \<Longrightarrow> (p, x) \<in> set (tree ws)" by (rule map_of_SomeD)
  have depth: "\<forall>p x. map_of (tree ws) p = Some x \<longrightarrow> prefix source p \<longrightarrow> length p < length source + fuel"
    and fits: "source_fits units source ws"
    using assms(12) found by (fastforce simp: source_fits_def)+
  obtain ws' where ws': "win32_copy_directory_by_wide_path units fuel target source ws = Some (True, ws')" "win_copied ws target source ws'"
    using win32_copy_directory_plain [OF c ok fits depth] by blast
  obtain fs' where fs': "linux_copy_directory fuel target source (tree ws) = Some (True, fs')" "copied (tree ws) target source fs'"
    using copy_directory_plain [OF c depth] by blast
  have "converts units source" "converts units target"
    using fits assms(4,11) by (auto simp: converts_def source_fits_def)
  moreover have "map_of (tree ws') = map_of fs'"
    using ws'(2) fs'(2) by (intro ext) (simp add: win_copied_def copied_def)
  ultimately show ?thesis
    using ws' fs' by (simp add: win32_copy_directory_def win_copied_def copied_attr_def copied_def)
qed

theorem win32_copy_like_linux_witness:
  "\<exists>ws' fs'. win32_copy_directory length 3 [''copy''] [''hw''] sample_ws = Some (True, ws') \<and>
    linux_copy_directory 3 [''copy''] [''hw''] (tree sample_ws) = Some (True, fs') \<and> map_of (tree ws') = map_of fs' \<and>
    (\<forall>p. map_of fs' p = (if prefix [''copy''] p then map_of (tree sample_ws) ([''hw''] @ drop (length [''copy'']) p)
      else map_of (tree sample_ws) p)) \<and>
    (\<forall>p. p \<in> set (read_only ws') \<longleftrightarrow>
      (if prefix [''copy''] p then [''hw''] @ drop (length [''copy'']) p \<in> set (read_only sample_ws) \<and>
         map_of (tree sample_ws) ([''hw''] @ drop (length [''copy'']) p) \<noteq> Some Dir
       else p \<in> set (read_only sample_ws)))"
  by (rule win32_copy_like_linux)
    (simp_all add: sample_ws_def well_formed_def name_ok_def no_links_def MAX_PATH_LEN_def)

end
