(* ===== verification/RootDir.thy ===== *)
theory RootDir imports GitRepo begin

text \<open>
  Where the program keeps its files (\<open>linux_get_root_dir\<close> and \<open>linux_init_platform\<close> in
  \<open>code/linux_main.c\<close>, \<open>win32_get_root_dir\<close> in \<open>code/win32_main.c\<close>): the directory of the executable. The answer of
  \<open>readlink\<close> or \<open>GetModuleFileNameW\<close> is a parameter, cut off at the size of the buffer.
\<close>

text \<open>The loop of both functions: back to the last separator, to 0 if there is none.\<close>

fun directory_length :: "char \<Rightarrow> string \<Rightarrow> nat \<Rightarrow> nat" where
  "directory_length separator full_path 0 = 0"
| "directory_length separator full_path (Suc dir_len) =
     (if full_path ! dir_len = separator then dir_len else directory_length separator full_path dir_len)"

text \<open>\<open>link\<close>: what \<open>/proc/self/exe\<close> leads to, \<open>None\<close> when \<open>readlink\<close> fails.\<close>

definition linux_get_root_dir :: "string option \<Rightarrow> nat \<Rightarrow> string option" where
  "linux_get_root_dir link room =
     (case link of
        None \<Rightarrow> None
      | Some link \<Rightarrow>
          let full_path = take MAX_PATH_LEN link; len = length full_path
          in if len < MAX_PATH_LEN
             then let dir_len = directory_length CHR ''/'' full_path len
                  in if 0 < dir_len \<and> dir_len < room then Some (take dir_len full_path) else None
             else None)"

text \<open>\<open>to_utf8 s n\<close>: the conversion to UTF-8 into \<open>n\<close> bytes, \<open>None\<close> when it fails; the empty name stands for a
  failure of \<open>GetModuleFileNameW\<close>.\<close>

definition win32_get_root_dir :: "(string \<Rightarrow> nat \<Rightarrow> string option) \<Rightarrow> string \<Rightarrow> nat \<Rightarrow> string option" where
  "win32_get_root_dir to_utf8 module_name room =
     (let full_path = take MAX_PATH_LEN module_name; len = length full_path
      in if len < MAX_PATH_LEN
         then let result_len = directory_length (char_of (92 :: nat)) full_path len
              in if 0 < result_len then to_utf8 (take result_len full_path) room else None
         else None)"

text \<open>The root, cache and log directories; \<open>None\<close> when the platform cannot be set up.\<close>

definition linux_init_platform :: "string option \<Rightarrow> ('e, (string \<times> string \<times> string) option) prog" where
  "linux_init_platform link =
     (case linux_get_root_dir link MAX_PATH_LEN of
        None \<Rightarrow> pure None
      | Some root \<Rightarrow>
          bd (format_string MAX_PATH_LEN (root @ ''/cache'')) (\<lambda>cache.
          bd (format_string MAX_PATH_LEN (root @ ''/log'')) (\<lambda>log.
          pure (Some (root, cache, log)))))"

lemma directory_length_last:
  "separator \<notin> set name \<Longrightarrow> directory_length separator (dir @ [separator] @ name) (length dir + Suc (length name)) = length dir"
proof (induction name rule: rev_induct)
  case (snoc c name)
  have cut: "n \<le> length xs \<Longrightarrow> directory_length separator (xs @ ys) n = directory_length separator xs n" for xs ys n
    by (induction n) (auto simp: nth_append)
  show ?case
    using snoc cut [of "length dir + Suc (length name)" "dir @ [separator] @ name" "[c]"]
    by (auto simp: nth_append)
qed simp

lemma directory_length_none: "separator \<notin> set path \<Longrightarrow> n \<le> length path \<Longrightarrow> directory_length separator path n = 0"
  by (induction n) (auto simp: in_set_conv_nth)

text \<open>The directories lie beside the executable: for \<open>dir/name\<close> the root is \<open>dir\<close>, with \<open>cache\<close> and \<open>log\<close> under
  it. An executable in the root of the file system has no such directory, and the program then ends
  without a word.\<close>

lemma init_platform_directories:
  assumes "CHR ''/'' \<notin> set name" and "length dir + Suc (length name) < MAX_PATH_LEN" and "length dir + 6 < MAX_PATH_LEN"
  shows "linux_init_platform (Some (dir @ ''/'' @ name)) =
    (pure (if dir = [] then None else Some (dir, dir @ ''/cache'', dir @ ''/log'')) ::
      ('e, (string \<times> string \<times> string) option) prog)"
  using assms directory_length_last [of "CHR ''/''" name dir]
  by (simp add: linux_init_platform_def linux_get_root_dir_def fun_eq_iff)

lemma init_platform_directories_example:
  "\<forall>e h. linux_init_platform (Some ''/opt/hand/hand'') e h =
     (Done (Some (''/opt/hand'', ''/opt/hand/cache'', ''/opt/hand/log'')), h :: history) \<and>
   linux_init_platform (Some ''/hand'') (e :: nat) h = (Done None, h)"
  using init_platform_directories [of "''hand''" "''/opt/hand''", where 'e = nat] init_platform_directories [of "''hand''" "[]", where 'e = nat]
  by (simp add: MAX_PATH_LEN_def)

end
