(* ===== verification/Startup.thy ===== *)
theory Startup imports RunHand RootDir begin



subsection \<open>The tables\<close>

definition linux_curl_functions :: "string list" where
  "linux_curl_functions =
    [''curl_easy_cleanup'', ''curl_easy_getinfo'', ''curl_easy_init'', ''curl_easy_setopt'', ''curl_easy_strerror'',
     ''curl_global_cleanup'', ''curl_global_init'', ''curl_multi_add_handle'', ''curl_multi_cleanup'',
     ''curl_multi_info_read'', ''curl_multi_init'', ''curl_multi_perform'', ''curl_multi_poll'',
     ''curl_multi_remove_handle'', ''curl_multi_strerror'', ''curl_slist_append'', ''curl_slist_free_all'']"

definition linux_git_functions :: "string list" where
  "linux_git_functions =
    [''git_oid_tostr'', ''git_commit_message'', ''git_reference_name'', ''git_blob_rawcontent'', ''git_commit_id'',
     ''git_tree_entry_id'', ''git_commit_author'', ''git_commit_committer'', ''git_blob_create_from_buffer'',
     ''git_blob_lookup'', ''git_branch_create'', ''git_branch_delete'', ''git_branch_iterator_new'',
     ''git_branch_name'', ''git_branch_next'', ''git_branch_remote_name'', ''git_branch_set_upstream'',
     ''git_branch_upstream'', ''git_clone'', ''git_commit_create'', ''git_commit_lookup'', ''git_commit_parent'',
     ''git_commit_tree'', ''git_credential_default_new'', ''git_credential_username_new'',
     ''git_credential_userpass_plaintext_new'', ''git_diff_tree_to_tree'', ''git_index_add_all'',
     ''git_index_write_tree'', ''git_libgit2_init'', ''git_libgit2_opts'', ''git_libgit2_shutdown'', ''git_oid_cmp'',
     ''git_oid_fromstrn'', ''git_reference_is_branch'', ''git_reference_is_remote'', ''git_reference_lookup'',
     ''git_reference_name_to_id'', ''git_reference_peel'', ''git_remote_create'', ''git_remote_fetch'',
     ''git_remote_lookup'', ''git_remote_prune'', ''git_remote_push'', ''git_repository_index'',
     ''git_repository_head'', ''git_repository_open'', ''git_reset'', ''git_revwalk_hide'', ''git_revwalk_new'',
     ''git_revwalk_next'', ''git_revwalk_push'', ''git_revwalk_push_head'', ''git_revwalk_sorting'',
     ''git_signature_new'', ''git_treebuilder_new'', ''git_treebuilder_write'', ''git_tree_lookup'',
     ''git_tree_walk'', ''git_diff_num_deltas'', ''git_commit_parentcount'', ''git_branch_iterator_free'',
     ''git_commit_free'', ''git_diff_free'', ''git_reference_free'', ''git_remote_free'', ''git_repository_free'',
     ''git_revwalk_free'', ''git_treebuilder_free'', ''git_tree_free'', ''git_signature_dup'',
     ''git_signature_free'', ''git_signature_now'', ''git_error_last'', ''git_blob_rawsize'', ''git_tree_entry_type'']"



text \<open>The functions that \<open>hand_curl.c\<close> and \<open>hand_git2.c\<close> call.\<close>

definition hand_curl_calls :: "string list" where
  "hand_curl_calls =
    [''curl_easy_cleanup'', ''curl_easy_getinfo'', ''curl_easy_init'', ''curl_easy_setopt'', ''curl_easy_strerror'',
     ''curl_multi_add_handle'', ''curl_multi_cleanup'', ''curl_multi_info_read'', ''curl_multi_init'',
     ''curl_multi_perform'', ''curl_multi_poll'', ''curl_multi_remove_handle'', ''curl_multi_strerror'',
     ''curl_slist_append'', ''curl_slist_free_all'']"

definition hand_git_calls :: "string list" where
  "hand_git_calls =
    [''git_branch_remote_name'', ''git_branch_upstream'', ''git_clone'', ''git_commit_create'', ''git_commit_free'',
     ''git_commit_lookup'', ''git_credential_default_new'', ''git_credential_username_new'',
     ''git_credential_userpass_plaintext_new'', ''git_error_last'', ''git_index_add_all'', ''git_index_write_tree'',
     ''git_oid_fromstrn'', ''git_reference_is_branch'', ''git_reference_is_remote'', ''git_reference_name'',
     ''git_reference_peel'', ''git_remote_lookup'', ''git_remote_push'', ''git_repository_free'',
     ''git_repository_head'', ''git_repository_index'', ''git_repository_open'', ''git_reset'',
     ''git_signature_dup'', ''git_signature_now'', ''git_tree_lookup'']"



subsection \<open>Initialisation\<close>










subsection \<open>main\<close>






text \<open>The microseconds \<open>linux_sleep\<close> asks of \<open>usleep\<close>: the product is an \<open>unsigned int\<close>.\<close>

definition linux_sleep :: "32 word \<Rightarrow> 32 word" where
  "linux_sleep milliseconds = milliseconds * 1000"

text \<open>\<open>win32_sleep\<close> hands the milliseconds on.\<close>

definition win32_sleep :: "32 word \<Rightarrow> 32 word" where
  "win32_sleep milliseconds = milliseconds"

lemma linux_sleep_exact:
  "unat milliseconds < 4294968 \<Longrightarrow> unat (linux_sleep milliseconds) = unat milliseconds * 1000"
  "linux_sleep 4294968 = 704"
  by (simp_all add: linux_sleep_def unat_word_ariths)

subsection \<open>What main does\<close>



lemma calls_are_loaded:
  "set hand_curl_calls \<subseteq> set linux_curl_functions" "set hand_git_calls \<subseteq> set linux_git_functions"
  by (simp_all add: hand_curl_calls_def linux_curl_functions_def hand_git_calls_def linux_git_functions_def)









text \<open>Nothing but messages.\<close>

definition only_messages :: "history \<Rightarrow> 'a outcome \<times> history \<Rightarrow> bool" where
  "only_messages h result \<longleftrightarrow> (\<exists>messages. snd result = h @ map ErrorMsg messages)"

lemma only_messages_self [intro]: "only_messages h (r, h)"
  unfolding only_messages_def by (rule exI [of _ "[]"]) simp

lemma only_messages_one [intro]: "only_messages h (r, h @ [ErrorMsg s])"
  unfolding only_messages_def by (rule exI [of _ "[s]"]) simp









subsection \<open>Properties\<close>




end
