(* ===== verification/SheetSpec.thy ===== *)
theory SheetSpec imports SheetApi begin

text \<open>
  The sheet that \<open>retrieve_sheet\<close> builds as a table: the cells of the response, each row filled with
  empty strings, are found again by \<open>get_value\<close>, and \<open>find_label\<close> gives the first column with a
  label. The escaping of the sheet's name can be undone.
\<close>

subsection \<open>The table of a response\<close>

text \<open>The text at column \<open>x\<close> of row \<open>r\<close> (row 0 has the labels).\<close>

definition cell :: "cJSON list \<Rightarrow> nat \<Rightarrow> nat \<Rightarrow> string" where
  "cell rows r x =
     (let cells = cJSON_children (Some (rows ! r)) in if x < length cells then cell_text (cells ! x) else [])"

definition table_width :: "cJSON list \<Rightarrow> nat" where
  "table_width rows = fold max (map (\<lambda>row. length (cJSON_children (Some row))) rows) 0"

definition row_cells :: "nat \<Rightarrow> cJSON list \<Rightarrow> nat \<Rightarrow> string list" where
  "row_cells width rows r = map (cell rows r) [0..<width]"

text \<open>The sizes are \<open>int\<close>s.\<close>

definition table_fits :: "cJSON list \<Rightarrow> bool" where
  "table_fits rows \<longleftrightarrow> int (length rows) < 2 ^ 31 \<and> (\<forall>row \<in> set rows. int (length (cJSON_children (Some row))) < 2 ^ 31) \<and>
     int (table_width rows) * (int (length rows) - 1) < 2 ^ 31"

lemma fold_max_ge: "(n::nat) \<le> fold max ns n" "m \<in> set ns \<Longrightarrow> m \<le> fold max ns n"
proof -
  show ge: "n \<le> fold max ns n" for n :: nat and ns
    by (induction ns arbitrary: n) (auto intro: order.trans [OF max.cobounded2])
  show "m \<in> set ns \<Longrightarrow> m \<le> fold max ns n"
  proof (induction ns arbitrary: n)
    case (Cons k ns)
    then show ?case using ge [of "max k n" ns] by (cases "m = k") auto
  qed simp
qed

lemma rows_width_table:
  assumes "\<forall>row \<in> set rows. int (length (cJSON_children (Some row))) < 2 ^ 31"
  shows "rows_width rows = int (table_width rows)"
proof -
  have "foldl (\<lambda>width row. max width (cJSON_GetArraySize (Some row))) (int n) rows =
      int (fold max (map (\<lambda>row. length (cJSON_children (Some row))) rows) n)" for n
    using assms
  proof (induction rows arbitrary: n)
    case (Cons row rows)
    then have "max (int n) (cJSON_GetArraySize (Some row)) = int (max (length (cJSON_children (Some row))) n)"
      by (simp add: cJSON_GetArraySize_def to_int32_id)
    with Cons show ?case by simp
  qed simp
  from this [of 0] show ?thesis by (simp add: rows_width_def table_width_def)
qed

lemma cell_text_NUL: "NUL \<notin> set (cell_text c)"
  using cstr_no_NUL by (auto simp: cell_text_def string_value_def split: option.splits)

text \<open>Strings written one after the other, each with its NUL, are read back.\<close>

lemma walk_strings_written:
  "\<forall>s \<in> set ss. NUL \<notin> set s \<Longrightarrow> walk_strings (length ss) (concat (map (\<lambda>s. s @ [NUL]) ss) @ rest) = (ss, rest)"
proof (induction ss)
  case (Cons s ss)
  then have "cstr (s @ [NUL] @ t) = s" "string_len (s @ [NUL] @ t) = length s" for t
    by (simp_all add: cstr_append string_len_eq)
  with Cons show ?case by simp
qed simp

lemma row_content_cells:
  assumes "r < length rows" and "\<forall>row \<in> set rows. int (length (cJSON_children (Some row))) < 2 ^ 31"
    and "length (cJSON_children (Some (rows ! r))) \<le> width"
  shows "row_content (int width) (rows ! r) = concat (map (\<lambda>s. s @ [NUL]) (row_cells width rows r))"
proof -
  let ?cells = "cJSON_children (Some (rows ! r))"
  have "row_cells width rows r = map cell_text ?cells @ replicate (width - length ?cells) []"
    using assms(3) by (intro nth_equalityI) (auto simp: row_cells_def cell_def Let_def nth_append)
  moreover have "cJSON_GetArraySize (Some (rows ! r)) = int (length ?cells)"
    using assms(1,2) by (simp add: cJSON_GetArraySize_def to_int32_id)
  moreover have "concat (replicate k [NUL]) = replicate k NUL" for k by (induction k) auto
  ultimately show ?thesis
    by (simp add: row_content_def comp_def nat_diff_distrib' flip: of_nat_diff)
qed

lemma concat_rows:
  assumes "\<forall>row \<in> set rows. int (length (cJSON_children (Some row))) < 2 ^ 31"
    and "\<forall>row \<in> set rows. length (cJSON_children (Some row)) \<le> width"
  shows "concat (map (row_content (int width)) rows) =
    concat (map (\<lambda>s. s @ [NUL]) (concat (map (row_cells width rows) [0..<length rows])))"
proof -
  have "map (row_content (int width)) rows =
      map (\<lambda>r. concat (map (\<lambda>s. s @ [NUL]) (row_cells width rows r))) [0..<length rows]"
    using assms row_content_cells by (intro nth_equalityI) auto
  moreover have "concat (map (\<lambda>r. concat (map f (g r))) rs) = concat (map f (concat (map g rs)))" for f :: "string \<Rightarrow> string" and g rs
    by (induction rs) simp_all
  ultimately show ?thesis by simp
qed

lemma nth_concat_rows:
  "\<forall>xs \<in> set xss. length xs = w \<Longrightarrow> y < length xss \<Longrightarrow> x < w \<Longrightarrow> concat xss ! (y * w + x) = xss ! y ! x"
proof (induction xss arbitrary: y)
  case (Cons xs xss)
  then show ?case by (cases y) (auto simp: nth_append algebra_simps)
qed simp

lemma length_concat_rows: "\<forall>xs \<in> set xss. length xs = w \<Longrightarrow> length (concat xss) = length xss * w"
  by (induction xss) simp_all

lemma walk_rows:
  assumes "\<forall>r. \<forall>s \<in> set (row_cells width rows r). NUL \<notin> set s"
  shows "walk_strings (width * length rs) (concat (map (\<lambda>s. s @ [NUL]) (concat (map (row_cells width rows) rs))) @ rest) =
    (concat (map (row_cells width rows) rs), rest)"
proof -
  have "length (concat (map (row_cells width rows) rs)) = width * length rs"
    by (induction rs) (simp_all add: row_cells_def)
  then show ?thesis
    using walk_strings_written [of "concat (map (row_cells width rows) rs)" rest] assms by auto
qed

lemma sheet_of_rows:
  assumes "table_fits rows" and "cJSON_children json = rows" and "0 < table_width rows" and "1 < length rows"
  shows "\<exists>sheet. sheet_of json = Some sheet \<and> sheet_width sheet = int (table_width rows) \<and>
    sheet_height sheet = int (length rows) - 1 \<and> sheet_labels sheet = row_cells (table_width rows) rows 0 \<and>
    sheet_values sheet = concat (map (row_cells (table_width rows) rows) [1..<length rows])"
proof -
  let ?w = "table_width rows" and ?h = "length rows - 1"
  have fits: "\<forall>row \<in> set rows. int (length (cJSON_children (Some row))) < 2 ^ 31"
    using assms(1) by (simp add: table_fits_def)
  have width: "\<forall>row \<in> set rows. length (cJSON_children (Some row)) \<le> ?w"
    unfolding table_width_def by (auto intro!: fold_max_ge(2))
  have size: "cJSON_GetArraySize json = int (length rows)"
    using assms(1,2) by (simp add: cJSON_GetArraySize_def table_fits_def to_int32_id)
  have "0 \<le> int (length rows) - 1" using assms(4) by linarith
  then have "0 \<le> int ?w * (int (length rows) - 1)" by simp
  then have "c_int (int ?w * (int (length rows) - 1)) \<noteq> None"
    using assms(1) by (simp add: c_int_def table_fits_def)
  then obtain area where area: "c_int (int ?w * (int (length rows) - 1)) = Some area" by auto
  have no_NUL: "\<forall>r. \<forall>s \<in> set (row_cells ?w rows r). NUL \<notin> set s"
    using cell_text_NUL by (auto simp: row_cells_def cell_def Let_def)
  have "0 < length rows" using assms(4) by linarith
  then have "[0..<length rows] = [0] @ [1..<length rows]" by (simp only: upt_conv_Cons) simp
  then have content: "concat (map (row_content (int ?w)) rows) =
      concat (map (\<lambda>s. s @ [NUL]) (concat (map (row_cells ?w rows) [0]))) @
      concat (map (\<lambda>s. s @ [NUL]) (concat (map (row_cells ?w rows) [1..<length rows]))) @ []"
    using concat_rows [OF fits width] by simp
  have labels: "walk_strings ?w (concat (map (row_content (int ?w)) rows)) =
      (row_cells ?w rows 0, concat (map (\<lambda>s. s @ [NUL]) (concat (map (row_cells ?w rows) [1..<length rows]))) @ [])"
    using walk_rows [OF no_NUL, of "[0]"] unfolding content by simp
  have "nat (int ?w * (int (length rows) - 1)) = ?w * ?h"
  proof -
    have "int (length rows) - 1 = int ?h" using assms(4) by linarith
    then show ?thesis by (simp only: of_nat_mult [symmetric] nat_int)
  qed
  then have "walk_strings (nat (int ?w * (int (length rows) - 1)))
      (concat (map (\<lambda>s. s @ [NUL]) (concat (map (row_cells ?w rows) [1..<length rows]))) @ []) =
      (concat (map (row_cells ?w rows) [1..<length rows]), [])"
    using walk_rows [OF no_NUL, of "[1..<length rows]" "[]"] by simp
  with labels show ?thesis
    using assms(2-4) area
    by (simp add: sheet_of_def Let_def rows_width_table [OF fits] size allocate_sheet_def fill_sheet_def empty_sheet_def)
qed

lemma get_value_cell:
  assumes "sheet_width sheet = int (table_width rows)" and "sheet_height sheet = int (length rows) - 1"
    and "sheet_values sheet = concat (map (row_cells (table_width rows) rows) [1..<length rows])"
    and "x < table_width rows" and "y + 1 < length rows"
  shows "get_value sheet (int x) (int y) = Some (cell rows (y + 1) x)"
proof -
  let ?w = "table_width rows"
  let ?rows = "map (row_cells ?w rows) [1..<length rows]"
  have w: "\<forall>xs \<in> set ?rows. length xs = ?w" by (auto simp: row_cells_def)
  have y: "y < length ?rows" using assms(5) by simp
  have i: "int y * int ?w + int x = int (y * ?w + x)" by simp
  have "y * ?w + x < length (concat ?rows)"
    unfolding length_concat_rows [OF w] using y assms(4)
    by (metis Suc_leI add.commute add_less_cancel_right less_le_trans mult_Suc mult_le_mono1)
  then show ?thesis
    using nth_concat_rows [OF w y assms(4)] assms y
    by (simp add: get_value_def Let_def i row_cells_def del: of_nat_add of_nat_mult)
qed

lemma find_label_from_first:
  "find_label_from ls label i =
    (if \<exists>l \<in> set ls. cstr l = cstr label then i + int (length (takeWhile (\<lambda>l. cstr l \<noteq> cstr label) ls)) else - 1)"
  by (induction ls arbitrary: i) (auto simp: compare_string_eq)

lemma find_label_first:
  assumes "sheet_width sheet = int w" and "sheet_labels sheet = row_cells w rows 0"
  shows "(find_label sheet label = - 1 \<longleftrightarrow> (\<forall>x < w. cell rows 0 x \<noteq> cstr label)) \<and>
    (\<forall>x. find_label sheet label = int x \<longrightarrow>
       x < w \<and> cell rows 0 x = cstr label \<and> (\<forall>z < x. cell rows 0 z \<noteq> cstr label))"
proof -
  have plain: "cstr (cell rows 0 x) = cell rows 0 x" for x
    using cell_text_NUL by (auto simp: cell_def Let_def intro: cstr_id)
  let ?ls = "row_cells w rows 0"
  let ?taken = "takeWhile (\<lambda>l. cstr l \<noteq> cstr label) ?ls"
  have ls: "length ?ls = w" "\<And>x. x < w \<Longrightarrow> ?ls ! x = cell rows 0 x" by (simp_all add: row_cells_def)
  have found: "(\<exists>l \<in> set ?ls. cstr l = cstr label) \<longleftrightarrow> (\<exists>x < w. cell rows 0 x = cstr label)"
    by (auto simp: row_cells_def plain)
  have first: "length ?taken < w" "cell rows 0 (length ?taken) = cstr label" if "\<exists>x < w. cell rows 0 x = cstr label"
  proof -
    obtain x where x: "x < w" "cell rows 0 x = cstr label" using \<open>\<exists>x < w. cell rows 0 x = cstr label\<close> by auto
    have "\<not> x < length ?taken"
    proof
      assume lt: "x < length ?taken"
      have "cstr (?taken ! x) \<noteq> cstr label" using set_takeWhileD [OF nth_mem [OF lt]] by blast
      then show False using takeWhile_nth [OF lt] ls(2) [OF x(1)] x(2) plain by simp
    qed
    then show lt: "length ?taken < w" using x(1) by simp
    then show "cell rows 0 (length ?taken) = cstr label"
      using nth_length_takeWhile [of "\<lambda>l. cstr l \<noteq> cstr label" ?ls] ls plain by simp
  qed
  moreover have "cell rows 0 z \<noteq> cstr label" if lt: "z < length ?taken" for z
  proof -
    have "z < w" using lt length_takeWhile_le [of "\<lambda>l. cstr l \<noteq> cstr label" ?ls] ls(1) by linarith
    moreover have "cstr (?taken ! z) \<noteq> cstr label" using set_takeWhileD [OF nth_mem [OF lt]] by blast
    ultimately show ?thesis using takeWhile_nth [OF lt] ls(2) plain by simp
  qed
  ultimately show ?thesis
    using found assms by (auto simp: find_label_def find_label_from_first ls(1))
qed

subsection \<open>Properties\<close>

text \<open>C36: the sheet built from the rows of a response is the table of these rows: as wide as the longest
  row, with every cell at its place, a cell that is no string or beyond the end of its row being
  empty; \<open>find_label\<close> gives the first column whose label (in the first row) is the one asked for, or
  -1. A response without a row of values or without a cell gives the empty sheet.\<close>

theorem sheet_of_table:
  assumes "cJSON_children json = rows" and "int (length rows) < 2 ^ 31"
    and "\<forall>row \<in> set rows. int (length (cJSON_children (Some row))) < 2 ^ 31"
    and "int (table_width rows) * (int (length rows) - 1) < 2 ^ 31"
  shows "\<exists>sheet. sheet_of json = Some sheet \<and>
    (if table_width rows = 0 \<or> length rows \<le> 1 then sheet = empty_sheet
     else sheet_width sheet = int (table_width rows) \<and> sheet_height sheet = int (length rows) - 1 \<and>
       (\<forall>x < table_width rows. \<forall>y < length rows - 1. get_value sheet (int x) (int y) = Some (cell rows (y + 1) x)) \<and>
       (\<forall>label. (find_label sheet label = - 1 \<longleftrightarrow> (\<forall>x < table_width rows. cell rows 0 x \<noteq> cstr label)) \<and>
          (\<forall>x. find_label sheet label = int x \<longrightarrow> x < table_width rows \<and> cell rows 0 x = cstr label \<and>
             (\<forall>z < x. cell rows 0 z \<noteq> cstr label))))"
proof -
  have fits: "table_fits rows" using assms(2-4) by (simp add: table_fits_def)
  show ?thesis
  proof (cases "table_width rows = 0 \<or> length rows \<le> 1")
    case True
    then have "sheet_of json = Some empty_sheet"
      using assms(1,2) rows_width_table [OF assms(3)]
      by (auto simp: sheet_of_def Let_def cJSON_GetArraySize_def to_int32_id)
    with True show ?thesis by simp
  next
    case False
    then obtain sheet where sheet: "sheet_of json = Some sheet" "sheet_width sheet = int (table_width rows)"
      "sheet_height sheet = int (length rows) - 1" "sheet_labels sheet = row_cells (table_width rows) rows 0"
      "sheet_values sheet = concat (map (row_cells (table_width rows) rows) [1..<length rows])"
      using sheet_of_rows [OF fits assms(1)] by auto
    have "get_value sheet (int x) (int y) = Some (cell rows (y + 1) x)"
      if "x < table_width rows" "y < length rows - 1" for x y
      using get_value_cell [OF sheet(2,3,5) that(1)] that(2) by simp
    then show ?thesis
      using False sheet find_label_first [OF sheet(2,4)] by (intro exI [of _ sheet]) simp
  qed
qed

text \<open>Three students, the last without an id.\<close>

definition sample_rows :: "cJSON list" where
  "sample_rows =
     [jarray [jstring ''name'', jstring ''id''], jarray [jstring ''ann'', jstring ''1''],
      jarray [jstring ''bob'', jnumber 2], jarray [jstring ''eve'']]"

theorem sheet_of_table_witness:
  "\<exists>sheet. sheet_of (Some (jarray sample_rows)) = Some sheet \<and>
     get_value sheet 0 2 = Some ''eve'' \<and> get_value sheet 1 2 = Some []"
proof -
  have w: "table_width sample_rows = 2" "length sample_rows = 4" by code_simp+
  have fits: "cJSON_children (Some (jarray sample_rows)) = sample_rows" "int (length sample_rows) < 2 ^ 31"
    "\<forall>row \<in> set sample_rows. int (length (cJSON_children (Some row))) < 2 ^ 31"
    "int (table_width sample_rows) * (int (length sample_rows) - 1) < 2 ^ 31"
    by (simp_all add: jarray_def cJSON_children_def w) (simp add: sample_rows_def jarray_def)
  from sheet_of_table [OF fits] obtain sheet where sheet: "sheet_of (Some (jarray sample_rows)) = Some sheet"
    "\<And>x y. x < 2 \<Longrightarrow> y < 3 \<Longrightarrow> get_value sheet (int x) (int y) = Some (cell sample_rows (y + 1) x)"
    by (auto simp: w)
  have "cell sample_rows (2 + 1) 0 = ''eve''" "cell sample_rows (2 + 1) 1 = []" by code_simp+
  with sheet(1) sheet(2) [of 0 2] sheet(2) [of 1 2] show ?thesis by simp
qed

text \<open>Decoding \<open>%xx\<close>, as the server does.\<close>

definition hex_value :: "char \<Rightarrow> nat" where
  "hex_value c = (if code c < 58 then code c - 48 else code c - 87)"

fun percent_decode :: "string \<Rightarrow> string" where
  "percent_decode (c # a # b # s) =
     (if c = CHR 0x25 then char_of (16 * hex_value a + hex_value b) # percent_decode s
      else c # percent_decode (a # b # s))"
| "percent_decode s = s"

lemma percent_decode_plain: "c \<noteq> CHR 0x25 \<Longrightarrow> percent_decode (c # s) = c # percent_decode s"
proof (cases s)
  case (Cons a t)
  then show "c \<noteq> CHR 0x25 \<Longrightarrow> percent_decode (c # s) = c # percent_decode s" by (cases t) simp_all
qed simp

text \<open>The name of the sheet in the URL of \<open>retrieve_sheet\<close> consists of unreserved characters and \<open>%xx\<close>
  only, and decoding it gives the name back, whatever bytes it has.\<close>

lemma escape_name_decodes:
  "percent_decode (escape_name name) = cstr name \<and>
   list_all (\<lambda>c. is_unreserved c \<or> c = CHR 0x25) (escape_name name)"
proof -
  have hex: "code (hex_char ! n) = (if n < 10 then 48 + n else 87 + n)" "is_unreserved (hex_char ! n)" if "n < 16" for n
  proof -
    have "\<forall>n < 16. code (hex_char ! n) = (if n < 10 then 48 + n else 87 + n) \<and> is_unreserved (hex_char ! n)" by code_simp
    then show "code (hex_char ! n) = (if n < 10 then 48 + n else 87 + n)" "is_unreserved (hex_char ! n)" using that by auto
  qed
  have dec: "percent_decode (escape_name_char c @ s) = c # percent_decode s" for c s
  proof (cases "is_unreserved c")
    case True
    then have "c \<noteq> CHR 0x25" by (auto simp: is_unreserved_def)
    then have "percent_decode (c # s) = c # percent_decode s" by (rule percent_decode_plain)
    with True show ?thesis by (simp add: escape_name_char_def)
  next
    case False
    define a b where "a = code c div 16 mod 16" and "b = code c mod 16"
    have ab: "a < 16" "b < 16" by (simp_all add: a_def b_def)
    have "code c div 16 < 16" using nat_of_char_less_256 [of c] by (intro less_mult_imp_div_less) simp
    then have "code c = 16 * a + b" by (simp add: a_def b_def)
    then have "char_of (16 * a + b) = c" by (metis char_of_char)
    moreover have "hex_value (hex_char ! n) = n" if "n < 16" for n
      using hex(1) [OF that] by (simp add: hex_value_def)
    moreover have "escape_name_char c = [CHR 0x25, hex_char ! a, hex_char ! b]"
      using False by (simp add: escape_name_char_def a_def b_def)
    moreover have "percent_decode ([CHR 0x25, x, y] @ s) = char_of (16 * hex_value x + hex_value y) # percent_decode s" for x y
      by simp
    ultimately show ?thesis by (simp only: ab)
  qed
  have "percent_decode (concat (map escape_name_char s)) = s" for s
    by (induction s) (simp_all add: dec)
  moreover have "list_all (\<lambda>c. is_unreserved c \<or> c = CHR 0x25) (escape_name_char c)" for c
    using hex(2) by (simp add: escape_name_char_def)
  then have "list_all (\<lambda>c. is_unreserved c \<or> c = CHR 0x25) (concat (map escape_name_char s))" for s
    by (induction s) auto
  ultimately show ?thesis by (simp add: escape_name_def)
qed

end
