(* ===== verification/HomeworkSpec.thy ===== *)
theory HomeworkSpec imports Homework GithubSpec begin

text \<open>
  Whom \<open>invite-students\<close> invites, and what \<open>collect-homework\<close> writes for each student of the sheet.
\<close>

subsection \<open>Invitations\<close>

definition needs_invitation :: "string list \<Rightarrow> string list \<Rightarrow> string \<Rightarrow> bool" where
  "needs_invitation members invitations s \<longleftrightarrow> \<not> is_listed s members \<and> \<not> is_listed s invitations"

definition all_valid :: "string list \<Rightarrow> string list \<Rightarrow> (string \<times> bool) list \<Rightarrow> bool" where
  "all_valid members invitations students \<longleftrightarrow>
     (\<forall>(s, exist) \<in> set students. needs_invitation members invitations s \<longrightarrow> exist)"

lemma sort_students_result:
  "sort_students members invitations students r e h = (Done r', h') \<Longrightarrow>
     (invalid_count r' = invalid_count r \<longleftrightarrow> all_valid members invitations students) \<and>
     (all_valid members invitations students \<longrightarrow>
        pending r' = pending r @ map (\<lambda>(s, _). if needs_invitation members invitations s then Some s else None) students)"
proof (induction students arbitrary: r)
  case (Cons x students)
  obtain student exist where x: "x = (student, exist)" by force
  consider "is_listed student members" | "\<not> is_listed student members" "is_listed student invitations"
    | "needs_invitation members invitations student" "exist" | "needs_invitation members invitations student" "\<not> exist"
    by (auto simp: needs_invitation_def)
  then show ?case
  proof cases
    case 4
    then show ?thesis using Cons.prems
      by (auto simp: x needs_invitation_def all_valid_def sq_def bd_eq_Done)
  qed (use Cons.prems in \<open>auto simp: x needs_invitation_def all_valid_def dest!: Cons.IH\<close>)
qed (simp add: all_valid_def)

lemma sort_students_emits:
  "(\<And>s. P (ErrorMsg s)) \<Longrightarrow> emits P (sort_students members invitations students r)"
  by (induction members invitations students r rule: sort_students.induct)
    (auto simp only: sort_students.simps intro!: emits_intros)

definition membership_path :: "string \<Rightarrow> string \<Rightarrow> string \<Rightarrow> string" where
  "membership_path organization team s = ''orgs/'' @ organization @ ''/teams/'' @ team @ ''/memberships/'' @ s"

text \<open>The request that invites \<open>s\<close>.\<close>

definition invites :: "string \<Rightarrow> string \<Rightarrow> string \<Rightarrow> event \<Rightarrow> bool" where
  "invites organization team s ev \<longleftrightarrow>
     (case ev of Http r \<Rightarrow> req_url r = full_url (membership_path organization team s) \<and> req_type r = Some ''PUT'' | _ \<Rightarrow> False)"

lemma invite_user_emits:
  assumes "\<And>s. P (ErrorMsg s)" and "\<And>ev. invites organization team s ev \<Longrightarrow> P ev"
  shows "emits P (invite_user_to_team t s organization team)"
proof -
  have url: "returns (github_url path) (\<lambda>url. url = full_url path)" for path
    using returns_format_string unfolding github_url_def full_url_def .
  show ?thesis
    unfolding invite_user_to_team_def membership_path_def [symmetric]
    by (intro emits_bd_returns [OF emits_github_url url] emits_post assms) (simp_all add: invites_def)
qed

subsection \<open>Rows\<close>

text \<open>What is written for a student: the share of the grade that is left after the days charged.\<close>

definition share_line :: "int \<Rightarrow> int \<Rightarrow> string" where
  "share_line penalty_per_day delay = show_int (max (100 - penalty_per_day * delay) 0) @ [CHR 0x25] @ newline"

definition row_delay :: "int \<Rightarrow> bool \<Rightarrow> string list \<Rightarrow> int list \<Rightarrow> string \<Rightarrow> int option" where
  "row_delay deadline weekends repos push_times req_repo =
     (case find_name repos req_repo of
        None \<Rightarrow> Some 0
      | Some i \<Rightarrow>
          if push_times ! i > deadline then calculate_late_submission_day deadline (push_times ! i) weekends else Some 0)"

definition written :: "string \<Rightarrow> history \<Rightarrow> string list" where
  "written path t = List.map_filter (\<lambda>ev. case ev of Write_file p s \<Rightarrow> if p = path then Some s else None | _ \<Rightarrow> None) t"

lemma written_simps [simp]:
  "written path [] = []" "written path (t @ u) = written path t @ written path u"
  "written path (Output s # t) = written path t" "written path (Write_file path s # t) = s # written path t"
  by (simp_all add: written_def List.map_filter_def)

lemma share_left_line:
  assumes "- (2 ^ 31) \<le> penalty * delay" and "penalty * delay < 2 ^ 31" and "- (2 ^ 31) \<le> 100 - penalty * delay"
    and "100 - penalty * delay < 2 ^ 31"
  shows "share_left penalty delay = Some (max (100 - penalty * delay) 0)"
  using assms by (simp add: share_left_def c_int_def)

lemma late_submission_run:
  assumes "row_delay deadline weekends repos push_times req_repo = Some d" and "find_name repos req_repo = Some i"
  shows "\<exists>l t. late_submission deadline weekends repos hashes push_times i late_count e h = (Done (d, l), h @ t) \<and>
    written path t = []"
  using assms by (cases "late_count = 0") (auto simp: late_submission_def row_delay_def late_header_def sq_def)

lemma collect_row_run:
  assumes "get_value sheet x (int y) = Some student" and "length (title @ ''-'' @ student) < 256"
    and "row_delay deadline weekends repos push_times (title @ ''-'' @ student) = Some d"
    and "share_left penalty d = Some share" and "share = max (100 - penalty * d) 0"
    and "only_repo = None \<or> find_name repos (title @ ''-'' @ student) \<noteq> None"
  shows "\<exists>counts' t. collect_row title out_path deadline penalty weekends only_repo repos hashes push_times sheet x y counts e h =
      (Done counts', h @ t) \<and> written out_path t = [share_line penalty d]"
proof (cases "find_name repos (title @ ''-'' @ student)")
  case None
  then show ?thesis
    using assms by (cases counts) (auto simp: collect_row_def value_at_def row_delay_def share_line_def sq_def)
next
  case (Some i)
  obtain l t where "late_submission deadline weekends repos hashes push_times i (snd counts) e h = (Done (d, l), h @ t)"
    "written out_path t = []"
    using late_submission_run [OF assms(3) Some] by blast
  then show ?thesis
    using assms Some by (cases counts) (auto simp: collect_row_def value_at_def share_line_def sq_def)
qed

subsection \<open>Properties\<close>

text \<open>Once the members, the invitations and the users are known.\<close>

lemma invite_new_emits:
  "emits (\<lambda>ev. keeps_remote ev \<or>
      (\<exists>s \<in> fst ` set students. invites organization team s ev \<and> needs_invitation members invitations s \<and>
         (\<forall>(s', exist) \<in> set students. needs_invitation members invitations s' \<longrightarrow> exist)))
    (invite_new members invitations students github_token organization team)"
proof -
  let ?P = "\<lambda>ev. keeps_remote ev \<or>
      (\<exists>s \<in> fst ` set students. invites organization team s ev \<and> needs_invitation members invitations s \<and>
         (\<forall>(s', exist) \<in> set students. needs_invitation members invitations s' \<longrightarrow> exist))"
  let ?Q = "\<lambda>r. invalid_count r = 0 \<longrightarrow> all_valid members invitations students \<and>
      (\<forall>s. Some s \<in> set (pending r) \<longrightarrow> s \<in> fst ` set students \<and> needs_invitation members invitations s)"
  have sorted: "returns (sort_students members invitations students empty_roster) ?Q"
    unfolding returns_def
    by (auto simp: empty_roster_def dest!: sort_students_result split: if_splits) force
  have one: "emits ?P (invite_student github_token organization team s counts)"
    if "s \<in> set (pending r)" "invalid_count r = 0" "?Q r" for r s counts
    using that unfolding invite_student_def all_valid_def
    by (cases s; cases counts) (auto intro!: emits_intros invite_user_emits)
  have "emits ?P (invite_pending github_token organization team r)" if "invalid_count r = 0" "?Q r" for r
    unfolding invite_pending_def by (intro emits_intros one [OF _ that]) simp_all
  then show ?thesis
    unfolding invite_new_def
    by (intro emits_bd_returns [OF sort_students_emits sorted] emits_intros) simp_all
qed

text \<open>The students of the input file.\<close>

definition students_in :: "env \<Rightarrow> history \<Rightarrow> string \<Rightarrow> string list" where
  "students_in e h path = words (case fopen_read e h path of Some s \<Rightarrow> s | None \<Rightarrow> [])"

text \<open>C39: on a network that answers, \<open>invite-students\<close> changes nothing but by the invitation of a student of
  the input file who is neither a member of the team nor invited already (both up to case, by the lists it
  has retrieved before), and it invites nobody at all if GitHub does not know one of these students. With
  more than 64 students that holds only of the first 64: GitHub is asked about the student 64 places before instead.\<close>

theorem invitations_only_for_new_students:
  fixes e :: env and h :: history and path :: string
  defines "students \<equiv> students_in e h path"
  assumes "answers e status body" and "token_fits t" and "\<forall>student \<in> set students. fits (user_path student)"
  shows "\<exists>tr. snd (invite_students path t organization team e h) = h @ tr \<and> (\<forall>ev \<in> set tr. keeps_remote ev \<or>
    (\<exists>members invitations h1 h2.
       retrieve_team_members t organization team e (h @ [Output ''Retrieving existing members...'']) = (Done members, h1) \<and>
       retrieve_existing_invitations t organization team e (h1 @ [Output ''Retrieving existing invitations...'']) =
         (Done invitations, h2) \<and>
       (\<exists>s \<in> set students. invites organization team s ev \<and> needs_invitation members invitations s) \<and>
       (\<forall>k < length students. needs_invitation members invitations (students ! k) \<longrightarrow>
          status (full_url (user_path (students ! (k mod 64)))) < 400)))"
proof -
  let ?ok = "\<lambda>members invitations. \<forall>k < length students. needs_invitation members invitations (students ! k) \<longrightarrow>
    status (full_url (user_path (students ! (k mod 64)))) < 400"
  let ?P = "\<lambda>ev. keeps_remote ev \<or> (\<exists>members invitations h1 h2.
       retrieve_team_members t organization team e (h @ [Output ''Retrieving existing members...'']) = (Done members, h1) \<and>
       retrieve_existing_invitations t organization team e (h1 @ [Output ''Retrieving existing invitations...'']) =
         (Done invitations, h2) \<and>
       (\<exists>s \<in> set students. invites organization team s ev \<and> needs_invitation members invitations s) \<and> ?ok members invitations)"
  have gets: "emits ?P (retrieve_team_members t organization team)" "emits ?P (retrieve_existing_invitations t organization team)"
    "emits ?P (github_users_exist students t)" "emits ?P (write_error s)" for s
    by (intro emits_intros; simp)+
  have new: "did ?P (invite_new members invitations (zip students exist) t organization team) e h5"
    if m: "retrieve_team_members t organization team e (h @ [Output ''Retrieving existing members...'']) = (Done members, h1)"
      and i: "retrieve_existing_invitations t organization team e (h1 @ [Output ''Retrieving existing invitations...'']) = (Done invitations, h2)"
      and x: "github_users_exist students t e h4 = (Done exist, h5)" for members invitations exist h1 h2 h4 h5
  proof -
    have exist: "exist = map (\<lambda>k. status (full_url (user_path (students ! (k mod 64)))) < 400) [0..<length students]"
      using users_exist_run [OF assms(2,3,4), of h4] x by (simp add: MAX_WORKER_def)
    have "?ok members invitations" if "all_valid members invitations (zip students exist)"
      using that by (fastforce simp: all_valid_def exist set_zip)
    moreover have "fst ` set (zip students exist) \<subseteq> set students"
      by (auto dest: set_zip_leftD)
    ultimately show ?thesis
      using m i unfolding all_valid_def
      by (intro emits_did emits_mono [OF invite_new_emits [of "zip students exist"]]) blast
  qed
  have "did ?P (invite_students path t organization team) e h"
    unfolding invite_students_def Let_def
  proof (rule did_bd)
    show "did ?P (read_file path) e h" by (intro emits_did emits_intros)
    fix content h1 assume "read_file path e h = (Done content, h1)"
    then have c: "words content = students" "h1 = h"
      by (auto simp: read_file_def students_def students_in_def)
    have asked: "did ?P (bd (github_users_exist students t) (\<lambda>exist.
        invite_new members invitations (zip students exist) t organization team)) e h4"
      if "retrieve_team_members t organization team e (h @ [Output ''Retrieving existing members...'']) = (Done members, h2)"
        and "retrieve_existing_invitations t organization team e (h2 @ [Output ''Retrieving existing invitations...'']) = (Done invitations, h3)"
      for members invitations h2 h3 h4
      by (rule did_bd [OF emits_did [OF gets(3)] new [OF that]])
    show "did ?P (if 0 < length (words content)
        then sq (write_output ''Retrieving existing members...'')
          (bd (retrieve_team_members t organization team) (\<lambda>members.
           sq (write_output ''Retrieving existing invitations...'')
           (bd (retrieve_existing_invitations t organization team) (\<lambda>invitations.
            sq (write_output ''Checking for valid usernames...'')
            (bd (github_users_exist (words content) t) (\<lambda>exist.
             invite_new members invitations (zip (words content) exist) t organization team))))))
        else write_error (''Input file '' @ quoted path @ '' is empty'')) e h1"
    proof (cases "0 < length (words content)")
      case True
      show ?thesis
        unfolding if_P [OF True] unfolding c
        by (rule did_output, simp, rule did_bd [OF emits_did [OF gets(1)]], rule did_output, simp,
            rule did_bd [OF emits_did [OF gets(2)]], rule did_output, simp, rule asked)
    next
      case False
      then show ?thesis using emits_did [OF gets(4)] by simp
    qed
  qed
  then show ?thesis by (simp add: did_def)
qed

definition sample_students :: env where
  "sample_students = sample_env (\<lambda>url. []) (\<lambda>path. Some ''Ann bob'')"

theorem invitations_only_for_new_students_witness:
  "\<exists>tr. snd (invite_students ''students.txt'' ''token'' ''org'' ''team'' sample_students []) = tr \<and> (\<forall>ev \<in> set tr. keeps_remote ev \<or>
    (\<exists>s \<in> {''Ann'', ''bob''}. invites ''org'' ''team'' s ev))"
proof -
  have students: "students_in sample_students [] ''students.txt'' = [''Ann'', ''bob'']"
    unfolding students_in_def sample_students_def by (simp add: sample_env_def) code_simp
  have "token_fits ''token''" "fits (user_path ''Ann'')" "fits (user_path ''bob'')" by code_simp+
  moreover have "answers sample_students (\<lambda>_. 200) (\<lambda>_. [])"
    unfolding sample_students_def by (rule sample_answers)
  ultimately show ?thesis
    using invitations_only_for_new_students [of sample_students "\<lambda>_. 200" "\<lambda>_. []" "''token''" "[]" "''students.txt''" "''org''" "''team''"]
    unfolding students by fastforce
qed

text \<open>C40: \<open>collect-homework\<close> writes one line per row of the sheet, in the order of the rows: the share of the
  grade that is left after the penalty for the days \<open>calculate_late_submission_day\<close> charges for the
  last push to the student's repository, never below 0. A student without a repository is charged
  nothing.\<close>

theorem collect_rows_lines:
  assumes "sheet_width sheet > 0" and "sheet_height sheet > 0" and "find_label sheet student_label = int x"
    and "\<forall>y < nat (sheet_height sheet). get_value sheet (int x) (int y) = Some (student y) \<and> length (title @ ''-'' @ student y) < 256"
    and "\<forall>y < nat (sheet_height sheet). row_delay deadline weekends repos push_times (title @ ''-'' @ student y) = Some (delay y) \<and>
      - (2 ^ 31) < penalty * delay y - 100 \<and> penalty * delay y < 2 ^ 31"
  shows "\<exists>counts t. collect_rows title out_path deadline penalty weekends None repos hashes push_times sheet spreadsheet_id
        student_label e h = (Done counts, h @ t) \<and>
      written out_path t = map (\<lambda>y. share_line penalty (delay y)) [0..<nat (sheet_height sheet)]"
proof -
  let ?I = "\<lambda>k counts t. written out_path t = map (\<lambda>y. share_line penalty (delay y)) [0..<k]"
  let ?step = "collect_row title out_path deadline penalty weekends None repos hashes push_times sheet (int x)"
  have "\<exists>counts t. foldp ?step [0..<nat (sheet_height sheet)] (0, 0) e h = (Done counts, h @ t) \<and>
      ?I (nat (sheet_height sheet)) counts t"
  proof (rule foldp_history [where I = ?I])
    fix y t and counts :: "nat \<times> nat"
    assume y: "y < nat (sheet_height sheet)" and I: "?I y counts t"
    have "share_left penalty (delay y) = Some (max (100 - penalty * delay y) 0)"
      using assms(5) y by (intro share_left_line) auto
    then have "\<exists>counts' u. ?step y counts e (h @ t) = (Done counts', (h @ t) @ u) \<and>
        written out_path u = [share_line penalty (delay y)]"
      using assms(4,5) y by (intro collect_row_run) auto
    then show "\<exists>counts' u. ?step y counts e (h @ t) = (Done counts', h @ t @ u) \<and> ?I (Suc y) counts' (t @ u)"
      using I by auto
  qed simp
  then show ?thesis using assms(1-3) by (simp add: collect_rows_def)
qed

text \<open>Two students, one with a repository and in time.\<close>

definition sample_class :: Sheet where
  "sample_class =
     \<lparr>sheet_width = 1, sheet_height = 2, sheet_labels = [''user''], sheet_values = [''ann'', ''bob''], sheet_content = []\<rparr>"

theorem collect_rows_lines_witness:
  "\<forall>e :: env. \<exists>counts t. collect_rows ''hw1'' ''out'' 100 10 False None [''hw1-Ann''] [zero_hash] [90] sample_class ''id''
        ''user'' e [] = (Done counts, [] @ t) \<and>
      written ''out'' t = map (\<lambda>y. share_line 10 0) [0..<nat (sheet_height sample_class)]"
proof (rule allI, rule collect_rows_lines [where x = 0 and student = "\<lambda>y. if y = 0 then ''ann'' else ''bob''"])
  show "find_label sample_class ''user'' = int 0" by code_simp
  have "row_delay 100 False [''hw1-Ann''] [90] (''hw1'' @ ''-'' @ ''ann'') = Some 0"
    "row_delay 100 False [''hw1-Ann''] [90] (''hw1'' @ ''-'' @ ''bob'') = Some 0"
    by code_simp+
  then show "\<forall>y < nat (sheet_height sample_class).
      row_delay 100 False [''hw1-Ann''] [90] (''hw1'' @ ''-'' @ (if y = 0 then ''ann'' else ''bob'')) = Some 0 \<and>
      - (2 ^ 31) < 10 * (0::int) - 100 \<and> 10 * (0::int) < 2 ^ 31"
    by auto
  have "get_value sample_class (int 0) (int 0) = Some ''ann''" "get_value sample_class (int 0) (int 1) = Some ''bob''"
    by code_simp+
  then show "\<forall>y < nat (sheet_height sample_class).
      get_value sample_class (int 0) (int y) = Some (if y = 0 then ''ann'' else ''bob'') \<and>
      length (''hw1'' @ ''-'' @ (if y = 0 then ''ann'' else ''bob'')) < 256"
    by (auto simp: sample_class_def less_2_cases_iff)
qed (simp_all add: sample_class_def)

end
