(* ===== verification/TemplateSpec.thy ===== *)
theory TemplateSpec imports Templates begin

text \<open>
  What a report template means: text, \<open>$$\<close> for a dollar sign, \<open>${./path}\<close> for a file of the student
  and \<open>${label}\<close> for the student's value in the sheet. The two passes of \<open>Templates\<close> render the
  segments one by one.
\<close>

datatype segment = Plain string | Dollar | File_content string | Label string

definition plain :: "string \<Rightarrow> bool" where
  "plain s \<longleftrightarrow> NUL \<notin> set s \<and> dollar \<notin> set s \<and> rbrace \<notin> set s"

fun segment_ok :: "segment \<Rightarrow> bool" where
  "segment_ok (Plain s) = plain s"
| "segment_ok Dollar = True"
| "segment_ok (File_content p) = plain p"
| "segment_ok (Label l) = (plain l \<and> \<not> (char_at l 0 = CHR ''.'' \<and> char_at l 1 = CHR ''/''))"

fun segment_text :: "segment \<Rightarrow> string" where
  "segment_text (Plain s) = s"
| "segment_text Dollar = [dollar, dollar]"
| "segment_text (File_content p) = [dollar, lbrace] @ ''./'' @ p @ [rbrace]"
| "segment_text (Label l) = [dollar, lbrace] @ l @ [rbrace]"

definition template_text :: "segment list \<Rightarrow> string" where
  "template_text segs = concat (map segment_text segs)"

lemma template_text_simps [simp]:
  "template_text [] = []" "template_text (seg # segs) = segment_text seg @ template_text segs"
  by (simp_all add: template_text_def)

lemma plain_Cons: "plain (c # s) \<longleftrightarrow> c \<noteq> NUL \<and> c \<noteq> dollar \<and> c \<noteq> rbrace \<and> plain s"
  by (auto simp: plain_def)

lemma plain_cstr: "plain s \<Longrightarrow> cstr s = s"
  by (simp add: plain_def cstr_id)

subsection \<open>Files\<close>

definition student_file :: "string \<Rightarrow> string \<Rightarrow> string" where
  "student_file dir p = dir @ ''/./'' @ p"

definition file_content :: "env \<Rightarrow> history \<Rightarrow> string \<Rightarrow> string" where
  "file_content e h path = (case fopen_read e h path of Some s \<Rightarrow> s | None \<Rightarrow> [])"

fun report_segment :: "(string \<Rightarrow> string) \<Rightarrow> segment \<Rightarrow> string" where
  "report_segment content (File_content p) = content p"
| "report_segment content seg = segment_text seg"

lemma char_at_offset:
  "char_at (pre @ s) (length pre) = char_at s 0" "char_at (pre @ s) (length pre + n) = char_at s n"
  "char_at (pre @ s) (Suc (length pre)) = char_at s 1"
  by (simp_all add: char_at_def nth_append)

lemma report_loop_plain:
  "plain s \<Longrightarrow> report_loop dir (pre @ s @ post) (length pre) depth start out =
    report_loop dir (pre @ s @ post) (length (pre @ s)) depth start (if depth = 0 then out @ s else out)"
proof (induction s arbitrary: pre out)
  case (Cons c s)
  have "report_loop dir (pre @ (c # s) @ post) (length pre) depth start out =
      report_loop dir (pre @ (c # s) @ post) (length pre + 1) depth start (if depth = 0 then out @ [c] else out)"
    by (subst report_loop.simps) (use Cons.prems in \<open>simp add: plain_Cons char_at_offset char_at_def\<close>)
  also have "\<dots> = report_loop dir ((pre @ [c]) @ s @ post) (length (pre @ [c])) depth start (if depth = 0 then out @ [c] else out)"
    by simp
  also have "\<dots> = report_loop dir ((pre @ [c]) @ s @ post) (length ((pre @ [c]) @ s)) depth start
      (if depth = 0 then (if depth = 0 then out @ [c] else out) @ s else (if depth = 0 then out @ [c] else out))"
    using Cons.prems by (intro Cons.IH) (simp add: plain_Cons)
  finally show ?case by (cases "depth = 0") simp_all
qed simp

text \<open>\<open>${name}\<close>.\<close>

lemma report_loop_braces:
  assumes "plain name" and "fmt = pre @ [dollar, lbrace] @ name @ [rbrace] @ post"
  shows "report_loop dir fmt (length pre) 0 start out =
    bd (report_piece dir fmt (Some (length pre + 2)) (length pre + 2 + length name)) (\<lambda>piece.
      report_loop dir fmt (length pre + 2 + length name + 1) 0 (Some (length pre + 2)) (out @ piece))"
proof -
  have "report_loop dir fmt (length pre) 0 start out = report_loop dir fmt (length pre + 2) 1 (Some (length pre + 2)) out"
    by (subst report_loop.simps) (simp add: assms(2) char_at_offset char_at_def)
  also have "\<dots> = report_loop dir fmt (length (pre @ [dollar, lbrace]) + length name) 1 (Some (length pre + 2)) out"
    using report_loop_plain [OF assms(1), of dir "pre @ [dollar, lbrace]" "[rbrace] @ post" 1 "Some (length pre + 2)" out]
    by (simp add: assms(2))
  finally show ?thesis
    by (subst (asm) (2) report_loop.simps) (simp add: assms(2) char_at_def nth_append)
qed

lemma report_piece_braces:
  "plain name \<Longrightarrow>
    report_piece dir (pre @ ([dollar, lbrace] @ name @ [rbrace]) @ post) (Some (length pre + 2)) (length pre + 2 + length name) =
    (if char_at name 0 = CHR ''.'' \<and> char_at name 1 = CHR ''/''
     then bd (format_string MAX_PATH_LEN (dir @ ''/'' @ name)) read_file else pure ([dollar, lbrace] @ name @ [rbrace]))"
proof -
  assume "plain name"
  have "drop (length pre + 2) (take (length pre + 2 + length name) (pre @ ([dollar, lbrace] @ name @ [rbrace]) @ post)) = name"
    by simp
  then show ?thesis using plain_cstr [OF \<open>plain name\<close>] by (simp only: report_piece_def option.case Let_def)
qed

lemma report_loop_segments:
  assumes "\<forall>seg \<in> set segs. segment_ok seg"
    and "\<forall>p. File_content p \<in> set segs \<longrightarrow> length (student_file dir p) < MAX_PATH_LEN"
  shows "report_loop dir (pre @ template_text segs) (length pre) 0 start out e h =
    (Done (out @ concat (map (report_segment (\<lambda>p. file_content e h (student_file dir p))) segs)), h)"
  using assms
proof (induction segs arbitrary: pre start out)
  case Nil
  then show ?case by (subst report_loop.simps) simp
next
  case (Cons seg segs)
  let ?content = "\<lambda>p. file_content e h (student_file dir p)"
  have rest: "report_loop dir ((pre @ segment_text seg) @ template_text segs) (length (pre @ segment_text seg)) 0 start out e h =
      (Done (out @ concat (map (report_segment ?content) segs)), h)" for start out
    using Cons.prems by (intro Cons.IH) auto
  have "\<exists>start'. report_loop dir (pre @ segment_text seg @ template_text segs) (length pre) 0 start out e h =
      report_loop dir ((pre @ segment_text seg) @ template_text segs) (length (pre @ segment_text seg)) 0 start'
        (out @ report_segment ?content seg) e h"
  proof (cases seg)
    case (Plain s)
    then show ?thesis
      using report_loop_plain [of s dir pre "template_text segs" 0 start out] Cons.prems(1) by auto
  next
    case Dollar
    then show ?thesis
      by (intro exI [of _ start], subst report_loop.simps) (simp add: char_at_offset char_at_def)
  next
    case (File_content p)
    let ?fmt = "pre @ segment_text seg @ template_text segs"
    have name: "plain (''./'' @ p)" using Cons.prems(1) File_content by (simp add: plain_Cons)
    have "report_piece dir ?fmt (Some (length pre + 2)) (length pre + 2 + length (''./'' @ p)) =
        bd (format_string MAX_PATH_LEN (student_file dir p)) read_file"
      using report_piece_braces [OF name, of dir pre "template_text segs"] File_content
      by (simp add: student_file_def char_at_def)
    moreover have "length (student_file dir p) < MAX_PATH_LEN" using Cons.prems(2) File_content by simp
    ultimately have piece: "report_piece dir ?fmt (Some (length pre + 2)) (length pre + 2 + length (''./'' @ p)) e h =
        (Done (?content p), h)"
      by (simp add: read_file_def file_content_def)
    show ?thesis
      using report_loop_braces [OF name, of ?fmt pre "template_text segs" dir start out] piece File_content
      by (intro exI [of _ "Some (length pre + 2)"]) simp
  next
    case (Label l)
    let ?fmt = "pre @ segment_text seg @ template_text segs"
    have name: "plain l" "\<not> (char_at l 0 = CHR ''.'' \<and> char_at l 1 = CHR ''/'')" using Cons.prems(1) Label by auto
    have piece: "report_piece dir ?fmt (Some (length pre + 2)) (length pre + 2 + length l) = pure (segment_text seg)"
      using report_piece_braces [OF name(1), of dir pre "template_text segs"] Label name(2) by auto
    show ?thesis
      using report_loop_braces [OF name(1), of ?fmt pre "template_text segs" dir start out] piece Label
      by (intro exI [of _ "Some (length pre + 2)"]) simp
  qed
  then show ?case using rest by auto
qed

subsection \<open>Values of the sheet\<close>

definition label_found :: "Sheet \<Rightarrow> string \<Rightarrow> bool" where
  "label_found sheet l \<longleftrightarrow> find_label sheet l \<ge> 0"

definition label_value :: "Sheet \<Rightarrow> nat \<Rightarrow> string \<Rightarrow> string" where
  "label_value sheet y l = (case get_value sheet (find_label sheet l) (int y) of Some v \<Rightarrow> cstr v | None \<Rightarrow> [])"

text \<open>What a segment is in the issue, and whether it is known. A file's segment was replaced before.\<close>

fun issue_segment :: "Sheet \<Rightarrow> nat \<Rightarrow> segment \<Rightarrow> string" where
  "issue_segment sheet y (Plain s) = s"
| "issue_segment sheet y Dollar = [dollar]"
| "issue_segment sheet y (File_content p) = []"
| "issue_segment sheet y (Label l) = (if label_found sheet l then label_value sheet y l else [])"

fun segment_known :: "Sheet \<Rightarrow> segment \<Rightarrow> bool" where
  "segment_known sheet (Label l) = label_found sheet l"
| "segment_known sheet seg = True"

fun no_file :: "segment \<Rightarrow> bool" where
  "no_file (File_content p) = False"
| "no_file seg = True"

lemma issue_loop_plain:
  "plain s \<Longrightarrow> issue_loop sheet sheet_name y (s @ rest) depth label (out, ok) =
    issue_loop sheet sheet_name y rest depth (label @ s) (if depth = 0 then out @ s else out, ok)"
proof (induction s arbitrary: label out)
  case (Cons c s)
  then show ?case by (cases "depth = 0") (simp_all add: plain_Cons)
qed simp

text \<open>The label is looked up, and the message for a missing one is the only effect.\<close>

lemma label_piece_run:
  assumes "find_label sheet l \<ge> 0 \<longrightarrow> get_value sheet (find_label sheet l) (int y) \<noteq> None"
  shows "\<exists>h'. label_piece sheet sheet_name (int y) l rest e h =
    (Done (if label_found sheet l then label_value sheet y l else [], label_found sheet l), h')"
  using assms by (cases "y = 0") (auto simp: label_piece_def label_found_def label_value_def Let_def)

lemma issue_loop_segments:
  assumes "\<forall>seg \<in> set segs. segment_ok seg \<and> no_file seg"
    and "\<forall>l. Label l \<in> set segs \<longrightarrow> find_label sheet l \<ge> 0 \<longrightarrow> get_value sheet (find_label sheet l) (int y) \<noteq> None"
  shows "\<exists>h'. issue_loop sheet sheet_name (int y) (template_text segs) 0 label (out, ok) e h =
    (Done (out @ concat (map (issue_segment sheet y) segs), ok \<and> (\<forall>seg \<in> set segs. segment_known sheet seg)), h')"
  using assms
proof (induction segs arbitrary: label out ok h)
  case (Cons seg segs)
  have rest: "\<exists>h'. issue_loop sheet sheet_name (int y) (template_text segs) 0 label' (out', ok') e h1 =
      (Done (out' @ concat (map (issue_segment sheet y) segs), ok' \<and> (\<forall>seg \<in> set segs. segment_known sheet seg)), h')"
    for label' out' ok' h1
    using Cons.prems by (intro Cons.IH) auto
  show ?case
  proof (cases seg)
    case (Plain s)
    then show ?thesis using rest [of "label @ s" "out @ s" ok h] issue_loop_plain [of s] Cons.prems(1) by simp
  next
    case Dollar
    then show ?thesis using rest [of "label @ [dollar, dollar]" "out @ [dollar]" ok h] by simp
  next
    case (File_content p)
    then show ?thesis using Cons.prems(1) by simp
  next
    case (Label l)
    have l: "plain l" using Cons.prems(1) Label by simp
    obtain h1 where h1: "label_piece sheet sheet_name (int y) l (rbrace # cstr (template_text segs)) e h =
        (Done (if label_found sheet l then label_value sheet y l else [], label_found sheet l), h1)"
      using label_piece_run Cons.prems(2) Label by (metis list.set_intros(1))
    have "issue_loop sheet sheet_name (int y) (template_text (seg # segs)) 0 label (out, ok) =
        issue_loop sheet sheet_name (int y) (rbrace # template_text segs) 1 l (out, ok)"
      using Label issue_loop_plain [OF l, of sheet sheet_name "int y" "rbrace # template_text segs" 1 "[]" out ok] by simp
    also have "\<dots> = bd (label_piece sheet sheet_name (int y) l (rbrace # cstr (template_text segs))) (\<lambda>(piece, found).
        issue_loop sheet sheet_name (int y) (template_text segs) 0 (l @ [rbrace]) (out @ piece, ok \<and> found))"
      by simp
    finally show ?thesis
      using h1 Label rest [of "l @ [rbrace]" "out @ (if label_found sheet l then label_value sheet y l else [])"
          "ok \<and> label_found sheet l" h1]
      by simp
  qed
qed simp

lemma find_label_range: "find_label sheet l \<ge> 0 \<or> find_label sheet l = - 1"
proof -
  have "0 \<le> i \<Longrightarrow> find_label_from ls l i \<ge> 0 \<or> find_label_from ls l i = - 1" for ls i
    by (induction ls arbitrary: i) auto
  then show ?thesis by (simp add: find_label_def)
qed

lemma feedback_issues_run:
  assumes "int (length segss) = sheet_height sheet"
    and "\<forall>segs \<in> set segss. \<forall>seg \<in> set segs. segment_ok seg \<and> no_file seg"
    and "\<And>y l. y < length segss \<Longrightarrow> find_label sheet l \<ge> 0 \<Longrightarrow> get_value sheet (find_label sheet l) (int y) \<noteq> None"
  shows "\<exists>h'. format_feedback_issues (map template_text segss) sheet sheet_name e h =
    (let known = (\<forall>segs \<in> set segss. \<forall>seg \<in> set segs. segment_known sheet seg)
     in (Done (if known then map (\<lambda>y. concat (map (issue_segment sheet y) (segss ! y))) [0..<length segss] else [], known), h'))"
proof -
  let ?known = "\<lambda>k. \<forall>y < k. \<forall>seg \<in> set (segss ! y). segment_known sheet seg"
  let ?I = "\<lambda>k st. st = (map (\<lambda>y. concat (map (issue_segment sheet y) (segss ! y))) [0..<k], ?known k)"
  let ?step = "\<lambda>y (bodies, success).
    bd (issue_loop sheet sheet_name (int y) (map template_text segss ! y) 0 [] ([], True)) (\<lambda>(body, ok).
    pure (bodies @ [body], success \<and> ok))"
  have "\<exists>s' h'. foldp ?step [0..<length segss] ([], True) e h = (Done s', h') \<and> ?I (length segss) s'"
  proof (rule foldp_upto [where I = ?I])
    fix y s h1
    assume y: "y < length segss" and s: "?I y s"
    have segs: "\<forall>seg \<in> set (segss ! y). segment_ok seg \<and> no_file seg" using assms(2) nth_mem [OF y] by blast
    from issue_loop_segments [OF this, of sheet y sheet_name "[]" "[]" True e h1] assms(3) [OF y]
    obtain h2 where "issue_loop sheet sheet_name (int y) (template_text (segss ! y)) 0 [] ([], True) e h1 =
        (Done (concat (map (issue_segment sheet y) (segss ! y)), \<forall>seg \<in> set (segss ! y). segment_known sheet seg), h2)"
      by auto
    then show "\<exists>s' h'. ?step y s e h1 = (Done s', h') \<and> ?I (Suc y) s'"
      using y s by (auto simp: less_Suc_eq)
  qed simp
  then obtain h' where "foldp ?step [0..<length segss] ([], True) e h =
      (Done (map (\<lambda>y. concat (map (issue_segment sheet y) (segss ! y))) [0..<length segss], ?known (length segss)), h')"
    by blast
  moreover have "?known (length segss) \<longleftrightarrow> (\<forall>segs \<in> set segss. \<forall>seg \<in> set segs. segment_known sheet seg)"
    by (metis in_set_conv_nth)
  ultimately show ?thesis
    unfolding format_feedback_issues_def Let_def using assms(1) by (simp add: sq_def)
qed

subsection \<open>Properties\<close>

text \<open>C37: the first pass over a report template replaces every \<open>${./path}\<close> by the content of that file in
  the student's directory (nothing for a file that cannot be read) and keeps everything else, the
  dollar signs and labels included, for the second pass; it does nothing else.\<close>

theorem report_files_replaced:
  assumes "\<forall>seg \<in> set segs. segment_ok seg"
    and "\<forall>p. File_content p \<in> set segs \<longrightarrow> length (student_file dir p) < MAX_PATH_LEN"
  shows "format_report_by_file_replacement (template_text segs) dir e h =
    (Done (concat (map (report_segment (\<lambda>p. file_content e h (student_file dir p))) segs)), h)"
  using report_loop_segments [OF assms, of "[]" None "[]" e h] by (simp add: format_report_by_file_replacement_def)

definition sample_segments :: "segment list" where
  "sample_segments = [Plain ''Score: '', Label ''score'', Dollar, File_content ''log'']"

theorem report_files_replaced_witness:
  "format_report_by_file_replacement (template_text sample_segments) ''d''
     (sample_env id (\<lambda>path. if path = student_file ''d'' ''log'' then Some ''all passed'' else None)) [] =
   (Done (''Score: '' @ [dollar, lbrace] @ ''score'' @ [rbrace, dollar, dollar] @ ''all passed''), [])"
proof -
  have "\<forall>seg \<in> set sample_segments. segment_ok seg"
    by (simp add: sample_segments_def plain_def char_at_def)
  from report_files_replaced [OF this, of "''d''" "sample_env id (\<lambda>path. if path = student_file ''d'' ''log'' then Some ''all passed'' else None)" "[]"]
  show ?thesis
    by (simp add: sample_segments_def file_content_def student_file_def MAX_PATH_LEN_def)
      (simp add: sample_env_def)
qed

text \<open>C38: the second pass replaces every \<open>${label}\<close> by the value in the student's row of the sheet and
  every \<open>$$\<close> by a dollar sign, and gives one issue per row of the sheet, in the order of the rows. If
  one label of one report is not in the sheet, it fails and there is no issue for anybody.\<close>

theorem feedback_labels_replaced:
  assumes "int (length segss) = sheet_height sheet"
    and "\<forall>segs \<in> set segss. \<forall>seg \<in> set segs. segment_ok seg \<and> no_file seg"
    and "\<forall>y l. y < length segss \<and> find_label sheet l \<ge> 0 \<longrightarrow> get_value sheet (find_label sheet l) (int y) \<noteq> None"
  shows "\<exists>issues ok h'. format_feedback_issues (map template_text segss) sheet sheet_name e h = (Done (issues, ok), h') \<and>
    (ok \<longleftrightarrow> (\<forall>segs \<in> set segss. \<forall>l. Label l \<in> set segs \<longrightarrow> find_label sheet l \<noteq> - 1)) \<and>
    issues = (if ok then map (\<lambda>y. concat (map (issue_segment sheet y) (segss ! y))) [0..<length segss] else [])"
proof -
  have known: "segment_known sheet seg \<longleftrightarrow> (\<forall>l. seg = Label l \<longrightarrow> find_label sheet l \<noteq> - 1)" for seg
  proof -
    have "find_label sheet l \<ge> 0 \<or> find_label sheet l = - 1" for l
      by (rule find_label_range)
    then show ?thesis by (cases seg) (auto simp: label_found_def)
  qed
  obtain h' where "format_feedback_issues (map template_text segss) sheet sheet_name e h =
      (let known = (\<forall>segs \<in> set segss. \<forall>seg \<in> set segs. segment_known sheet seg)
       in (Done (if known then map (\<lambda>y. concat (map (issue_segment sheet y) (segss ! y))) [0..<length segss] else [], known), h'))"
    using feedback_issues_run [of segss sheet sheet_name e h] assms by blast
  then show ?thesis
    by (auto simp: Let_def known)
qed

text \<open>A sheet with one student, and the report of the first pass for her.\<close>

definition sample_grades :: Sheet where
  "sample_grades =
     \<lparr>sheet_width = 2, sheet_height = 1, sheet_labels = [''id'', ''score''], sheet_values = [''ann'', ''90''], sheet_content = []\<rparr>"

lemma sample_labels: "find_label sample_grades l \<in> {- 1, 0, 1}"
  by (simp add: find_label_def sample_grades_def take_Cons')

lemma sample_values:
  "y < 1 \<Longrightarrow> find_label sample_grades l \<ge> 0 \<Longrightarrow> get_value sample_grades (find_label sample_grades l) (int y) \<noteq> None"
proof -
  have "get_value sample_grades 0 0 \<noteq> None" "get_value sample_grades 1 0 \<noteq> None" by code_simp+
  then show "y < 1 \<Longrightarrow> find_label sample_grades l \<ge> 0 \<Longrightarrow> get_value sample_grades (find_label sample_grades l) (int y) \<noteq> None"
    using sample_labels [of l] by auto
qed

theorem feedback_labels_replaced_witness:
  "\<forall>e :: env. \<exists>h'. format_feedback_issues [template_text [Plain ''Score: '', Label ''score'', Dollar]] sample_grades ''hw1'' e [] =
    (Done ([''Score: 90'' @ [dollar]], True), h')"
proof
  fix e :: env
  let ?segss = "[[Plain ''Score: '', Label ''score'', Dollar]]"
  have label: "find_label sample_grades ''score'' = 1" "get_value sample_grades 1 0 = Some ''90''" by code_simp+
  have get: "\<forall>y l. y < length ?segss \<and> find_label sample_grades l \<ge> 0 \<longrightarrow>
      get_value sample_grades (find_label sample_grades l) (int y) \<noteq> None"
    using sample_values by auto
  have len: "int (length ?segss) = sheet_height sample_grades"
    "\<forall>segs \<in> set ?segss. \<forall>seg \<in> set segs. segment_ok seg \<and> no_file seg"
    by (simp_all add: sample_grades_def plain_def char_at_def)
  from feedback_labels_replaced [OF len get, of "''hw1''" e "[]"] show "\<exists>h'. format_feedback_issues [template_text [Plain ''Score: '', Label ''score'', Dollar]] sample_grades ''hw1'' e [] =
    (Done ([''Score: 90'' @ [dollar]], True), h')"
    by (auto simp: label label_found_def label_value_def)
qed

text \<open>The second pass also reads what the first took from a student's file: if the file a template
  includes has \<open>${label}\<close> in it for a label that is not in the sheet, no issue is created for any
  student of the homework, whatever the other reports are.\<close>

lemma student_file_stops_announcement:
  assumes "plain t" and "plain p" and "length (student_file dir p) < MAX_PATH_LEN"
    and content: "fopen_read e h (student_file dir p) = Some (s @ [dollar, lbrace] @ l @ [rbrace])"
    and "plain s" and "plain l" and "\<not> (char_at l 0 = CHR ''.'' \<and> char_at l 1 = CHR ''/'')" and "find_label sheet l = - 1"
    and "int (length segss) = sheet_height sheet" and "y < length segss"
    and "\<forall>segs \<in> set segss. \<forall>seg \<in> set segs. segment_ok seg \<and> no_file seg"
    and "\<forall>y l. y < length segss \<and> find_label sheet l \<ge> 0 \<longrightarrow> get_value sheet (find_label sheet l) (int y) \<noteq> None"
  shows "\<exists>r h'. format_report_by_file_replacement (template_text [Plain t, File_content p]) dir e h = (Done r, h) \<and>
    format_feedback_issues ((map template_text segss)[y := r]) sheet sheet_name e h = (Done ([], False), h')"
proof -
  let ?segs = "[Plain t, Plain s, Label l]"
  let ?all = "segss[y := ?segs]"
  have "\<forall>seg \<in> set [Plain t, File_content p]. segment_ok seg"
    "\<forall>q. File_content q \<in> set [Plain t, File_content p] \<longrightarrow> length (student_file dir q) < MAX_PATH_LEN"
    using assms(1-3) by auto
  from report_loop_segments [OF this, of "[]" None "[]" e h]
  have report: "format_report_by_file_replacement (template_text [Plain t, File_content p]) dir e h = (Done (template_text ?segs), h)"
    by (simp add: format_report_by_file_replacement_def file_content_def content)
  have ok: "\<forall>segs \<in> set ?all. \<forall>seg \<in> set segs. segment_ok seg \<and> no_file seg"
  proof
    fix segs assume "segs \<in> set ?all"
    then have "segs = ?segs \<or> segs \<in> set segss" using set_update_subset_insert [of segss y ?segs] by auto
    then show "\<forall>seg \<in> set segs. segment_ok seg \<and> no_file seg" using assms(1,5-7,11) by auto
  qed
  have "\<not> segment_known sheet (Label l)" using assms(8) by (simp add: label_found_def)
  then have unknown: "(\<forall>segs \<in> set ?all. \<forall>seg \<in> set segs. segment_known sheet seg) = False"
    using set_update_memI [OF assms(10), of ?segs] by (metis list.set_intros)
  have "int (length ?all) = sheet_height sheet" using assms(9) by simp
  from feedback_issues_run [OF this ok, of sheet_name e h] assms(12)
  obtain h' where "format_feedback_issues (map template_text ?all) sheet sheet_name e h = (Done ([], False), h')"
    unfolding unknown Let_def if_False length_list_update by blast
  then show ?thesis using report by (auto simp: map_update)
qed

end
