(* ===== verification/GradingSpec.thy ===== *)
theory GradingSpec imports Grading HomeworkSpec TemplateSpec GithubSpec begin

text \<open>
  What \<open>grade-homework\<close> writes for the rows of the sheet, and which issues \<open>announce-grade\<close> creates and
  edits.
\<close>

lemma find_name_less: "find_name names s = Some i \<Longrightarrow> i < length names"
  by (auto simp: find_name_def find_Some_iff)

subsection \<open>Requests that change something\<close>

definition changes :: "history \<Rightarrow> history" where
  "changes t = filter (\<lambda>ev. \<not> keeps_remote ev) t"

lemma changes_simps [simp]:
  "changes [] = []" "changes (t @ u) = changes t @ changes u"
  "changes (ev # t) = (if keeps_remote ev then changes t else ev # changes t)"
  by (simp_all add: changes_def)

lemma post_answers:
  assumes "answers e status body" and "token_fits t"
  shows "bd (begin_curl_group 1) (\<lambda>grp. bd (assign_github_post_like grp 0 url t ty d) (\<lambda>grp.
      bd (complete_all_works grp) (\<lambda>grp. pure (end_curl_group grp)))) e h =
    (Done (status url < 400), h @ [Http \<lparr>req_url = url, req_header = github_header t, req_type = Some ty, req_data = d\<rparr>])"
  using assms(2) answersD [OF assms(1)]
  by (simp add: begin_curl_group_def assign_github_post_like_def format_github_header_def token_fits_def
      assign_work_def complete_all_works_def group_requests_def List.map_filter_def idle_worker_def finish_worker_def
      end_curl_group_def sq_def)

definition issues_path :: "string \<Rightarrow> string \<Rightarrow> int \<Rightarrow> string" where
  "issues_path organization repo number =
     ''repos/'' @ organization @ ''/'' @ repo @ ''/issues'' @ (if number = 0 then [] else ''/'' @ show_int number)"

text \<open>The request that creates an issue, or edits the one with the number.\<close>

definition issue_request :: "string \<Rightarrow> string \<Rightarrow> string \<Rightarrow> string \<Rightarrow> string \<Rightarrow> int \<Rightarrow> event" where
  "issue_request github_token organization issue_title repo body number =
     Http \<lparr>req_url = full_url (issues_path organization repo number), req_header = github_header github_token,
       req_type = Some (if number = 0 then ''POST'' else ''PATCH''), req_data = issue_data issue_title body\<rparr>"

text \<open>A request that GitHub answers with an error.\<close>

definition refused :: "(string \<Rightarrow> int) \<Rightarrow> event \<Rightarrow> bool" where
  "refused status ev \<longleftrightarrow> (case ev of Http r \<Rightarrow> status (req_url r) \<ge> 400 | _ \<Rightarrow> False)"

lemma issue_request_changes [simp]: "\<not> keeps_remote (issue_request t organization title repo body number)"
  by (simp add: issue_request_def is_get_def)

lemma announce_one_run:
  assumes "answers e status body" and "token_fits t" and "fits (issues_path organization repo number)"
  shows "announce_one False title t organization repo issue number e h =
    (Done (refused status (issue_request t organization title repo issue number)),
     h @ [issue_request t organization title repo issue number])"
proof -
  have "github_url (issues_path organization repo number) = pure (full_url (issues_path organization repo number))"
    using assms(3) by (rule github_url_fits)
  then show ?thesis
    using post_answers [OF assms(1,2)]
    by (cases "number = 0")
      (simp_all add: announce_one_def create_issue_def edit_issue_def issues_path_def issue_request_def refused_def not_less)
qed

text \<open>The announcement of a row, if the student has a repository.\<close>

definition announcement ::
  "string \<Rightarrow> string \<Rightarrow> string \<Rightarrow> string list \<Rightarrow> int list \<Rightarrow> string \<Rightarrow> string \<Rightarrow> event list" where
  "announcement github_token organization issue_title repos numbers req_repo body =
     (case find_name repos req_repo of
        None \<Rightarrow> []
      | Some i \<Rightarrow> [issue_request github_token organization issue_title (repos ! i) body (numbers ! i)])"

lemma announce_row_run:
  assumes "answers e status body" and "token_fits t"
    and "\<forall>i < length repos. fits (issues_path organization (repos ! i) (numbers ! i))"
    and "get_value sheet x (int y) = Some student" and "length (title @ ''-'' @ student) < 256"
  shows "\<exists>u. announce_row title False interval issue_title t organization repos numbers bodies sheet x y (n, m) e h =
      (Done (n + length (changes u), m + length (filter (refused status) (changes u))), h @ u) \<and>
    changes u = announcement t organization issue_title repos numbers (title @ ''-'' @ student) (bodies ! y)"
proof (cases "find_name repos (title @ ''-'' @ student)")
  case None
  then show ?thesis
    using assms(4,5) by (simp add: announce_row_def value_at_def announcement_def)
next
  case (Some i)
  then have "fits (issues_path organization (repos ! i) (numbers ! i))"
    using assms(3) find_name_less by blast
  then have one: "bd (announce_one False issue_title t organization (repos ! i) (bodies ! y) (numbers ! i)) f e h =
      f (refused status (issue_request t organization issue_title (repos ! i) (bodies ! y) (numbers ! i))) e
        (h @ [issue_request t organization issue_title (repos ! i) (bodies ! y) (numbers ! i)])" for f and h
    using announce_one_run [OF assms(1,2)] by simp
  show ?thesis
    using assms(4,5) Some
    by (intro exI [of _ "[Output (''Announce grade for '' @ quoted (repos ! i)),
        issue_request t organization issue_title (repos ! i) (bodies ! y) (numbers ! i), Sleep interval]"])
      (simp add: announce_row_def value_at_def announcement_def sq_def one)
qed

text \<open>The reports of all rows, read as C strings.\<close>

lemma read_reports_run:
  assumes "\<forall>y < nat (sheet_height sheet). get_value sheet x (int y) = Some (ident y) \<and>
      length (dir @ ''/'' @ ident y @ ''.md'') < MAX_PATH_LEN \<and>
      (\<forall>h. file_content e h (dir @ ''/'' @ ident y @ ''.md'') = report y)"
  shows "read_reports dir sheet x e h = (Done (map (\<lambda>y. cstr (report y)) [0..<nat (sheet_height sheet)]), h)"
proof -
  let ?I = "\<lambda>k reports t. reports = map (\<lambda>y. cstr (report y)) [0..<k] \<and> t = []"
  have "\<exists>reports t. read_reports dir sheet x e h = (Done reports, h @ t) \<and> ?I (nat (sheet_height sheet)) reports t"
    unfolding read_reports_def
    by (rule foldp_history [where I = ?I]) (use assms in \<open>auto simp: value_at_def read_file_def file_content_def\<close>)
  then show ?thesis by simp
qed

lemma cstr_template_text: "\<forall>seg \<in> set segs. segment_ok seg \<Longrightarrow> cstr (template_text segs) = template_text segs"
proof -
  have "NUL \<notin> set (segment_text seg)" if "segment_ok seg" for seg
    using that by (cases seg) (auto simp: plain_def)
  then show "\<forall>seg \<in> set segs. segment_ok seg \<Longrightarrow> ?thesis"
    by (intro cstr_id) (auto simp: template_text_def)
qed

lemma changes_kept: "\<forall>ev \<in> set t. keeps_remote ev \<Longrightarrow> changes t = []"
  by (simp add: changes_def)

text \<open>What is announced to the student of a row.\<close>

definition issue_of :: "Sheet \<Rightarrow> segment list list \<Rightarrow> nat \<Rightarrow> string" where
  "issue_of sheet segss y = concat (map (issue_segment sheet y) (segss ! y))"

lemma announce_loop_run:
  assumes "answers e status body" and "token_fits t"
    and "\<forall>i < length repos. fits (issues_path organization (repos ! i) (numbers ! i))"
    and "\<forall>y < n. get_value sheet x (int y) = Some (student y) \<and> length (title @ ''-'' @ student y) < 256"
  shows "\<exists>u. foldp (announce_row title False interval issue_title t organization repos numbers bodies sheet x)
      [0..<n] (0, 0) e h = (Done (length (changes u), length (filter (refused status) (changes u))), h @ u) \<and>
    changes u = concat (map (\<lambda>y. announcement t organization issue_title repos numbers (title @ ''-'' @ student y) (bodies ! y)) [0..<n])"
proof -
  let ?one = "\<lambda>y. announcement t organization issue_title repos numbers (title @ ''-'' @ student y) (bodies ! y)"
  let ?I = "\<lambda>k counts u. counts = (length (changes u), length (filter (refused status) (changes u))) \<and> changes u = concat (map ?one [0..<k])"
  let ?step = "announce_row title False interval issue_title t organization repos numbers bodies sheet x"
  have "\<exists>counts u. foldp ?step [0..<n] (0, 0) e h = (Done counts, h @ u) \<and> ?I n counts u"
  proof (rule foldp_history [where I = ?I])
    fix y u and counts :: "nat \<times> nat"
    assume y: "y < n" and I: "?I y counts u"
    obtain v where "?step y counts e (h @ u) = (Done (length (changes u) + length (changes v),
        length (filter (refused status) (changes u)) + length (filter (refused status) (changes v))), (h @ u) @ v)"
      "changes v = ?one y"
      using announce_row_run [OF assms(1-3), of sheet x y "student y" title interval issue_title bodies "length (changes u)" "length (filter (refused status) (changes u))" "h @ u"]
        assms(4) y I by auto
    then show "\<exists>counts' v. ?step y counts e (h @ u) = (Done counts', h @ u @ v) \<and> ?I (Suc y) counts' (u @ v)"
      using I by auto
  qed simp
  then show ?thesis by blast
qed

subsection \<open>What grading writes\<close>

text \<open>The files a program has written, with what was written, in order.\<close>

definition writes :: "history \<Rightarrow> (string \<times> string) list" where
  "writes t = List.map_filter (\<lambda>ev. case ev of Write_file p s \<Rightarrow> Some (p, s) | _ \<Rightarrow> None) t"

lemma writes_simps [simp]:
  "writes [] = []" "writes (t @ u) = writes t @ writes u" "writes (Write_file p s # t) = (p, s) # writes t"
  "writes (Output s # t) = writes t" "writes (Delete_file s # t) = writes t" "writes (Open_write s # t) = writes t"
  by (simp_all add: writes_def List.map_filter_def)

definition score_of :: "env \<Rightarrow> string \<Rightarrow> string" where
  "score_of e s =
     (let at_digit = dropWhile (\<lambda>c. \<not> is_digit c) (cstr s)
      in if at_digit = [] then ''0.000000'' else score_text e at_digit)"

lemma read_score_run: "read_score path e h = (Done (score_of e (file_content e h path)), h)"
  by (simp add: read_score_def read_file_def file_content_def score_of_def Let_def)

definition report_file :: "string \<Rightarrow> string \<Rightarrow> string" where
  "report_file report_dir student_id = report_dir @ ''/'' @ student_id @ ''.md''"

definition score_file :: "string \<Rightarrow> work \<Rightarrow> string" where
  "score_file score_relative_path wk = work_dir wk @ ''/'' @ score_relative_path"

text \<open>The directory of a graded work has the files \<open>files\<close>, whatever else is written meanwhile.\<close>

definition graded_files :: "env \<Rightarrow> (string \<Rightarrow> string) \<Rightarrow> segment list \<Rightarrow> string \<Rightarrow> work \<Rightarrow> bool" where
  "graded_files e files segs score_relative_path wk \<longleftrightarrow>
     length (score_file score_relative_path wk) < MAX_PATH_LEN \<and>
     (\<forall>h. file_content e h (score_file score_relative_path wk) = files (score_file score_relative_path wk)) \<and>
     (\<forall>p. File_content p \<in> set segs \<longrightarrow> length (student_file (work_dir wk) p) < MAX_PATH_LEN \<and>
        (\<forall>h. file_content e h (student_file (work_dir wk) p) = files (student_file (work_dir wk) p)))"

definition report_of :: "(string \<Rightarrow> string) \<Rightarrow> segment list \<Rightarrow> work \<Rightarrow> string" where
  "report_of files segs wk = concat (map (report_segment (\<lambda>p. files (student_file (work_dir wk) p))) segs)"

lemma report_text_run:
  assumes "\<forall>seg \<in> set segs. segment_ok seg" and "graded_files e files segs score_relative_path wk"
  shows "format_report_by_file_replacement (template_text segs) (work_dir wk) e h = (Done (report_of files segs wk), h)"
proof -
  have "\<forall>p. File_content p \<in> set segs \<longrightarrow> length (student_file (work_dir wk) p) < MAX_PATH_LEN"
    using assms(2) by (simp add: graded_files_def)
  moreover have "map (report_segment (\<lambda>p. file_content e h (student_file (work_dir wk) p))) segs =
      map (report_segment (\<lambda>p. files (student_file (work_dir wk) p))) segs"
  proof (intro map_cong refl)
    fix seg assume "seg \<in> set segs"
    then show "report_segment (\<lambda>p. file_content e h (student_file (work_dir wk) p)) seg =
        report_segment (\<lambda>p. files (student_file (work_dir wk) p)) seg"
      using assms(2) unfolding graded_files_def by (cases rule: report_segment.cases [of "(files, seg)"]) simp_all
  qed
  ultimately show ?thesis
    using report_loop_segments [OF assms(1), of "work_dir wk" "[]" None "[]" e h]
    by (simp add: format_report_by_file_replacement_def report_of_def del: map_eq_conv)
qed

lemma write_report_run:
  assumes "\<forall>seg \<in> set segs. segment_ok seg" and "graded_files e files segs score_relative_path wk"
    and "length (report_file report_dir student_id) < MAX_PATH_LEN" and "\<forall>h. fopen_write e h (report_file report_dir student_id)"
  shows "\<exists>u. write_report report_dir (template_text segs) score_relative_path student_id wk e h =
      (Done (score_of e (files (score_file score_relative_path wk))), h @ u) \<and>
    writes u = [(report_file report_dir student_id, report_of files segs wk)]"
proof -
  have score: "length (score_file score_relative_path wk) < MAX_PATH_LEN"
    "\<And>h. file_content e h (score_file score_relative_path wk) = files (score_file score_relative_path wk)"
    using assms(2) by (simp_all add: graded_files_def)
  let ?u = "[Delete_file (report_file report_dir student_id), Open_write (report_file report_dir student_id),
    Write_file (report_file report_dir student_id) (report_of files segs wk)]"
  show ?thesis
    using assms(3,4) score report_text_run [OF assms(1,2)]
    by (intro exI [of _ ?u])
      (simp add: write_report_def report_file_def score_file_def read_score_run open_write_def sq_def)
qed

text \<open>The writes of a row: the student's report if the work has succeeded, and the line with the score.\<close>

definition row_score :: "env \<Rightarrow> (string \<Rightarrow> string) \<Rightarrow> string \<Rightarrow> work \<Rightarrow> string" where
  "row_score e files score_relative_path wk =
     (if exit_code wk = 0 then score_of e (files (score_file score_relative_path wk)) else ''0.000000'')"

definition row_writes ::
  "env \<Rightarrow> (string \<Rightarrow> string) \<Rightarrow> segment list \<Rightarrow> string \<Rightarrow> string option \<Rightarrow> string list \<Rightarrow> work list \<Rightarrow> string \<Rightarrow> string \<Rightarrow>
   string \<Rightarrow> string \<Rightarrow> (string \<times> string) list" where
  "row_writes e files segs out_path only_repo repos works report_dir score_relative_path student_id req_name =
     (case find_name repos req_name of
        None \<Rightarrow> if only_repo = None then [(out_path, ''0.000000'' @ newline)] else []
      | Some i \<Rightarrow>
          (if exit_code (works ! i) = 0
           then [(report_file report_dir student_id, report_of files segs (works ! i))] else []) @
          [(out_path, row_score e files score_relative_path (works ! i) @ newline)])"

lemma grade_row_run:
  assumes "\<forall>seg \<in> set segs. segment_ok seg"
    and "\<forall>i < length repos. exit_code (works ! i) = 0 \<longrightarrow> graded_files e files segs score_relative_path (works ! i)"
    and "get_value sheet student_x (int y) = Some student" and "length (title @ ''-'' @ student) < 256"
    and "get_value sheet id_x (int y) = Some student_id"
    and "length (report_file report_dir student_id) < MAX_PATH_LEN" and "\<forall>h. fopen_write e h (report_file report_dir student_id)"
  shows "\<exists>u. grade_row title out_path deadline only_repo repos push_times works report_dir (template_text segs)
      score_relative_path sheet student_x id_x y (n, l, f) e h =
      (Done (case find_name repos (title @ ''-'' @ student) of None \<Rightarrow> (n, l, f)
             | Some i \<Rightarrow> (n + 1, l + of_bool (push_times ! i > deadline), f + of_bool (exit_code (works ! i) \<noteq> 0))), h @ u) \<and>
    writes u = row_writes e files segs out_path only_repo repos works report_dir score_relative_path student_id (title @ ''-'' @ student)"
proof (cases "find_name repos (title @ ''-'' @ student)")
  case None
  then show ?thesis
    using assms(3-5) by (cases only_repo) (simp_all add: grade_row_def value_at_def row_writes_def sq_def)
next
  case (Some i)
  then have i: "i < length repos" by (rule find_name_less)
  show ?thesis
  proof (cases "exit_code (works ! i) = 0")
    case True
    then obtain u where u: "write_report report_dir (template_text segs) score_relative_path student_id (works ! i) e h =
        (Done (score_of e (files (score_file score_relative_path (works ! i)))), h @ u)"
      "writes u = [(report_file report_dir student_id, report_of files segs (works ! i))]"
      using write_report_run [OF assms(1) _ assms(6,7)] assms(2) i by blast
    then show ?thesis
      using assms(3-5) Some True
      by (intro exI [of _ "u @ [Write_file out_path (row_score e files score_relative_path (works ! i) @ newline)]"])
        (simp add: grade_row_def value_at_def row_writes_def row_score_def sq_def)
  next
    case False
    then show ?thesis
      using assms(3-5) Some by (simp add: grade_row_def value_at_def row_writes_def row_score_def sq_def)
  qed
qed

subsection \<open>Properties\<close>

text \<open>C5: \<open>announce-grade\<close> creates or edits one issue per row of the sheet whose student has a repository, in
  the order of the rows, with the student's report in which every label has been replaced by the
  value in the student's own row, and changes nothing else; if one label of one report is not in
  the sheet, it changes nothing at all. It counts these requests and, as failures, those GitHub refuses.\<close>

theorem announce_rows_requests:
  assumes "answers e status body" and "token_fits github_token"
    and "\<forall>i < length repos. fits (issues_path organization (repos ! i) (numbers ! i))"
    and "sheet_width sheet > 0" and "sheet_height sheet = int (length segss)" and "segss \<noteq> []"
    and "find_label sheet student_label = int student_x" and "find_label sheet id_label = int id_x"
    and "\<forall>y < length segss. get_value sheet (int student_x) (int y) = Some (student y) \<and> length (title @ ''-'' @ student y) < 256"
    and "\<forall>y < length segss. get_value sheet (int id_x) (int y) = Some (ident y) \<and>
      length (report_dir @ ''/'' @ ident y @ ''.md'') < MAX_PATH_LEN \<and>
      (\<forall>h. file_content e h (report_dir @ ''/'' @ ident y @ ''.md'') = template_text (segss ! y))"
    and "\<forall>segs \<in> set segss. \<forall>seg \<in> set segs. segment_ok seg \<and> no_file seg"
    and "\<forall>y l. y < length segss \<and> find_label sheet l \<ge> 0 \<longrightarrow> get_value sheet (find_label sheet l) (int y) \<noteq> None"
  shows "\<exists>t. announce_rows title False interval issue_title report_dir github_token organization repos numbers sheet
        spreadsheet_id student_label id_label e h =
        (Done (length (changes t), length (filter (refused status) (changes t))), h @ t) \<and>
      changes t = (if \<forall>segs \<in> set segss. \<forall>seg \<in> set segs. segment_known sheet seg
        then concat (map (\<lambda>y. announcement github_token organization issue_title repos numbers (title @ ''-'' @ student y)
               (issue_of sheet segss y)) [0..<length segss])
        else [])"
proof -
  let ?n = "length segss" and ?known = "\<forall>segs \<in> set segss. \<forall>seg \<in> set segs. segment_known sheet seg"
  let ?issues = "if ?known then map (issue_of sheet segss) [0..<?n] else []"
  have "read_reports report_dir sheet (int id_x) e h = (Done (map (\<lambda>y. cstr (template_text (segss ! y))) [0..<?n]), h)" for h
    using read_reports_run [of sheet "int id_x" ident report_dir e "\<lambda>y. template_text (segss ! y)" h] assms(5,10) by simp
  moreover have "map (\<lambda>y. cstr (template_text (segss ! y))) [0..<?n] = map template_text segss"
  proof (rule nth_equalityI)
    fix y assume "y < length (map (\<lambda>y. cstr (template_text (segss ! y))) [0..<?n])"
    then have "segss ! y \<in> set segss" and y: "y < ?n" by simp_all
    then have "cstr (template_text (segss ! y)) = template_text (segss ! y)"
      using assms(11) cstr_template_text by blast
    then show "map (\<lambda>y. cstr (template_text (segss ! y))) [0..<?n] ! y = map template_text segss ! y"
      using y by simp
  qed simp
  ultimately have reports: "read_reports report_dir sheet (int id_x) e h = (Done (map template_text segss), h)" for h
    by simp
  obtain h' where h': "format_feedback_issues (map template_text segss) sheet title e h = (Done (?issues, ?known), h')"
    using feedback_issues_run [of segss sheet title e h] assms(5,11,12) unfolding Let_def issue_of_def by auto
  obtain t where t: "h' = h @ t" "changes t = []"
    using emitsD [OF emits_templates(2) h', of keeps_remote] changes_kept by auto
  obtain u where u: "foldp (announce_row title False interval issue_title github_token organization repos numbers ?issues sheet
        (int student_x)) [0..<?n] (0, 0) e (h @ t) =
        (Done (length (changes u), length (filter (refused status) (changes u))), (h @ t) @ u)"
      "changes u = concat (map (\<lambda>y. announcement github_token organization issue_title repos numbers (title @ ''-'' @ student y)
        (?issues ! y)) [0..<?n])"
    using announce_loop_run [OF assms(1-3,9), of interval issue_title ?issues "h @ t"] by auto
  show ?thesis
  proof (cases ?known)
    case True
    then show ?thesis
      using assms(4-8) reports h' t u
      by (intro exI [of _ "t @ u"]) (auto simp: announce_rows_def Let_def intro!: arg_cong [where f = concat] map_cong)
  next
    case False
    then have unknown: "?known = False" by (rule eq_False [THEN iffD2])
    show ?thesis
      unfolding unknown if_False
      using assms(4-8) reports h' [unfolded unknown if_False] t
      by (intro exI [of _ "t @ [Output ''ABORT: some issue formats are invalid'']"]) (simp add: announce_rows_def Let_def sq_def)
  qed
qed

text \<open>The announcement for the student of \<open>sample_grades\<close>, whose repository has the issue 7 already.\<close>

definition sample_report :: "segment list" where
  "sample_report = [Plain ''Score: '', Label ''score'', Dollar]"

definition sample_reports_env :: env where
  "sample_reports_env =
     sample_env (\<lambda>url. []) (\<lambda>path. if path = ''reports/ann.md'' then Some (template_text sample_report) else None)"

theorem announce_rows_requests_witness:
  "\<exists>t. announce_rows ''hw1'' False 1000 ''Grade for hw1'' ''reports'' ''token'' ''org'' [''hw1-Ann''] [7] sample_grades
        ''sheet'' ''id'' ''id'' sample_reports_env [] = (Done (1, 0), [] @ t) \<and>
      changes t = [issue_request ''token'' ''org'' ''Grade for hw1'' ''hw1-Ann'' (''Score: 90'' @ [dollar]) 7]"
proof -
  let ?segss = "[sample_report]"
  have labels: "find_label sample_grades ''id'' = int 0" "find_label sample_grades ''score'' = 1"
    "get_value sample_grades (int 0) (int 0) = Some ''ann''" "get_value sample_grades 1 0 = Some ''90''"
    by code_simp+
  have 1: "answers sample_reports_env (\<lambda>url. 200) (\<lambda>url. [])"
    unfolding sample_reports_env_def by (rule sample_answers)
  have 2: "token_fits ''token''" and 3: "\<forall>i < length [''hw1-Ann'']. fits (issues_path ''org'' ([''hw1-Ann''] ! i) ([7] ! i))"
    by (simp_all add: token_fits_def github_header_def crlf_def MAX_REST_HEADER_LEN_def fits_def full_url_def
        issues_path_def MAX_URL_LEN_def show_int_def show_nat.simps)
  have 4: "sheet_width sample_grades > 0" and 5: "sheet_height sample_grades = int (length ?segss)" and 6: "?segss \<noteq> []"
    by (simp_all add: sample_grades_def)
  have 9: "\<forall>y < length ?segss. get_value sample_grades (int 0) (int y) = Some ''ann'' \<and> length (''hw1'' @ ''-'' @ ''ann'') < 256"
    using labels by simp
  have 10: "\<forall>y < length ?segss. get_value sample_grades (int 0) (int y) = Some ''ann'' \<and>
      length (''reports'' @ ''/'' @ ''ann'' @ ''.md'') < MAX_PATH_LEN \<and>
      (\<forall>h. file_content sample_reports_env h (''reports'' @ ''/'' @ ''ann'' @ ''.md'') = template_text (?segss ! y))"
    using labels by (simp add: file_content_def sample_reports_env_def sample_env_def MAX_PATH_LEN_def)
  have 11: "\<forall>segs \<in> set ?segss. \<forall>seg \<in> set segs. segment_ok seg \<and> no_file seg"
    by (simp add: sample_report_def plain_def char_at_def)
  have 12: "\<forall>y l. y < length ?segss \<and> find_label sample_grades l \<ge> 0 \<longrightarrow>
      get_value sample_grades (find_label sample_grades l) (int y) \<noteq> None"
    using sample_values by auto
  have found: "find_name [''hw1-Ann''] (''hw1'' @ ''-'' @ ''ann'') = Some 0" by code_simp
  have issue: "issue_of sample_grades ?segss 0 = ''Score: 90'' @ [dollar]"
    "\<forall>segs \<in> set ?segss. \<forall>seg \<in> set segs. segment_known sample_grades seg"
    by (simp_all add: issue_of_def sample_report_def label_found_def label_value_def labels)
  have accepted: "refused (\<lambda>url. 200) ev = False" for ev
    by (simp add: refused_def split: event.split)
  from announce_rows_requests [OF 1 2 3 4 5 6 labels(1,1) 9 10 11 12, of 1000 "''Grade for hw1''" "''sheet''" "[]"]
  show ?thesis using issue found by (auto simp: announcement_def accepted)
qed

text \<open>C4: \<open>grade-homework\<close> writes, in the order of the rows of the sheet, for each student one line with the score
  to the output file (with \<open>--only-repo\<close> for that student alone) and, if the student's grading run has
  succeeded, the report made from the template and the files of the run; a student without a repository
  and a failed run get 0.000000, and the report of a failed run is left as it was. The counts of the
  summary are the numbers of students with a repository, of late and of failed ones among them.\<close>

theorem grade_rows_writes:
  assumes "sheet_width sheet > 0" and "sheet_height sheet = int n" and "n > 0"
    and "find_label sheet student_label = int student_x" and "find_label sheet id_label = int id_x"
    and "\<forall>seg \<in> set segs. segment_ok seg"
    and "\<forall>i < length repos. exit_code (works ! i) = 0 \<longrightarrow> graded_files e files segs score_relative_path (works ! i)"
    and "\<forall>y < n. get_value sheet (int student_x) (int y) = Some (student y) \<and> length (title @ ''-'' @ student y) < 256"
    and "\<forall>y < n. get_value sheet (int id_x) (int y) = Some (ident y) \<and>
      length (report_file report_dir (ident y)) < MAX_PATH_LEN \<and> (\<forall>h. fopen_write e h (report_file report_dir (ident y)))"
  shows "\<exists>t. grade_rows title out_path deadline dry only_repo repos push_times works report_dir (template_text segs)
        score_relative_path publish sheet spreadsheet_id student_label id_label e h =
      sq publish (pure (length (filter (\<lambda>y. find_name repos (title @ ''-'' @ student y) \<noteq> None) [0..<n]),
        length (filter (\<lambda>y. \<exists>i. find_name repos (title @ ''-'' @ student y) = Some i \<and> push_times ! i > deadline) [0..<n]),
        length (filter (\<lambda>y. \<exists>i. find_name repos (title @ ''-'' @ student y) = Some i \<and> exit_code (works ! i) \<noteq> 0) [0..<n])))
        e (h @ t) \<and>
      writes t = concat (map (\<lambda>y. row_writes e files segs out_path only_repo repos works report_dir score_relative_path
        (ident y) (title @ ''-'' @ student y)) [0..<n])"
proof -
  let ?work = "\<lambda>y. find_name repos (title @ ''-'' @ student y)"
  let ?row = "\<lambda>y. row_writes e files segs out_path only_repo repos works report_dir score_relative_path (ident y) (title @ ''-'' @ student y)"
  let ?counts = "\<lambda>k. (length (filter (\<lambda>y. ?work y \<noteq> None) [0..<k]),
    length (filter (\<lambda>y. \<exists>i. ?work y = Some i \<and> push_times ! i > deadline) [0..<k]),
    length (filter (\<lambda>y. \<exists>i. ?work y = Some i \<and> exit_code (works ! i) \<noteq> 0) [0..<k]))"
  let ?I = "\<lambda>k counts t. counts = ?counts k \<and> writes t = concat (map ?row [0..<k])"
  let ?step = "grade_row title out_path deadline only_repo repos push_times works report_dir (template_text segs)
    score_relative_path sheet (int student_x) (int id_x)"
  let ?start = "[Output ''Generating report...'']"
  have "\<exists>counts t. foldp ?step [0..<n] (0, 0, 0) e (h @ ?start) = (Done counts, (h @ ?start) @ t) \<and> ?I n counts t"
  proof (rule foldp_history [where I = ?I])
    fix y t and counts :: "nat \<times> nat \<times> nat"
    assume y: "y < n" and I: "?I y counts t"
    have row: "get_value sheet (int student_x) (int y) = Some (student y)" "length (title @ ''-'' @ student y) < 256"
      "get_value sheet (int id_x) (int y) = Some (ident y)" "length (report_file report_dir (ident y)) < MAX_PATH_LEN"
      "\<forall>h. fopen_write e h (report_file report_dir (ident y))"
      using assms(8,9) y by simp_all
    obtain a b c where abc: "?counts y = (a, b, c)" by blast
    obtain u where "?step y (a, b, c) e ((h @ ?start) @ t) =
        (Done (case ?work y of None \<Rightarrow> (a, b, c)
           | Some i \<Rightarrow> (a + 1, b + of_bool (push_times ! i > deadline), c + of_bool (exit_code (works ! i) \<noteq> 0))),
         ((h @ ?start) @ t) @ u)" "writes u = ?row y"
      using grade_row_run [OF assms(6,7) row] by blast
    moreover have "(case ?work y of None \<Rightarrow> (a, b, c)
        | Some i \<Rightarrow> (a + 1, b + of_bool (push_times ! i > deadline), c + of_bool (exit_code (works ! i) \<noteq> 0))) = ?counts (Suc y)"
      using abc by (cases "?work y") auto
    ultimately show "\<exists>counts' u. ?step y counts e ((h @ ?start) @ t) = (Done counts', (h @ ?start) @ t @ u) \<and> ?I (Suc y) counts' (t @ u)"
      using I abc by (intro exI [of _ "?counts (Suc y)"] exI [of _ u]) simp
  qed simp
  then obtain t where t: "foldp ?step [0..<n] (0, 0, 0) e (h @ ?start) = (Done (?counts n), h @ ?start @ t)"
    "writes t = concat (map ?row [0..<n])" by auto
  have "bd (foldp ?step [0..<n] (0, 0, 0)) k e (h @ ?start) = k (?counts n) e (h @ ?start @ t)" for k :: "_ \<Rightarrow> (nat \<times> nat \<times> nat) io"
    using t(1) by (rule bd_Done)
  then show ?thesis
    using assms(1-5) t(2) by (intro exI [of _ "?start @ t"]) (simp add: grade_rows_def Let_def sq_def)
qed

text \<open>A student in time, whose run has written a log and a score.\<close>

definition sample_run_files :: "string \<Rightarrow> string" where
  "sample_run_files path =
     (if path = student_file ''d'' ''log'' then ''all passed'' else if path = ''d/score.txt'' then ''Score 87'' else [])"

definition sample_run_env :: env where
  "sample_run_env = sample_env (\<lambda>url. []) (\<lambda>path. Some (sample_run_files path))"

definition sample_graded :: work where
  "sample_graded = \<lparr>exit_code = 0, work_command = ''make grade'', work_dir = ''d'', stdout_path = ''o'', stderr_path = ''e''\<rparr>"

theorem grade_rows_writes_witness:
  "\<exists>t. grade_rows ''hw1'' ''out'' 100 True None [''hw1-Ann''] [90] [sample_graded] ''reports'' (template_text sample_segments)
        ''score.txt'' skip sample_grades ''sheet'' ''id'' ''id'' sample_run_env [] = (Done (1, 0, 0), t) \<and>
      writes t = [(''reports/ann.md'', ''Score: '' @ [dollar, lbrace] @ ''score'' @ [rbrace, dollar, dollar] @ ''all passed''),
        (''out'', ''87'' @ newline)]"
proof -
  have labels: "find_label sample_grades ''id'' = int 0" "get_value sample_grades (int 0) (int 0) = Some ''ann''"
    by code_simp+
  have 1: "sheet_width sample_grades > 0" and 2: "sheet_height sample_grades = int 1" and 3: "(1 :: nat) > 0"
    by (simp_all add: sample_grades_def)
  have 6: "\<forall>seg \<in> set sample_segments. segment_ok seg"
    by (simp add: sample_segments_def plain_def char_at_def)
  have 7: "\<forall>i < length [''hw1-Ann'']. exit_code ([sample_graded] ! i) = 0 \<longrightarrow>
      graded_files sample_run_env sample_run_files sample_segments ''score.txt'' ([sample_graded] ! i)"
    by (simp add: graded_files_def sample_graded_def score_file_def file_content_def sample_run_env_def sample_segments_def
        student_file_def MAX_PATH_LEN_def)
  have 8: "\<forall>y < 1. get_value sample_grades (int 0) (int y) = Some ''ann'' \<and> length (''hw1'' @ ''-'' @ ''ann'') < 256"
    using labels by simp
  have 9: "\<forall>y < 1. get_value sample_grades (int 0) (int y) = Some ''ann'' \<and>
      length (report_file ''reports'' ''ann'') < MAX_PATH_LEN \<and> (\<forall>h. fopen_write sample_run_env h (report_file ''reports'' ''ann''))"
    using labels by (simp add: report_file_def MAX_PATH_LEN_def sample_run_env_def sample_env_def)
  have found: "find_name [''hw1-Ann''] (''hw1'' @ ''-'' @ ''ann'') = Some 0" by code_simp
  have score: "score_of sample_run_env ''Score 87'' = ''87''"
    by (simp add: score_of_def sample_run_env_def sample_env_def is_digit_def Let_def cstr_def)
  from grade_rows_writes [OF 1 2 3 labels(1,1) 6 7 8 9, of "''out''" 100 True None "[90]" skip "''sheet''" "[]"]
  show ?thesis
    using found score
    by (simp add: row_writes_def row_score_def sample_graded_def score_file_def report_file_def report_of_def
        sample_segments_def sample_run_files_def student_file_def sq_def)
qed

end
