(* ===== verification/GradingRun.thy ===== *)
theory GradingRun imports Grading WorkQueue begin

text \<open>
  The middle of \<open>grade-homework\<close>: which directory and which commit a work of the grading run has, and that the
  threads of \<open>WorkQueue\<close> do for the command what \<open>wait_for_completion\<close> of \<open>Grading\<close> says.
\<close>

subsection \<open>The works\<close>

definition cached_dir :: "env \<Rightarrow> string \<Rightarrow> GitCommitHash \<Rightarrow> string" where
  "cached_dir e repo hash = cache_dir e @ ''/'' @ repo @ ''_'' @ hash_full hash"

definition log_file :: "env \<Rightarrow> string \<Rightarrow> GitCommitHash \<Rightarrow> string \<Rightarrow> string" where
  "log_file e repo hash stream_name = log_dir e @ ''/'' @ repo @ ''_'' @ hash_trim hash @ ''_'' @ stream_name @ ''.log''"

text \<open>The work of a repository whose commit is in the cache.\<close>

definition work_for :: "env \<Rightarrow> string \<Rightarrow> string \<Rightarrow> GitCommitHash \<Rightarrow> work" where
  "work_for e command repo hash =
     \<lparr>exit_code = 0, work_command = command, work_dir = cached_dir e repo hash,
      stdout_path = log_file e repo hash ''stdout'', stderr_path = log_file e repo hash ''stderr''\<rparr>"

lemma format_string_eq: "format_string n s e h = (Done x, h') \<longleftrightarrow> x = s \<and> h' = h \<and> length s < n"
  by (auto simp: format_string_def sq_def bd_eq_Done)

lemma assertion_eq: "assertion b e h = (Done (), h') \<longleftrightarrow> b \<and> h' = h"
  by (auto simp: assertion_def skip_def pure_def crash_def)

text \<open>
  A clone has come to its directory only by a repository that was cloned from the URL and reset to the commit.
\<close>

definition clone_url :: "string \<Rightarrow> string \<Rightarrow> string \<Rightarrow> string \<Rightarrow> string" where
  "clone_url username github_token organization repo =
     ''https://'' @ username @ '':'' @ github_token @ ''@github.com/'' @ organization @ ''/'' @ repo @ ''.git''"

definition cloned_at :: "env \<Rightarrow> string \<Rightarrow> string \<Rightarrow> GitCommitHash \<Rightarrow> history \<Rightarrow> bool" where
  "cloned_at e url dir hash t \<longleftrightarrow>
     Delete_directory (git_temporary_dir e) \<in> set t \<and> Git (Git_clone url (git_temporary_dir e)) \<in> set t \<and>
     (\<forall>target source. Rename_directory target source \<in> set t \<longrightarrow>
        target = dir \<and> source = git_temporary_dir e \<and> Delete_directory dir \<in> set t \<and>
        Git (Git_commit_lookup (hash_full hash)) \<in> set t \<and> Git Git_reset_hard \<in> set t)"

lemma each_delete_run:
  "each (\<lambda>path. git_reset_callback path parent) paths e h = (Done (), h') \<Longrightarrow>
    \<exists>t. h' = h @ t \<and> (\<forall>target source. Rename_directory target source \<notin> set t)"
proof (induction paths arbitrary: h)
  case (Cons p paths)
  then obtain h1 where "each (\<lambda>path. git_reset_callback path parent) paths e (h @ [Delete_file (parent @ ''/'' @ p)]) = (Done (), h')"
    by (auto simp: git_reset_callback_def sq_def bd_eq_Done format_string_eq)
  from Cons.IH [OF this] show ?case by fastforce
qed simp

lemma git_reset_hard_run:
  "git_reset_hard parent e h = (Done ok, h') \<Longrightarrow>
    \<exists>t. h' = h @ t \<and> Git Git_reset_hard \<in> set t \<and> (\<forall>target source. Rename_directory target source \<notin> set t)"
  by (fastforce simp: git_reset_hard_def sq_def bd_eq_Done dest: each_delete_run)

lemma clone_and_reset_run:
  assumes "clone_and_reset url temporary_dir hash e h = (Done ok, h')"
  shows "\<exists>t. h' = h @ t \<and> Git (Git_clone url temporary_dir) \<in> set t \<and> (\<forall>target source. Rename_directory target source \<notin> set t) \<and>
    (ok \<longrightarrow> Git (Git_commit_lookup (hash_full hash)) \<in> set t \<and> Git Git_reset_hard \<in> set t)"
  using assms
  by (fastforce simp: clone_and_reset_def git_failed_def git_error_last_def sq_def bd_eq_Done write_error_def emit_def
      dest: git_reset_hard_run split: if_splits)

lemma clone_repository_run:
  assumes "clone_repository dir username github_token organization repo hash e h = (Done ok, h')"
  shows "\<exists>t. h' = h @ t \<and> ok = dir_exists e (h @ t) dir \<and>
    cloned_at e (clone_url username github_token organization repo) dir hash t"
proof -
  let ?tmp = "git_temporary_dir e" and ?url = "clone_url username github_token organization repo"
  obtain c h1 where c: "clone_and_reset ?url ?tmp hash e (h @ [Delete_directory ?tmp]) = (Done c, h1)"
    and h': "h' = h1 @ (if c then [Delete_directory dir, Rename_directory dir ?tmp] else [])" "ok = dir_exists e h' dir"
    using assms
    by (auto simp: clone_repository_def sq_def bd_eq_Done format_string_eq assertion_eq clone_url_def whenp_def split: if_splits)
  obtain t where t: "h1 = (h @ [Delete_directory ?tmp]) @ t" "Git (Git_clone ?url ?tmp) \<in> set t"
    "\<forall>target source. Rename_directory target source \<notin> set t"
    "c \<longrightarrow> Git (Git_commit_lookup (hash_full hash)) \<in> set t \<and> Git Git_reset_hard \<in> set t"
    using clone_and_reset_run [OF c] by blast
  show ?thesis
    using h' t by (intro exI [of _ "Delete_directory ?tmp # t @ (if c then [Delete_directory dir, Rename_directory dir ?tmp] else [])"])
      (auto simp: cloned_at_def)
qed

text \<open>
  How a work is made: the repository is cloned if it has a commit that is not in the cache; if its directory is
  there then, the tests of the template replace its own, and the work is the grading command in
  that directory; otherwise it is the empty work.
\<close>

definition work_made ::
  "env \<Rightarrow> string \<Rightarrow> string \<times> string \<Rightarrow> string \<Rightarrow> string \<Rightarrow> string \<Rightarrow> string \<times> GitCommitHash \<Rightarrow> history \<Rightarrow> work \<Rightarrow> history \<Rightarrow> bool" where
  "work_made e command template_dirs username github_token organization homework h wk h' \<longleftrightarrow>
     (case homework of (repo, hash) \<Rightarrow>
      let dir = cached_dir e repo hash; h0 = h @ [Output (''Retrieving homework from '' @ quoted repo)] in
      \<exists>t. (if hash_is_valid hash \<and> \<not> dir_exists e h0 dir
           then cloned_at e (clone_url username github_token organization repo) dir hash t else t = []) \<and>
          (if hash_is_valid hash \<and> dir_exists e (h0 @ t) dir
           then wk = work_for e command repo hash \<and>
             h' = h0 @ t @ [Delete_directory (dir @ ''/test''), Delete_directory (dir @ ''/docker''),
               Copy_directory (dir @ ''/test'') (fst template_dirs), Copy_directory (dir @ ''/docker'') (snd template_dirs)]
           else wk = zero_work \<and> h' = h0 @ t))"

fun works_made ::
  "env \<Rightarrow> string \<Rightarrow> string \<times> string \<Rightarrow> string \<Rightarrow> string \<Rightarrow> string \<Rightarrow> (string \<times> GitCommitHash) list \<Rightarrow> history \<Rightarrow> work list \<Rightarrow> history \<Rightarrow> bool" where
  "works_made e command template_dirs username github_token organization [] h works h' \<longleftrightarrow> works = [] \<and> h' = h"
| "works_made e command template_dirs username github_token organization (homework # homeworks) h works h' \<longleftrightarrow>
     (\<exists>wk rest h1. works = wk # rest \<and>
        work_made e command template_dirs username github_token organization homework h wk h1 \<and>
        works_made e command template_dirs username github_token organization homeworks h1 rest h')"

lemma cache_repository_run:
  assumes "cache_repository sz username github_token organization repo (Some hash) e h = (Done (dir, ok), h')"
  shows "\<exists>t. h' = h @ t \<and> ok = (hash_is_valid hash \<and> dir_exists e (h @ t) (cached_dir e repo hash)) \<and>
    (hash_is_valid hash \<longrightarrow> dir = cached_dir e repo hash) \<and>
    (if hash_is_valid hash \<and> \<not> dir_exists e h (cached_dir e repo hash)
     then cloned_at e (clone_url username github_token organization repo) (cached_dir e repo hash) hash t else t = [])"
  using assms
  by (auto simp: cache_repository_def bd_eq_Done format_string_eq cached_dir_def
      dest!: clone_repository_run split: if_splits)

lemma prepare_work_result:
  assumes "prepare_work command template_dirs username github_token organization homework works e h = (Done works', h')"
  shows "\<exists>wk. works' = works @ [wk] \<and> work_made e command template_dirs username github_token organization homework h wk h'"
proof -
  obtain repo hash where homework: "homework = (repo, hash)" by fastforce
  let ?h0 = "h @ [Output (''Retrieving homework from '' @ quoted repo)]" and ?dir = "cached_dir e repo hash"
  obtain dir ok h1 where c: "cache_repository MAX_PATH_LEN username github_token organization repo (Some hash) e ?h0 = (Done (dir, ok), h1)"
    and rest: "if ok then works' = works @ [\<lparr>exit_code = 0, work_command = command, work_dir = dir,
          stdout_path = log_file e repo hash ''stdout'', stderr_path = log_file e repo hash ''stderr''\<rparr>] \<and>
        h' = h1 @ [Delete_directory (dir @ ''/test''), Delete_directory (dir @ ''/docker''),
          Copy_directory (dir @ ''/test'') (fst template_dirs), Copy_directory (dir @ ''/docker'') (snd template_dirs)]
      else works' = works @ [zero_work] \<and> h' = h1"
    using assms
    by (auto simp: homework prepare_work_def sq_def bd_eq_Done format_string_eq log_file_def replace_tests_def write_output_def
        emit_def split: if_splits)
  obtain t where t: "h1 = ?h0 @ t" "ok = (hash_is_valid hash \<and> dir_exists e (?h0 @ t) ?dir)" "hash_is_valid hash \<longrightarrow> dir = ?dir"
    "if hash_is_valid hash \<and> \<not> dir_exists e ?h0 ?dir
     then cloned_at e (clone_url username github_token organization repo) ?dir hash t else t = []"
    using cache_repository_run [OF c] by blast
  show ?thesis
    using rest t unfolding homework work_made_def prod.case Let_def
    by (cases ok) (auto simp: work_for_def intro!: exI [of _ t])
qed

lemma prepare_works_result:
  assumes "foldp (prepare_work command template_dirs username github_token organization) homeworks works e h = (Done works', h')"
  shows "\<exists>new. works' = works @ new \<and> works_made e command template_dirs username github_token organization homeworks h new h'"
  using assms
proof (induction homeworks arbitrary: works h)
  case (Cons homework homeworks)
  obtain works1 h1 where 1: "prepare_work command template_dirs username github_token organization homework works e h = (Done works1, h1)"
    "foldp (prepare_work command template_dirs username github_token organization) homeworks works1 e h1 = (Done works', h')"
    using Cons.prems by (auto simp: bd_eq_Done)
  from prepare_work_result [OF 1(1)] Cons.IH [OF 1(2)] show ?case by auto
qed simp

subsection \<open>The run\<close>

fun complete_one :: "callback \<Rightarrow> work \<Rightarrow> work" where
  "complete_one (Progression i) wk = wk"
| "complete_one (Completion i c out) wk = wk\<lparr>exit_code := c\<rparr>"

lemma length_fold_complete: "length (fold complete_work cbs works) = length works"
  by (induction cbs arbitrary: works) (auto simp: complete_work_def split: callback.split)

lemma fold_complete_nth:
  "i < length works \<Longrightarrow>
    fold complete_work cbs works ! i = fold complete_one (filter (\<lambda>cb. callback_index cb = i) cbs) (works ! i)"
proof (induction cbs arbitrary: works)
  case (Cons cb cbs)
  have "length (complete_work cb works) = length works"
    "complete_work cb works ! i = (if callback_index cb = i then complete_one cb (works ! i) else works ! i)"
    using Cons.prems by (auto simp: complete_work_def split: callback.split)
  with Cons.IH [of "complete_work cb works"] Cons.prems show ?case by simp
qed simp

lemma callbacks_run:
  "\<exists>t. each (run_callback works) cbs e h = (Done (), h @ t) \<and> (\<forall>ev \<in> set t. \<exists>s. ev = Output s)"
proof (induction cbs arbitrary: h)
  case (Cons cb cbs)
  have "\<exists>u. run_callback works cb e h = (Done (), h @ u) \<and> (\<forall>ev \<in> set u. \<exists>s. ev = Output s)"
    by (cases cb)
      (auto simp: run_callback_def grade_homework_on_progression_def grade_homework_on_completion_def whenp_def)
  then obtain u where u: "run_callback works cb e h = (Done (), h @ u)" "\<forall>ev \<in> set u. \<exists>s. ev = Output s" by blast
  obtain t where "each (run_callback works) cbs e (h @ u) = (Done (), (h @ u) @ t)" "\<forall>ev \<in> set t. \<exists>s. ev = Output s"
    using Cons.IH by blast
  with u show ?case by (intro exI [of _ "u @ t"]) auto
qed simp

text \<open>What the threads have stored is what the callbacks tell.\<close>

lemma pool_works_fold:
  assumes "work_count ctx = int (length works)" and "has_completion ctx"
    and run: "(pool_step ctx)\<^sup>*\<^sup>* (initial_pool n works) p" and "main p = Main_returned"
  shows "queue_works (queue p) = fold complete_work (callbacks (queue p)) works"
proof (cases "Returned \<in> set (pool_threads p)")
  case False
  then show ?thesis using no_thread_no_work [OF assms(1) run assms(4)] by simp
next
  case True
  note finished = finished_works [OF assms(1) run assms(4) True]
  show ?thesis
  proof (rule nth_equalityI)
    fix i assume "i < length (queue_works (queue p))"
    then have i: "i < length works" using finished by simp
    then obtain c out where "calls_of (queue p) i = all_calls ctx i c out" "queue_works (queue p) ! i = (works ! i)\<lparr>exit_code := c\<rparr>"
      using finished by (auto simp: finished_work_def)
    then show "queue_works (queue p) ! i = fold complete_work (callbacks (queue p)) works ! i"
      using fold_complete_nth [OF i, of "callbacks (queue p)"] assms(2)
      by (simp add: calls_of_def all_calls_def first_calls_def)
  qed (use finished in \<open>simp add: length_fold_complete\<close>)
qed

subsection \<open>Properties\<close>

text \<open>C24: whatever the network, libgit2 and the file system answer, \<open>grade-homework\<close> makes one work per repository,
  in order. A repository with a valid commit that is not in the cache is cloned and reset to that commit first; if
  its directory is in the cache then, its tests are replaced by those of the template, and its work runs the
  grading command in that directory, with logs of its own. A repository without a valid commit, or whose
  directory is still missing after the attempt to clone it, gets the empty work.\<close>

theorem works_match_commits:
  assumes "foldp (prepare_work command template_dirs username github_token organization) (zip repos hashes) [] e h = (Done works, h')"
  shows "works_made e command template_dirs username github_token organization (zip repos hashes) h works h'"
  using prepare_works_result [OF assms] by simp

definition sample_commit :: GitCommitHash where
  "sample_commit = \<lparr>hash_full = replicate 40 CHR ''a'', hash_trim = replicate 7 CHR ''a''\<rparr>"

text \<open>The first clone is in the cache already, and no other is ever found.\<close>

definition sample_cache :: env where
  "sample_cache = (sample_env (\<lambda>url. []) (\<lambda>path. None))
     \<lparr>dir_exists := \<lambda>h path. path = ''/hand/cache/hw1-ann_'' @ replicate 40 CHR ''a''\<rparr>"

theorem works_match_commits_witness:
  "\<exists>h'. foldp (prepare_work ''make'' (''t'', ''d'') ''u'' ''k'' ''o'')
        (zip [''hw1-ann'', ''hw1-bob'', ''hw1-cid''] [sample_commit, zero_hash, sample_commit]) [] sample_cache [] =
      (Done [work_for sample_cache ''make'' ''hw1-ann'' sample_commit, zero_work, zero_work], h') \<and>
    works_made sample_cache ''make'' (''t'', ''d'') ''u'' ''k'' ''o''
      (zip [''hw1-ann'', ''hw1-bob'', ''hw1-cid''] [sample_commit, zero_hash, sample_commit]) []
      [work_for sample_cache ''make'' ''hw1-ann'' sample_commit, zero_work, zero_work] h'"
proof -
  have valid: "hash_is_valid sample_commit" "\<not> hash_is_valid zero_hash" by code_simp+
  have "\<exists>h'. foldp (prepare_work ''make'' (''t'', ''d'') ''u'' ''k'' ''o'')
        (zip [''hw1-ann'', ''hw1-bob'', ''hw1-cid''] [sample_commit, zero_hash, sample_commit]) [] sample_cache [] =
      (Done [work_for sample_cache ''make'' ''hw1-ann'' sample_commit, zero_work, zero_work], h')"
    using valid
    by (simp add: prepare_work_def cache_repository_def clone_repository_def clone_and_reset_def git_reset_hard_def replace_tests_def
        work_for_def cached_dir_def log_file_def sample_cache_def sample_env_def sample_commit_def MAX_PATH_LEN_def MAX_URL_LEN_def sq_def)
  then obtain h' where run: "foldp (prepare_work ''make'' (''t'', ''d'') ''u'' ''k'' ''o'')
        (zip [''hw1-ann'', ''hw1-bob'', ''hw1-cid''] [sample_commit, zero_hash, sample_commit]) [] sample_cache [] =
      (Done [work_for sample_cache ''make'' ''hw1-ann'' sample_commit, zero_work, zero_work], h')" by blast
  from run works_match_commits [OF run] show ?thesis by blast
qed

text \<open>C25: the threads implement the \<open>wait_for_completion\<close> of the command: when a run of the pool has returned, in whatever
  interleaving, and the command is given the calls of the callbacks it has made, the command goes on with exactly the
  works the threads have left in memory, and has done nothing else but write messages.\<close>

theorem pool_implements_wait:
  assumes "work_count ctx = int (length works)" and "has_completion ctx"
    and "(pool_step ctx)\<^sup>*\<^sup>* (initial_pool n works) p" and "main p = Main_returned"
    and "run_works e h (int n) works = callbacks (queue p)"
  shows "\<exists>t. wait_for_completion (int n) works e h = (Done (queue_works (queue p)), h @ Run_works (int n) works # t) \<and>
    (\<forall>ev \<in> set t. \<exists>s. ev = Output s)"
proof -
  obtain t where "each (run_callback works) (callbacks (queue p)) e (h @ [Run_works (int n) works]) =
      (Done (), (h @ [Run_works (int n) works]) @ t)" "\<forall>ev \<in> set t. \<exists>s. ev = Output s"
    using callbacks_run by blast
  then show ?thesis
    using pool_works_fold [OF assms(1-4)] assms(5) by (intro exI [of _ t]) (simp add: wait_for_completion_def sq_def)
qed

theorem pool_implements_wait_witness:
  "\<exists>t. wait_for_completion 1 [sample_work] (sample_cache\<lparr>run_works := \<lambda>h n works. [Progression 0, Completion 0 2 ''out'']\<rparr>) [] =
      (Done [sample_work\<lparr>exit_code := 2\<rparr>], [] @ Run_works 1 [sample_work] # t) \<and>
    (\<forall>ev \<in> set t. \<exists>s. ev = Output s)"
  using pool_implements_wait [OF _ _ sample_run, of "sample_cache\<lparr>run_works := \<lambda>h n works. [Progression 0, Completion 0 2 ''out'']\<rparr>" "[]"]
  by (simp add: sample_context_def sample_end_def)

end
