(* ===== verification/Spec2Isabelle.thy ===== *)
theory Spec2Isabelle imports Deadline StringArrays JsonText ConfigSpec RemoteSafety PushSpec ExecSystem Win32Exec
  LinuxFsSpec Win32CopySpec Startup SheetSpec GradingSpec GradingRun begin

text \<open>
  hand2 manages the homework of a course: it invites students into a GitHub organization, grades the
  repositories they push to, late submissions included, and announces the grades that a Google sheet
  holds. This library models the program in \<open>src/code\<close> and states what makes it correct.

  \<^bold>\<open>The program.\<close> \<open>linux_main.c\<close> and \<open>win32_main.c\<close> fill a table of platform functions
  (\<open>hand_platform.h\<close>) and call \<open>run_hand\<close> of \<open>hand.c\<close>. It reads the configuration (\<open>hand_config.c\<close>) and the
  arguments, and runs one command. The commands query GitHub and Google in groups of parallel requests
  (\<open>hand_curl.c\<close>, over libcurl), parse the responses (\<open>cjson/cJSON.c\<close>), keep names and sheets in growable
  buffers (\<open>hand_buffer.c\<close>, on the helpers of \<open>hand_common.h\<close>), clone and push repositories
  (\<open>hand_git2.c\<close>, over libgit2) and run the grading commands on a pool of threads.

  \<^bold>\<open>Theories, from the bottom up.\<close>
  \<^item> HandPrelude: C strings, 32-bit integers, the collections of rewrite and introduction rules.
  \<^item> CStrings: comparison, length, digits, \<open>next_pow_of_two\<close> (\<open>hand_common.h\<close>).
  \<^item> Calendar: \<open>calendar_time\<close>, \<open>parse_time\<close>, \<open>linux_calender_time_to_time\<close> and its Windows counterpart; Deadline: \<open>calculate_cutoff\<close> and
    \<open>calculate_late_submission_day\<close>. Shown: the round trip of deadlines, which submissions are charged, and
    that none up to the cutoff is charged too much.
  \<^item> Memory, GrowBuffer, StringArrays, JsonText: \<open>hand_buffer.c\<close> on a heap of blocks in which a read or
    write outside a block is an error. Shown: each operation implements its abstract counterpart
    (append, snoc, split into words, escape), whatever has to be reallocated.
  \<^item> ConfigLang, ConfigSpec: the lexer, the lookahead ring, \<open>load_config\<close> and the argument parser of
    \<open>hand_config.c\<close>, against a specification on token lists; written configurations load back.
  \<^item> Json, JsonParser: the struct \<open>cJSON\<close>, its accessors and its parser; JsonSpec: the parser ends, stays in
    its text and returns well-typed values; JsonGrammar: it returns the value of every JSON text.
  \<^item> Effects: programs that take an environment and a history of events and give an outcome (returned,
    \<open>exit\<close>, crash, out of fuel) and a longer history, with rules for which events a program can emit.
    Platform: the environment, the platform functions and the events.
  \<^item> CurlGroup, GithubApi, GithubPages, Pushes, SheetApi: \<open>hand_curl.c\<close>. GithubSpec, PushSpec, SheetSpec:
    batched queries are one function mapped over the repositories, paged ones the concatenation of the
    pages; which push is selected from all pages of events; a response becomes the sheet of its cells; the
    requests that create issues are JSON that says what it should, and what a quote in the title does to them.
  \<^item> GitRepo: \<open>hand_git2.c\<close>. Templates, TemplateSpec: \<open>format_report_by_file_replacement\<close> and
    \<open>format_feedback_issues\<close> of \<open>hand.c\<close>.
  \<^item> Commands, Homework, Grading, RunHand: the commands and \<open>run_hand\<close>. HomeworkSpec, GradingSpec: who is
    invited, what is collected, which scores and reports are written, which issues are created. RemoteSafety: which command lines can change anything on GitHub or Google.
  \<^item> WorkQueue: the threads of \<open>linux_wait_for_completion\<close> as a transition system; every work is run once in
    every interleaving, and every run ends. GradingRun: which directory and commit each work of a grading run
    has, and that the threads do what the command expects of \<open>wait_for_completion\<close>.
  \<^item> ProcessIO, LinuxExec, Win32Exec: \<open>linux_exec_process\<close> and \<open>win32_exec_process\<close>, which start a process,
    collect its output through two pipes and report it. Shown: what reaches the files and the callback, that
    both platforms report the same, which handles are closed. ExecSystem: the parent, the process
    and the pipes as a transition system, failing calls and inherited write ends included; nothing is lost in any
    interleaving, the parent returns unless \<open>select\<close> or \<open>read\<close> fails, and what happens if \<open>select\<close> does.
  \<^item> LinuxFs, LinuxFsSpec: the directory functions of \<open>linux_main.c\<close> on a file system with symbolic links;
    Win32Fs, Win32CopySpec: those of \<open>win32_main.c\<close>, which do the same. RootDir, Startup: where the root directory
    is, the functions of the libraries, and \<open>main\<close> of both platforms.

  \<^bold>\<open>State and operations.\<close> A struct is a record or a datatype with the fields of the source; a function that
  changes a struct returns it. The heap is explicit in Memory and the theories on it; elsewhere a
  \<open>StringArray\<close> is the list of strings that StringArrays shows it represents, and a \<open>char *\<close> its bytes up to
  the NUL. \<open>int\<close> arithmetic that can overflow is checked by \<open>c_int\<close>, sizes are 64-bit words. Each failed
  assertion, \<open>exit\<close>, NULL dereference and overflow is an outcome of the model.

  \<^bold>\<open>Interfaces.\<close> The locales, each interpreted on the code's model: \<open>calendar_clock\<close> (platform clock and
  \<open>parse_time\<close>), the growable sequence (buffers, string arrays), \<open>paged\<close> (what a paged query collects),
  \<open>value_parser\<close> (parser of a value inside arrays and objects), \<open>stream_reader\<close> (one turn of reading a pipe,
  interpreted for \<open>select\<close> and \<open>read\<close> and for \<open>PeekNamedPipe\<close> and \<open>ReadFile\<close>), \<open>transition_system\<close> (invariant and
  measure, of the threads and of the parent of a process). \<open>calendar_clock\<close> is interpreted on both platforms.

  \<^bold>\<open>Bounds and fuel.\<close> Nothing in the code bounds the pages a server gives: the loops over pages take
  \<open>loop_fuel\<close> of the environment, and the properties say how much suffices (the number of pages
  over the pages per round). The lexer's and parser's loops of ConfigLang have the length of the text as
  measure or fuel, and ConfigSpec shows it is never used up. \<open>parse_value\<close> of cJSON takes
  \<open>CJSON_NESTING_LIMIT + 1\<close> levels, the loops over elements the length of the text; JsonSpec shows that both are
  enough. The loops that read a process have one turn for each answer the system gives, and end with it;
  ExecSystem derives the answers from the pipes, which hold at most \<open>capacity\<close> bytes, for every positive
  capacity. The recursion over directories takes the depth of the tree; without symbolic links the
  height suffices, with them the code itself can recurse without end.

  \<^bold>\<open>Outside the model.\<close> The network, libcurl, libgit2, the time and the score, a \<open>double\<close> that is only
  printed, are functions of the environment, which may answer differently each time; nothing is
  assumed of them except by hypotheses of a property. \<open>answers\<close> says that every request gets a response, which
  depends on its URL, and that libcurl does with a status of 400 or more what it documents for
  \<open>CURLOPT_FAILONERROR\<close>: no body and the result 22. The
  commands see the grading run and the file functions through the environment as well; WorkQueue,
  LinuxExec and LinuxFs model what is behind them on Linux, Win32Exec and Win32Fs on Windows. The file
  system of Windows is a tree of attributes without reparse points, in which paths are compared as they are
  written. Neither file system has file modes. The length of a token is a number, where the code has an \<open>int\<close>: a
  token of 2 GB is outside the model. \<open>cache_repository\<close> returns the directory, the empty one where the code
  leaves the caller's buffer as it was. Allocation either succeeds or ends the program.

  \<^bold>\<open>Not modelled.\<close> The log file; the printing and editing functions of cJSON, which are never called;
  the declarations of libcurl, libgit2 and the C library.
\<close>

end
